(* ===== verification/Prelude.thy ===== *)
theory Prelude
  imports Main "HOL-Library.Word" "HOL-Library.List_Lexorder" "HOL-Library.Char_ord"
begin

text \<open>
  Shared vocabulary of the R4 development: how the program fails, how it composes fallible
  calls, the parts of the C and C++ libraries that the sources use (decimal output,
  \<open>atoi\<close>, \<open>std::string::find\<close> and \<open>substr\<close>, \<open>std::getline\<close>, \<open>fwrite\<close> and \<open>fread\<close> of
  32-bit integers, \<open>std::map\<close> and \<open>std::set\<close> as ordered containers), and the collections
  \<open>r4_defs\<close> and \<open>r4_inv\<close> that the component proofs use.
\<close>

named_theorems r4_defs "definitions unfolded when an operation of the model is executed"
named_theorems r4_inv "an operation of the model keeps the invariant of its component"

section \<open>Failures and fallible computations\<close>

text \<open>
  A run of the sources can fail to return in six ways: \<open>CRASH()\<close> (a failed consistency check in
  strict mode), \<open>std::exit(n)\<close>, a failed \<open>assert\<close>, a C++ library exception (\<open>std::out_of_range\<close>),
  undefined behaviour (a dangling reference, an access outside an array, a division by zero),
  and a loop that never ends.
\<close>

datatype failure = CRASH | EXIT int | ASSERT_FAILED | OUT_OF_RANGE | UNDEFINED | DIVERGES

type_synonym 'a result = "failure + 'a"

fun bindR :: "'a result \<Rightarrow> ('a \<Rightarrow> 'b result) \<Rightarrow> 'b result" where
  "bindR (Inl e) f = Inl e"
| "bindR (Inr x) f = f x"

lemma bindR_eq_Inr_iff [simp]:
  "bindR m f = Inr y \<longleftrightarrow> (\<exists>x. m = Inr x \<and> f x = Inr y)"
  by (cases m) auto

lemma bindR_eq_Inl_iff:
  "bindR m f = Inl e \<longleftrightarrow> m = Inl e \<or> (\<exists>x. m = Inr x \<and> f x = Inl e)"
  by (cases m) auto

lemma bindR_same: "(\<And>x. m = Inr x \<Longrightarrow> f x = g x) \<Longrightarrow> bindR m f = bindR m g"
  by (cases m) auto

lemma bindR_Inr_right [simp]: "bindR m Inr = m"
  by (cases m) auto

lemma bindR_assoc: "bindR (bindR m f) g = bindR m (\<lambda>x. bindR (f x) g)"
  by (cases m) auto

text \<open>The success part of a result, as a predicate transformer: a failed run satisfies nothing.\<close>

definition ok :: "'a result \<Rightarrow> ('a \<Rightarrow> bool) \<Rightarrow> bool" where
  "ok m P = (case m of Inl _ \<Rightarrow> False | Inr x \<Rightarrow> P x)"

lemma ok_Inr [simp]: "ok (Inr x) P = P x" and ok_Inl [simp]: "ok (Inl e) P = False"
  by (simp_all add: ok_def)

lemma ok_bindR: "ok (bindR m f) P = ok m (\<lambda>x. ok (f x) P)"
  by (cases m) auto

lemma ok_iff: "ok m P \<longleftrightarrow> (\<exists>x. m = Inr x \<and> P x)"
  by (cases m) auto

section \<open>Characters and C strings\<close>

abbreviation NUL :: char where "NUL \<equiv> CHR 0x00"
abbreviation newline :: char where "newline \<equiv> CHR 0x0A"

text \<open>The C string that starts at offset \<open>i\<close> of a character array.\<close>

definition c_str_at :: "char list \<Rightarrow> nat \<Rightarrow> string" where
  "c_str_at d i = takeWhile (\<lambda>c. c \<noteq> NUL) (drop i d)"

lemma takeWhile_append_stop:
  "(\<forall>x \<in> set xs. P x) \<Longrightarrow> \<not> P y \<Longrightarrow> takeWhile P (xs @ y # ys) = xs"
  by (induction xs) auto

lemma c_str_at_append:
  "NUL \<notin> set s \<Longrightarrow> c_str_at (d @ s @ NUL # e) (length d) = s"
proof -
  assume "NUL \<notin> set s"
  then have "\<forall>c \<in> set s. c \<noteq> NUL" by auto
  then have "takeWhile (\<lambda>c. c \<noteq> NUL) (s @ NUL # e) = s"
    by (rule takeWhile_append_stop) simp
  then show ?thesis by (simp add: c_str_at_def)
qed

section \<open>Decimal output and input\<close>

definition digit_char :: "nat \<Rightarrow> char" where
  "digit_char d = char_of (48 + d)"

fun nat_dec :: "nat \<Rightarrow> string" where
  "nat_dec n = (if n < 10 then [digit_char n] else nat_dec (n div 10) @ [digit_char (n mod 10)])"

declare nat_dec.simps [simp del]

text \<open>What \<open>operator<<\<close> prints for a signed integer.\<close>

definition int_dec :: "int \<Rightarrow> string" where
  "int_dec i = (if i < 0 then CHR ''-'' # nat_dec (nat (- i)) else nat_dec (nat i))"

definition is_digit :: "char \<Rightarrow> bool" where
  "is_digit c = (48 \<le> (of_char c :: nat) \<and> (of_char c :: nat) \<le> 57)"

definition is_space :: "char \<Rightarrow> bool" where
  "is_space c = (c = CHR '' '' \<or> (9 \<le> (of_char c :: nat) \<and> (of_char c :: nat) \<le> 13))"

definition digit_value :: "char \<Rightarrow> nat" where
  "digit_value c = of_char c - 48"

fun dec_value :: "nat \<Rightarrow> string \<Rightarrow> nat" where
  "dec_value acc [] = acc"
| "dec_value acc (c # cs) = (if is_digit c then dec_value (acc * 10 + digit_value c) cs else acc)"

text \<open>
  \<open>atoi\<close>: leading white space, an optional sign, then as many digits as there are; 0 when there
  is none. Values beyond the range of \<open>int\<close>, where \<open>atoi\<close> is undefined, are not reduced.
\<close>

definition atoi :: "string \<Rightarrow> int" where
  "atoi s = (case dropWhile is_space s of
      [] \<Rightarrow> 0
    | c # cs \<Rightarrow>
        (if c = CHR ''-'' then - int (dec_value 0 cs)
         else if c = CHR ''+'' then int (dec_value 0 cs)
         else int (dec_value 0 (c # cs))))"

lemma of_char_digit_char: "d < 10 \<Longrightarrow> (of_char (digit_char d) :: nat) = 48 + d"
  by (simp add: digit_char_def)

lemma is_digit_digit_char [simp]: "d < 10 \<Longrightarrow> is_digit (digit_char d)"
  by (simp add: is_digit_def of_char_digit_char)

lemma digit_value_digit_char [simp]: "d < 10 \<Longrightarrow> digit_value (digit_char d) = d"
  by (simp add: digit_value_def of_char_digit_char)

lemma nat_dec_digits: "c \<in> set (nat_dec n) \<Longrightarrow> is_digit c"
proof (induction n rule: nat_dec.induct)
  case (1 n)
  then show ?case
    by (subst (asm) (2) nat_dec.simps) (auto split: if_splits)
qed

lemma nat_dec_nonempty [simp]: "nat_dec n \<noteq> []"
  by (subst nat_dec.simps) simp

lemma dec_value_append_digits:
  "(\<forall>c \<in> set xs. is_digit c) \<Longrightarrow> dec_value acc (xs @ ys) = dec_value (dec_value acc xs) ys"
  by (induction xs arbitrary: acc) auto

lemma dec_value_stop: "ys = [] \<or> \<not> is_digit (hd ys) \<Longrightarrow> dec_value acc ys = acc"
  by (cases ys) auto

lemma dec_value_nat_dec: "dec_value 0 (nat_dec n) = n"
proof (induction n rule: nat_dec.induct)
  case (1 n)
  show ?case
  proof (cases "n < 10")
    case True
    then show ?thesis by (subst nat_dec.simps) simp
  next
    case False
    with 1 have "dec_value 0 (nat_dec (n div 10)) = n div 10" by simp
    with False show ?thesis
      by (subst nat_dec.simps) (simp add: dec_value_append_digits nat_dec_digits)
  qed
qed

lemma digit_not_special:
  "is_digit c \<Longrightarrow> \<not> is_space c \<and> c \<noteq> CHR ''-'' \<and> c \<noteq> CHR ''+'' \<and> c \<noteq> CHR '','' \<and> c \<noteq> CHR '';''
     \<and> c \<noteq> newline \<and> c \<noteq> CHR ''<'' \<and> c \<noteq> CHR ''(''"
  by (auto simp: is_digit_def is_space_def)

lemma atoi_int_dec:
  assumes "ys = [] \<or> \<not> is_digit (hd ys)"
  shows "atoi (int_dec i @ ys) = i"
proof -
  have digits: "dec_value 0 (nat_dec m @ ys) = m" for m
    using assms by (simp add: dec_value_append_digits nat_dec_digits dec_value_nat_dec dec_value_stop)
  show ?thesis
  proof (cases "i < 0")
    case True
    then show ?thesis by (simp add: atoi_def int_dec_def is_space_def digits)
  next
    case False
    obtain c cs where cs: "nat_dec (nat i) = c # cs"
      by (cases "nat_dec (nat i)") auto
    then have "is_digit c" using nat_dec_digits [of c "nat i"] by simp
    with cs digits [of "nat i"] False show ?thesis
      by (simp add: atoi_def int_dec_def digit_not_special)
  qed
qed

lemma int_dec_chars: "c \<in> set (int_dec i) \<Longrightarrow> is_digit c \<or> c = CHR ''-''"
  by (auto simp: int_dec_def dest: nat_dec_digits split: if_splits)

lemma int_dec_nonempty [simp]: "int_dec i \<noteq> []"
  by (simp add: int_dec_def)

section \<open>std::string\<close>

text \<open>The index of the first occurrence of a character, \<open>None\<close> for \<open>npos\<close>.\<close>

primrec find_char :: "char \<Rightarrow> string \<Rightarrow> nat option" where
  "find_char c [] = None"
| "find_char c (x # xs) = (if x = c then Some 0 else map_option Suc (find_char c xs))"

text \<open>\<open>s.find(c, pos)\<close>.\<close>

definition find_char_from :: "char \<Rightarrow> nat \<Rightarrow> string \<Rightarrow> nat option" where
  "find_char_from c pos s =
     (if pos \<le> length s then map_option (\<lambda>i. pos + i) (find_char c (drop pos s)) else None)"

text \<open>\<open>s.substr(pos, n)\<close>, which throws \<open>std::out_of_range\<close> when \<open>pos\<close> is beyond the end.\<close>

definition substr :: "string \<Rightarrow> nat \<Rightarrow> nat \<Rightarrow> string result" where
  "substr s pos n = (if length s < pos then Inl OUT_OF_RANGE else Inr (take n (drop pos s)))"

lemma find_char_None_iff: "find_char c s = None \<longleftrightarrow> c \<notin> set s"
  by (induction s) auto

lemma find_char_absent [simp]: "c \<notin> set s \<Longrightarrow> find_char c s = None"
  by (simp add: find_char_None_iff)

lemma find_char_append: "c \<notin> set xs \<Longrightarrow> find_char c (xs @ c # ys) = Some (length xs)"
  by (induction xs) auto

lemma find_char_SomeD:
  "find_char c s = Some i \<Longrightarrow> s = take i s @ c # drop (Suc i) s \<and> c \<notin> set (take i s) \<and> i < length s"
proof (induction s arbitrary: i)
  case Nil
  then show ?case by simp
next
  case (Cons x xs)
  then show ?case by (cases "x = c") fastforce+
qed

text \<open>
  \<open>std::getline(stream, line, delim)\<close> on the characters that are left: the characters before
  the first delimiter, and what follows it; the flag says whether the end of the stream was
  hit before a delimiter (then \<open>stream.good()\<close> is false afterwards).
\<close>

fun getline :: "char \<Rightarrow> string \<Rightarrow> string \<times> string \<times> bool" where
  "getline d [] = ([], [], True)"
| "getline d (c # cs) =
     (if c = d then ([], cs, False)
      else (case getline d cs of (l, r, e) \<Rightarrow> (c # l, r, e)))"

lemma getline_append [simp]: "d \<notin> set l \<Longrightarrow> getline d (l @ d # r) = (l, r, False)"
  by (induction l) auto

lemma getline_end [simp]: "d \<notin> set l \<Longrightarrow> getline d l = (l, [], True)"
  by (induction l) auto

lemma getline_rest_length: "getline d s = (l, r, e) \<Longrightarrow> length r \<le> length s"
  by (induction s arbitrary: l r e) (fastforce split: if_splits prod.splits)+

lemma getline_rest_shorter: "getline d s = (l, r, False) \<Longrightarrow> length r < length s"
proof (induction s arbitrary: l r)
  case Nil
  then show ?case by simp
next
  case (Cons c s)
  then show ?case by (fastforce split: if_splits prod.splits)
qed

section \<open>Binary files\<close>

text \<open>
  A \<open>FILE\<close> is the list of its bytes. An \<open>int\<close> is written as four bytes in two's complement,
  least significant byte first, as on the x86 hosts R4 runs on.
\<close>

type_synonym bytes = "char list"

definition int32_bytes :: "int \<Rightarrow> bytes" where
  "int32_bytes i = (let u = i mod 2 ^ 32 in
     [char_of (u mod 256), char_of (u div 256 mod 256),
      char_of (u div 65536 mod 256), char_of (u div 16777216)])"

definition bytes_int32 :: "char \<Rightarrow> char \<Rightarrow> char \<Rightarrow> char \<Rightarrow> int" where
  "bytes_int32 a b c d =
     (let u = of_char a + 256 * of_char b + 65536 * of_char c + 16777216 * of_char d
      in if u < 2 ^ 31 then u else u - 2 ^ 32)"

text \<open>\<open>fread(&i, sizeof(int), 1, f)\<close>: \<open>None\<close> when fewer than four bytes are left.\<close>

fun fread_int :: "bytes \<Rightarrow> (int \<times> bytes) option" where
  "fread_int (a # b # c # d # f) = Some (bytes_int32 a b c d, f)"
| "fread_int _ = None"

text \<open>\<open>fread(buf, 1, n, f)\<close>: \<open>None\<close> when fewer than \<open>n\<close> bytes are left.\<close>

definition fread_chars :: "nat \<Rightarrow> bytes \<Rightarrow> (bytes \<times> bytes) option" where
  "fread_chars n f = (if length f < n then None else Some (take n f, drop n f))"

definition int32 :: "int \<Rightarrow> bool" where
  "int32 i = (- (2 ^ 31) \<le> i \<and> i < 2 ^ 31)"

lemma length_int32_bytes [simp]: "length (int32_bytes i) = 4"
  by (simp add: int32_bytes_def Let_def)

lemma bytes_sum:
  fixes u :: int
  shows "u mod 256 + 256 * (u div 256 mod 256) + 65536 * (u div 65536 mod 256)
           + 16777216 * (u div 16777216) = u"
proof -
  have combine: "r0 + 256 * r1 + 65536 * r2 + 16777216 * q3 = v"
    if "v = 256 * q1 + r0" "q1 = 256 * q2 + r1" "q2 = 256 * q3 + r2" for v q1 q2 q3 r0 r1 r2 :: int
    using that by simp
  have step: "v = 256 * (v div 256) + v mod 256" for v :: int by simp
  have "u div 65536 = u div 256 div 256" "u div 16777216 = u div 256 div 256 div 256"
    by (simp_all add: zdiv_zmult2_eq [symmetric])
  then show ?thesis
    using combine [OF step [of u] step [of "u div 256"] step [of "u div 256 div 256"]] by simp
qed

lemma unsigned32_value:
  assumes "int32 i"
  shows "(if i mod 2 ^ 32 < 2 ^ 31 then i mod 2 ^ 32 else i mod 2 ^ 32 - 2 ^ 32) = i"
proof (cases "i < 0")
  case True
  have "i mod 2 ^ 32 = (i + 2 ^ 32) mod 2 ^ 32" by simp
  also have "\<dots> = i + 2 ^ 32"
    using assms True by (intro mod_pos_pos_trivial) (auto simp: int32_def)
  finally show ?thesis using assms True by (simp add: int32_def)
next
  case False
  with assms have "i mod 2 ^ 32 = i" by (intro mod_pos_pos_trivial) (auto simp: int32_def)
  with assms show ?thesis by (simp add: int32_def)
qed

lemma bytes_int32_char_of:
  assumes "0 \<le> d" "d < 256"
  shows "bytes_int32 (char_of (a mod 256)) (char_of (b mod 256)) (char_of (c mod 256)) (char_of d)
    = (let u = a mod 256 + 256 * (b mod 256) + 65536 * (c mod 256) + 16777216 * d
       in if u < 2 ^ 31 then u else u - 2 ^ 32)"
  using assms by (simp add: bytes_int32_def)

lemma fread_int_int32_bytes [simp]:
  assumes "int32 i"
  shows "fread_int (int32_bytes i @ f) = Some (i, f)"
proof -
  define u where "u = i mod 2 ^ 32"
  have "0 \<le> u" "u < 2 ^ 32" by (simp_all add: u_def)
  then have "0 \<le> u div 16777216" "u div 16777216 < 256" by auto
  then have "fread_int (int32_bytes i @ f) = Some (if u < 2 ^ 31 then u else u - 2 ^ 32, f)"
    using bytes_int32_char_of [of "u div 16777216" u "u div 256" "u div 65536"] bytes_sum [of u]
    by (simp only: int32_bytes_def u_def [symmetric] Let_def append.simps fread_int.simps)
  then show ?thesis using unsigned32_value [OF assms] by (simp only: u_def)
qed

lemma fread_chars_append [simp]: "fread_chars (length d) (d @ f) = Some (d, f)"
  by (simp add: fread_chars_def)

end
