(* ===== verification/Warning_Collector.thy ===== *)
theory Warning_Collector
  imports Prelude
begin

text \<open>
  The warning collector (\<open>Source/WTF/wtf/warningcollector\<close> and \<open>warningcollectorreport\<close>): warnings are
  collected with the event action that is current, and written to and read from a log file.
  Reading a warning with details builds a C string from a heap block that has no terminating
  NUL, so what is read depends on the memory behind the block: that memory is the parameter
  \<open>mem\<close> of the reader (\<open>mem k\<close> is the memory from the address on that the \<open>k\<close>-th allocation returns).
\<close>

section \<open>Operations\<close>

record Warning =
  eventActionId :: int
  module :: string
  shortDescription :: string
  details :: string

type_synonym WarningCollector = "Warning list"

definition collect :: "int \<Rightarrow> string \<Rightarrow> string \<Rightarrow> string \<Rightarrow> WarningCollector \<Rightarrow> WarningCollector" where
  "collect i m s d W = W @ [\<lparr>eventActionId = i, module = m, shortDescription = s, details = d\<rparr>]"

definition warning_text :: "Warning \<Rightarrow> string" where
  "warning_text w =
     int_dec (eventActionId w) @ '';'' @ module w @ '';'' @ shortDescription w @ '';''
       @ nat_dec (if length (details w) = 0 then 0 else length (details w) + 1) @ [newline]
       @ (if length (details w) \<noteq> 0 then details w @ [newline] else [])"

definition writeLogFile :: "WarningCollector \<Rightarrow> string" where
  "writeLogFile W = concat (map warning_text W)"

text \<open>
  \<open>fp.read(details, length)\<close> into the block, then the implicit \<open>std::string(details)\<close>: the C string
  at the start of the block. Without a NUL in the memory the access is undefined.
\<close>

definition read_details :: "char list \<Rightarrow> nat \<Rightarrow> string \<Rightarrow> string result" where
  "read_details block n rest =
     (let got = take n rest; b = got @ drop (length got) block
      in if NUL \<in> set b then Inr (c_str_at b 0) else Inl UNDEFINED)"

definition header_fields :: "string \<Rightarrow> string \<times> string \<times> string \<times> string" where
  "header_fields line =
     (case getline (CHR '';'') line of (i, r1, _) \<Rightarrow>
     (case getline (CHR '';'') r1 of (m, r2, _) \<Rightarrow>
     (case getline (CHR '';'') r2 of (s, r3, _) \<Rightarrow>
     (case getline newline r3 of (n, _, _) \<Rightarrow> (i, m, s, n)))))"

function read_warnings :: "(nat \<Rightarrow> char list) \<Rightarrow> nat \<Rightarrow> string \<Rightarrow> WarningCollector result" where
  "read_warnings mem k fp =
     (case getline newline fp of (line, rest, at_end) \<Rightarrow>
       if line = [] then Inr []
       else (case header_fields line of (i, m, s, n) \<Rightarrow>
         let len = atoi n
         in
           if len = 0 then
             bindR (if at_end then Inr [] else read_warnings mem k rest) (\<lambda>ws.
               Inr (\<lparr>eventActionId = atoi i, module = m, shortDescription = s, details = []\<rparr> # ws))
           else if len < 0 then Inl OUT_OF_RANGE
           else bindR (read_details (mem k) (nat len) rest) (\<lambda>d.
                bindR (if at_end \<or> length rest < nat len then Inr []
                       else read_warnings mem (k + 1) (drop (nat len) rest)) (\<lambda>ws.
                Inr (\<lparr>eventActionId = atoi i, module = m, shortDescription = s, details = d\<rparr> # ws)))))"
  by pat_completeness auto
termination
  by (relation "measure (\<lambda>(mem, k, fp). length fp)") (auto dest!: getline_rest_shorter [OF sym])

declare read_warnings.simps [simp del]

definition readLogFile :: "(nat \<Rightarrow> char list) \<Rightarrow> string \<Rightarrow> WarningCollector result" where
  "readLogFile mem fp = read_warnings mem 0 fp"

text \<open>The per-thread collector and the file-level \<open>currentEventAction\<close> of the reporting functions.\<close>

record warning_state =
  warningCollector :: WarningCollector
  currentEventAction :: int

definition WarningCollectorReport :: "string \<Rightarrow> string \<Rightarrow> string \<Rightarrow> warning_state \<Rightarrow> warning_state" where
  "WarningCollectorReport m s d st =
     st\<lparr>warningCollector := collect (currentEventAction st) m s d (warningCollector st)\<rparr>"

definition WarningCollecterWriteToLogFile :: "warning_state \<Rightarrow> string" where
  "WarningCollecterWriteToLogFile st = writeLogFile (warningCollector st)"

definition WarningCollectorSetCurrentEventAction :: "int \<Rightarrow> warning_state \<Rightarrow> warning_state" where
  "WarningCollectorSetCurrentEventAction i st = st\<lparr>currentEventAction := i\<rparr>"

section \<open>Reading a written log\<close>

definition warning_ok :: "Warning \<Rightarrow> bool" where
  "warning_ok w =
     (CHR '';'' \<notin> set (module w) \<and> newline \<notin> set (module w)
      \<and> CHR '';'' \<notin> set (shortDescription w) \<and> newline \<notin> set (shortDescription w)
      \<and> NUL \<notin> set (details w))"

text \<open>What a warning with details comes back as, when the memory behind the block is \<open>tail\<close>.\<close>

definition garbled :: "char list \<Rightarrow> Warning \<Rightarrow> Warning" where
  "garbled block w =
     (if details w = [] then w
      else w\<lparr>details := details w @ newline # c_str_at (drop (length (details w) + 1) block) 0\<rparr>)"

lemma nat_dec_atoi: "atoi (nat_dec n) = int n"
  using atoi_int_dec [of "[]" "int n"] by (simp add: int_dec_def)

lemma dec_not_delim: "CHR '';'' \<notin> set (int_dec i)" "newline \<notin> set (int_dec i)"
  "newline \<notin> set (nat_dec n)" "CHR '';'' \<notin> set (nat_dec n)"
  using int_dec_chars digit_not_special nat_dec_digits by fastforce+

definition header_line :: "Warning \<Rightarrow> string" where
  "header_line w = int_dec (eventActionId w) @ '';'' @ module w @ '';'' @ shortDescription w @ '';''
     @ nat_dec (if details w = [] then 0 else length (details w) + 1)"

lemma header_line_props:
  assumes "warning_ok w"
  shows "getline newline (warning_text w @ rest) =
      (header_line w, (if details w = [] then [] else details w @ [newline]) @ rest, False)"
    "header_line w \<noteq> []"
    "header_fields (header_line w) = (int_dec (eventActionId w), module w, shortDescription w,
       nat_dec (if details w = [] then 0 else length (details w) + 1))"
proof -
  have "newline \<notin> set (header_line w)"
    using assms dec_not_delim by (auto simp: header_line_def warning_ok_def)
  then show "getline newline (warning_text w @ rest) =
      (header_line w, (if details w = [] then [] else details w @ [newline]) @ rest, False)"
    using getline_append [of newline "header_line w"] by (simp add: warning_text_def header_line_def)
  show "header_line w \<noteq> []" by (simp add: header_line_def)
  show "header_fields (header_line w) = (int_dec (eventActionId w), module w, shortDescription w,
       nat_dec (if details w = [] then 0 else length (details w) + 1))"
    using assms dec_not_delim by (simp add: header_fields_def header_line_def warning_ok_def)
qed

lemma read_details_garbled:
  assumes "NUL \<notin> set d" "NUL \<in> set (drop (length d + 1) block)"
  shows "read_details block (length d + 1) (d @ newline # rest) =
     Inr (d @ newline # c_str_at (drop (length d + 1) block) 0)"
proof -
  have "takeWhile (\<lambda>c. c \<noteq> NUL) (d @ newline # b) = d @ newline # takeWhile (\<lambda>c. c \<noteq> NUL) b" for b
    using assms(1) by (induction d) auto
  then show ?thesis using assms(2) by (simp add: read_details_def Let_def c_str_at_def)
qed

text \<open>The number of the allocation made for each warning of the list.\<close>

fun alloc_numbers :: "nat \<Rightarrow> WarningCollector \<Rightarrow> nat list" where
  "alloc_numbers k [] = []"
| "alloc_numbers k (w # ws) = k # alloc_numbers (if details w = [] then k else k + 1) ws"

lemma atoi_header [simp]: "atoi (int_dec i) = i"
  using atoi_int_dec [of "[]" i] by simp

lemma read_warnings_write:
  assumes "\<forall>w \<in> set W. warning_ok w" "\<forall>w \<in> set W. \<forall>k. NUL \<in> set (drop (length (details w) + 1) (mem k))"
  shows "read_warnings mem k (writeLogFile W) =
     Inr (map2 (\<lambda>n w. garbled (mem n) w) (alloc_numbers k W) W)"
  using assms
proof (induction W arbitrary: k)
  case Nil
  then show ?case by (simp add: writeLogFile_def read_warnings.simps)
next
  case (Cons w W)
  let ?rest = "writeLogFile W"
  have w: "warning_ok w" and cat: "writeLogFile (w # W) = warning_text w @ ?rest"
    using Cons.prems by (simp_all add: writeLogFile_def)
  note hd = header_line_props [OF w]
  show ?case
  proof (cases "details w = []")
    case True
    then show ?thesis
      using Cons.IH Cons.prems hd by (subst read_warnings.simps) (simp add: cat garbled_def [of _ w] nat_dec_atoi Let_def)
  next
    case False
    let ?d = "details w @ newline # c_str_at (drop (length (details w) + 1) (mem k)) 0"
    have "read_details (mem k) (Suc (length (details w))) (details w @ newline # ?rest) = Inr ?d"
      using read_details_garbled [of "details w" "mem k" ?rest] Cons.prems(2) w by (simp add: warning_ok_def)
    then show ?thesis
      using False Cons.IH Cons.prems hd
      by (subst read_warnings.simps) (simp add: cat garbled_def [of _ w] nat_dec_atoi Let_def nat_add_distrib)
  qed
qed

lemma length_alloc_numbers [simp]: "length (alloc_numbers k W) = length W"
  by (induction W arbitrary: k) auto



text \<open>Every warning reported while an event action is current carries its id.\<close>

lemma report_current:
  "warningCollector (fold (\<lambda>(m, s, d). WarningCollectorReport m s d) rs st) =
     warningCollector st @ map (\<lambda>(m, s, d). \<lparr>eventActionId = currentEventAction st, module = m,
        shortDescription = s, details = d\<rparr>) rs"
proof -
  have "currentEventAction (fold (\<lambda>(m, s, d). WarningCollectorReport m s d) rs st) = currentEventAction st" for rs st
    by (induction rs arbitrary: st) (auto simp: WarningCollectorReport_def split: prod.splits)
  then show ?thesis
    by (induction rs rule: rev_induct) (auto simp: WarningCollectorReport_def collect_def split: prod.splits)
qed

end
