(* ===== verification/Std_Containers.thy ===== *)
theory Std_Containers
  imports Prelude
begin

text \<open>
  \<open>std::map\<close> and \<open>std::set\<close> as the sources use them: ordered by key, iterated in key order, with
  \<open>find\<close> giving an iterator that can be advanced to the end. The locale \<open>dictionary\<close> is the
  contract the components rely on (what a lookup returns after a store or a removal, and that
  the container stays well formed); \<open>sequence_counter\<close> is the contract of the per-key sequence
  numbers that \<open>DOMTimer\<close> and \<open>QNetworkReplyInitialSnapshot\<close> draw from such a container.
\<close>

section \<open>Ordered maps\<close>

type_synonym ('k, 'v) smap = "('k \<times> 'v) list"

definition smap_inv :: "('k::linorder, 'v) smap \<Rightarrow> bool" where
  "smap_inv m = sorted_wrt (<) (map fst m)"

fun smap_store :: "'k::linorder \<Rightarrow> 'v \<Rightarrow> ('k, 'v) smap \<Rightarrow> ('k, 'v) smap" where
  "smap_store k v [] = [(k, v)]"
| "smap_store k v ((k', v') # m) =
     (if k < k' then (k, v) # (k', v') # m
      else if k = k' then (k, v) # m
      else (k', v') # smap_store k v m)"

abbreviation smap_lookup :: "('k, 'v) smap \<Rightarrow> 'k \<Rightarrow> 'v option" where
  "smap_lookup m k \<equiv> map_of m k"

definition smap_erase :: "'k \<Rightarrow> ('k, 'v) smap \<Rightarrow> ('k, 'v) smap" where
  "smap_erase k m = filter (\<lambda>e. fst e \<noteq> k) m"

text \<open>\<open>m.insert(pair)\<close>: keeps the entry that is already there.\<close>

definition smap_insert_new :: "'k::linorder \<Rightarrow> 'v \<Rightarrow> ('k, 'v) smap \<Rightarrow> ('k, 'v) smap" where
  "smap_insert_new k v m = (case smap_lookup m k of None \<Rightarrow> smap_store k v m | Some _ \<Rightarrow> m)"

text \<open>The entries from \<open>m.find(k)\<close> to \<open>m.end()\<close>.\<close>

definition smap_find_on :: "'k \<Rightarrow> ('k, 'v) smap \<Rightarrow> ('k, 'v) smap" where
  "smap_find_on k m = dropWhile (\<lambda>e. fst e \<noteq> k) m"

lemma smap_inv_Nil [simp]: "smap_inv []"
  by (simp add: smap_inv_def)

lemma smap_inv_Cons: "smap_inv (e # m) \<longleftrightarrow> (\<forall>k \<in> fst ` set m. fst e < k) \<and> smap_inv m"
  by (simp add: smap_inv_def)

lemma set_fst_smap_store: "fst ` set (smap_store k v m) = insert k (fst ` set m)"
  by (induction k v m rule: smap_store.induct) auto

lemma smap_inv_store [simp]: "smap_inv m \<Longrightarrow> smap_inv (smap_store k v m)"
  by (induction k v m rule: smap_store.induct) (auto simp: smap_inv_Cons set_fst_smap_store)

lemma smap_lookup_store [simp]:
  "smap_inv m \<Longrightarrow> smap_lookup (smap_store k v m) = (smap_lookup m)(k \<mapsto> v)"
proof (induction k v m rule: smap_store.induct)
  case (2 k v k' v' m)
  then show ?case by (auto simp: smap_inv_Cons fun_eq_iff)
qed simp

lemma smap_inv_erase [simp]: "smap_inv m \<Longrightarrow> smap_inv (smap_erase k m)"
  by (induction m) (auto simp: smap_erase_def smap_inv_Cons)

lemma smap_lookup_erase [simp]: "smap_lookup (smap_erase k m) = (smap_lookup m)(k := None)"
  by (induction m) (auto simp: smap_erase_def fun_eq_iff)

lemma smap_inv_insert_new [simp]: "smap_inv m \<Longrightarrow> smap_inv (smap_insert_new k v m)"
  by (simp add: smap_insert_new_def split: option.splits)

lemma smap_lookup_insert_new:
  "smap_inv m \<Longrightarrow> smap_lookup (smap_insert_new k v m) =
     (case smap_lookup m k of None \<Rightarrow> (smap_lookup m)(k \<mapsto> v) | Some _ \<Rightarrow> smap_lookup m)"
  by (auto simp: smap_insert_new_def fun_eq_iff split: option.splits)

lemma smap_inv_distinct: "smap_inv m \<Longrightarrow> distinct (map fst m)"
  by (simp add: smap_inv_def strict_sorted_iff)

lemma dom_smap_lookup: "dom (smap_lookup m) = fst ` set m"
  by (rule dom_map_of_conv_image_fst)

text \<open>A well-formed container is determined by its lookups, so iteration order carries nothing more.\<close>

lemma smap_eqI:
  assumes "smap_inv m" "smap_inv n" "smap_lookup m = smap_lookup n"
  shows "m = n"
proof -
  have keys: "map fst m = map fst n"
  proof (rule strict_sorted_equal)
    show "sorted_wrt (<) (map fst n)" "sorted_wrt (<) (map fst m)"
      using assms(1,2) by (simp_all add: smap_inv_def)
    show "set (map fst m) = set (map fst n)"
      using assms(3) by (metis dom_smap_lookup set_map)
  qed
  have entry: "e = (fst e, the (smap_lookup l (fst e)))" if "smap_inv l" "e \<in> set l"
    for l :: "('a, 'b) smap" and e
    using that smap_inv_distinct [of l] by (cases e) simp
  have "m = map (\<lambda>k. (k, the (smap_lookup m k))) (map fst m)"
    using entry [OF assms(1)] by (simp add: map_idI)
  also have "\<dots> = map (\<lambda>k. (k, the (smap_lookup n k))) (map fst n)"
    using keys assms(3) by simp
  also have "\<dots> = n"
    using entry [OF assms(2)] by (simp add: map_idI)
  finally show ?thesis .
qed

section \<open>Ordered sets\<close>

definition sset_inv :: "'a::linorder list \<Rightarrow> bool" where
  "sset_inv xs = sorted_wrt (<) xs"

fun sset_insert :: "'a::linorder \<Rightarrow> 'a list \<Rightarrow> 'a list" where
  "sset_insert x [] = [x]"
| "sset_insert x (y # ys) = (if x < y then x # y # ys else if x = y then y # ys else y # sset_insert x ys)"

definition sset_erase :: "'a \<Rightarrow> 'a list \<Rightarrow> 'a list" where
  "sset_erase x xs = filter (\<lambda>y. y \<noteq> x) xs"

lemma set_sset_insert [simp]: "set (sset_insert x xs) = insert x (set xs)"
  by (induction xs) auto

lemma set_sset_erase [simp]: "set (sset_erase x xs) = set xs - {x}"
  by (auto simp: sset_erase_def)

lemma sset_inv_Nil [simp]: "sset_inv []"
  by (simp add: sset_inv_def)

lemma sset_inv_insert [simp]: "sset_inv xs \<Longrightarrow> sset_inv (sset_insert x xs)"
  by (induction x xs rule: sset_insert.induct) (auto simp: sset_inv_def)

lemma sset_inv_erase [simp]: "sset_inv xs \<Longrightarrow> sset_inv (sset_erase x xs)"
  by (simp add: sset_inv_def sset_erase_def sorted_wrt_filter)

section \<open>The dictionary contract\<close>

locale dictionary =
  fixes empty_d :: 'm
    and lookup_d :: "'m \<Rightarrow> 'k \<Rightarrow> 'v option"
    and store_d :: "'k \<Rightarrow> 'v \<Rightarrow> 'm \<Rightarrow> 'm"
    and erase_d :: "'k \<Rightarrow> 'm \<Rightarrow> 'm"
    and inv_d :: "'m \<Rightarrow> bool"
  assumes lookup_empty: "lookup_d empty_d k = None"
    and lookup_store: "inv_d m \<Longrightarrow> lookup_d (store_d k v m) k' = (if k' = k then Some v else lookup_d m k')"
    and lookup_erase: "inv_d m \<Longrightarrow> lookup_d (erase_d k m) k' = (if k' = k then None else lookup_d m k')"
    and inv_empty: "inv_d empty_d"
    and inv_store: "inv_d m \<Longrightarrow> inv_d (store_d k v m)"
    and inv_erase: "inv_d m \<Longrightarrow> inv_d (erase_d k m)"
begin

lemma erase_store: "inv_d m \<Longrightarrow> lookup_d m k = None \<Longrightarrow> lookup_d (erase_d k (store_d k v m)) k' = lookup_d m k'"
  by (simp add: lookup_erase lookup_store inv_store)

lemma store_commute:
  "inv_d m \<Longrightarrow> k \<noteq> l \<Longrightarrow>
     lookup_d (store_d k v (store_d l w m)) k' = lookup_d (store_d l w (store_d k v m)) k'"
  by (simp add: lookup_store inv_store)

lemma fold_store_other:
  "inv_d m \<Longrightarrow> k \<notin> fst ` set es \<Longrightarrow> lookup_d (fold (\<lambda>e. store_d (fst e) (snd e)) es m) k = lookup_d m k"
  by (induction es arbitrary: m) (auto simp: lookup_store inv_store)

end

interpretation sm: dictionary "[]" smap_lookup smap_store smap_erase smap_inv
  by unfold_locales auto

section \<open>Per-key sequence numbers\<close>

locale sequence_counter =
  fixes draw :: "'k \<Rightarrow> 's \<Rightarrow> 32 word \<times> 's"
    and pending :: "'s \<Rightarrow> 'k \<Rightarrow> 32 word"
    and inv_c :: "'s \<Rightarrow> bool"
  assumes draw_value: "inv_c s \<Longrightarrow> fst (draw k s) = pending s k"
    and draw_pending: "inv_c s \<Longrightarrow> pending (snd (draw k s)) k' = (if k' = k then pending s k + 1 else pending s k')"
    and draw_inv: "inv_c s \<Longrightarrow> inv_c (snd (draw k s))"
begin

lemma draws_inv: "inv_c s \<Longrightarrow> inv_c (fold (\<lambda>k t. snd (draw k t)) ks s)"
  by (induction ks arbitrary: s) (auto simp: draw_inv)

lemma draws_pending:
  "inv_c s \<Longrightarrow> pending (fold (\<lambda>k t. snd (draw k t)) ks s) k = pending s k + of_nat (count_list ks k)"
  by (induction ks arbitrary: s) (auto simp: draw_pending draw_inv)

text \<open>The number drawn for \<open>k\<close> is the number of earlier draws for \<open>k\<close>; it repeats only after \<open>2 ^ 32\<close> of them.\<close>

lemma draw_after:
  assumes "inv_c s" "pending s k = 0"
  shows "fst (draw k (fold (\<lambda>k t. snd (draw k t)) ks s)) = of_nat (count_list ks k)"
  using assms by (simp add: draw_value draws_inv draws_pending)

lemma draws_distinct:
  assumes "inv_c s" "pending s k = 0" "count_list ks k < count_list ls k" "count_list ls k < 2 ^ 32"
  shows "fst (draw k (fold (\<lambda>k t. snd (draw k t)) ks s)) \<noteq> fst (draw k (fold (\<lambda>k t. snd (draw k t)) ls s))"
proof
  assume "fst (draw k (fold (\<lambda>k t. snd (draw k t)) ks s)) = fst (draw k (fold (\<lambda>k t. snd (draw k t)) ls s))"
  then have "(of_nat (count_list ks k) :: 32 word) = of_nat (count_list ls k)"
    using assms(1,2) by (simp add: draw_after)
  then have "count_list ks k mod 2 ^ 32 = count_list ls k mod 2 ^ 32"
    by (simp add: word_of_nat_eq_iff take_bit_eq_mod)
  with assms(3,4) show False by simp
qed

end

text \<open>
  The counter both components implement: read the entry (0 when there is none), store its
  successor. It meets the contract on any dictionary, here on the ordered map.
\<close>

definition next_number :: "'k::linorder \<Rightarrow> ('k, 32 word) smap \<Rightarrow> 32 word \<times> ('k, 32 word) smap" where
  "next_number k m = (let n = (case smap_lookup m k of None \<Rightarrow> 0 | Some n \<Rightarrow> n) in (n, smap_store k (n + 1) m))"

definition pending_number :: "('k, 32 word) smap \<Rightarrow> 'k \<Rightarrow> 32 word" where
  "pending_number m k = (case smap_lookup m k of None \<Rightarrow> 0 | Some n \<Rightarrow> n)"

interpretation nn: sequence_counter next_number pending_number smap_inv
  by unfold_locales (auto simp: next_number_def pending_number_def Let_def)

end
