(* ===== verification/Action_Log.thy ===== *)
theory Action_Log
  imports Std_Containers
begin

text \<open>
  The action log (\<open>Source/WTF/wtf/ActionLog\<close>): for every event action its type and the commands it
  executed (scopes, memory accesses, triggered events), plus the happens-before arcs. The theory
  models every operation of the class, with the null-pointer and out-of-bounds accesses the code
  could make as failures, and the binary file format. The lemmas show that no sequence of calls
  reaches such an access and what the logged commands look like.
\<close>

section \<open>Data\<close>

datatype CommandType =
  ENTER_SCOPE | EXIT_SCOPE | READ_MEMORY | WRITE_MEMORY | TRIGGER_ARC | MEMORY_VALUE

datatype EventActionType = EA_UNKNOWN | EA_TIMER | EA_USER_INTERFACE | EA_NETWORK | EA_CONTINUATION

fun CommandType_AsString :: "CommandType \<Rightarrow> string" where
  "CommandType_AsString ENTER_SCOPE = ''ENTER_SCOPE''"
| "CommandType_AsString EXIT_SCOPE = ''EXIT_SCOPE''"
| "CommandType_AsString READ_MEMORY = ''READ_MEMORY''"
| "CommandType_AsString WRITE_MEMORY = ''WRITE_MEMORY''"
| "CommandType_AsString TRIGGER_ARC = ''TRIGGER_ARC''"
| "CommandType_AsString MEMORY_VALUE = ''MEMORY_VALUE''"

fun EventActionType_AsString :: "EventActionType \<Rightarrow> string" where
  "EventActionType_AsString EA_UNKNOWN = ''UNKNOWN''"
| "EventActionType_AsString EA_TIMER = ''TIMER''"
| "EventActionType_AsString EA_USER_INTERFACE = ''USER_INTERFACE''"
| "EventActionType_AsString EA_NETWORK = ''NETWORK''"
| "EventActionType_AsString EA_CONTINUATION = ''CONTINUATION''"

fun int_of_command :: "CommandType \<Rightarrow> int" where
  "int_of_command ENTER_SCOPE = 0"
| "int_of_command EXIT_SCOPE = 1"
| "int_of_command READ_MEMORY = 2"
| "int_of_command WRITE_MEMORY = 3"
| "int_of_command TRIGGER_ARC = 4"
| "int_of_command MEMORY_VALUE = 5"

fun int_of_action_type :: "EventActionType \<Rightarrow> int" where
  "int_of_action_type EA_UNKNOWN = 0"
| "int_of_action_type EA_TIMER = 1"
| "int_of_action_type EA_USER_INTERFACE = 2"
| "int_of_action_type EA_NETWORK = 3"
| "int_of_action_type EA_CONTINUATION = 4"

text \<open>An enumerator read from a file; other values are outside the range of the enumeration.\<close>

definition command_of_int :: "int \<Rightarrow> CommandType result" where
  "command_of_int i =
     (if i = 0 then Inr ENTER_SCOPE else if i = 1 then Inr EXIT_SCOPE else if i = 2 then Inr READ_MEMORY
      else if i = 3 then Inr WRITE_MEMORY else if i = 4 then Inr TRIGGER_ARC
      else if i = 5 then Inr MEMORY_VALUE else Inl UNDEFINED)"

definition action_type_of_int :: "int \<Rightarrow> EventActionType result" where
  "action_type_of_int i =
     (if i = 0 then Inr EA_UNKNOWN else if i = 1 then Inr EA_TIMER else if i = 2 then Inr EA_USER_INTERFACE
      else if i = 3 then Inr EA_NETWORK else if i = 4 then Inr EA_CONTINUATION else Inl UNDEFINED)"

lemma int_of_command_inject [simp]: "int_of_command a = int_of_command b \<longleftrightarrow> a = b"
  by (cases a; cases b) simp_all

lemma command_of_int_of_command [simp]: "command_of_int (int_of_command c) = Inr c"
  by (cases c) (simp_all add: command_of_int_def)

lemma action_type_of_int_of [simp]: "action_type_of_int (int_of_action_type t) = Inr t"
  by (cases t) (simp_all add: action_type_of_int_def)

lemma int32_command [simp]: "int32 (int_of_command c)"
  by (cases c) (simp_all add: int32_def)

lemma int32_action_type [simp]: "int32 (int_of_action_type t)"
  by (cases t) (simp_all add: int32_def)

datatype Command = Command (m_cmdType: CommandType) (m_location: int)

text \<open>\<open>Command::operator<\<close>: by type, then by location.\<close>

instantiation CommandType :: linorder
begin

definition less_eq_CommandType :: "CommandType \<Rightarrow> CommandType \<Rightarrow> bool" where
  "less_eq_CommandType a b = (int_of_command a \<le> int_of_command b)"

definition less_CommandType :: "CommandType \<Rightarrow> CommandType \<Rightarrow> bool" where
  "less_CommandType a b = (int_of_command a < int_of_command b)"

instance
  by standard (auto simp: less_eq_CommandType_def less_CommandType_def)

end

definition command_less :: "Command \<Rightarrow> Command \<Rightarrow> bool" where
  "command_less c o' = (if m_cmdType c = m_cmdType o' then m_location c < m_location o'
                        else m_cmdType c < m_cmdType o')"

instantiation Command :: linorder
begin

definition less_Command :: "Command \<Rightarrow> Command \<Rightarrow> bool" where
  "less_Command c o' = command_less c o'"

definition less_eq_Command :: "Command \<Rightarrow> Command \<Rightarrow> bool" where
  "less_eq_Command c o' = (c < o' \<or> c = o')"

instance
proof
  fix x y z :: Command
  show "x < y \<longleftrightarrow> x \<le> y \<and> \<not> y \<le> x"
    by (cases x; cases y) (auto simp: less_Command_def command_less_def less_eq_Command_def split: if_splits)
  show "x \<le> x"
    by (simp add: less_eq_Command_def)
  show "x \<le> y \<Longrightarrow> y \<le> z \<Longrightarrow> x \<le> z"
    by (cases x; cases y; cases z) (auto simp: less_Command_def command_less_def less_eq_Command_def split: if_splits)
  show "x \<le> y \<Longrightarrow> y \<le> x \<Longrightarrow> x = y"
    by (cases x; cases y) (auto simp: less_Command_def command_less_def less_eq_Command_def split: if_splits)
  show "x \<le> y \<or> y \<le> x"
    by (cases x; cases y) (auto simp: less_Command_def command_less_def less_eq_Command_def split: if_splits)
qed

end

record Arc =
  m_tail :: int
  m_head :: int
  m_duration :: int

record EventAction =
  m_actionType :: EventActionType
  m_commands :: "Command list"

record PendingTriggerArc =
  m_operationId :: int
  m_commandId :: nat

text \<open>The keys of \<open>m_pendingTriggerArcs\<close> are pointers cast to \<open>long int\<close>.\<close>

record ActionLog =
  m_eventActions :: "(int, EventAction) smap"
  m_scopeDepth :: int
  m_maxEventActionId :: int
  m_arcs :: "Arc list"
  m_pendingTriggerArcs :: "(int, PendingTriggerArc) smap"
  m_currentEventActionId :: int
  m_cmdsInCurrentEvent :: "Command list"

definition new_EventAction :: EventAction where
  "new_EventAction = \<lparr>m_actionType = EA_UNKNOWN, m_commands = []\<rparr>"

definition new_ActionLog :: ActionLog where
  "new_ActionLog =
     \<lparr>m_eventActions = [], m_scopeDepth = 0, m_maxEventActionId = -1, m_arcs = [],
      m_pendingTriggerArcs = [], m_currentEventActionId = -1, m_cmdsInCurrentEvent = []\<rparr>"

section \<open>Operations\<close>

definition addArc :: "int \<Rightarrow> int \<Rightarrow> int \<Rightarrow> ActionLog \<Rightarrow> ActionLog" where
  "addArc earlierOperation laterOperation arcDuration L =
     L\<lparr>m_arcs := m_arcs L @ [\<lparr>m_tail = earlierOperation, m_head = laterOperation, m_duration = arcDuration\<rparr>]\<rparr>"

definition startEventAction :: "int \<Rightarrow> ActionLog \<Rightarrow> ActionLog" where
  "startEventAction operation L =
     L\<lparr>m_currentEventActionId := operation,
       m_eventActions :=
         (case smap_lookup (m_eventActions L) operation of
            None \<Rightarrow> smap_store operation new_EventAction (m_eventActions L)
          | Some _ \<Rightarrow> m_eventActions L),
       m_maxEventActionId :=
         (if operation > m_maxEventActionId L then operation else m_maxEventActionId L),
       m_cmdsInCurrentEvent := [],
       m_scopeDepth := 0\<rparr>"

definition endEventAction :: "ActionLog \<Rightarrow> bool \<times> ActionLog" where
  "endEventAction L =
     (m_currentEventActionId L \<noteq> -1,
      L\<lparr>m_currentEventActionId := -1, m_cmdsInCurrentEvent := [], m_scopeDepth := 0\<rparr>)"

text \<open>\<open>m_eventActions[id]->\<dots>\<close>: a missing key would be a null pointer.\<close>

definition action_at :: "int \<Rightarrow> ActionLog \<Rightarrow> EventAction result" where
  "action_at i L = (case smap_lookup (m_eventActions L) i of None \<Rightarrow> Inl UNDEFINED | Some a \<Rightarrow> Inr a)"

definition store_action :: "int \<Rightarrow> EventAction \<Rightarrow> ActionLog \<Rightarrow> ActionLog" where
  "store_action i a L = L\<lparr>m_eventActions := smap_store i a (m_eventActions L)\<rparr>"

definition setEventActionType :: "EventActionType \<Rightarrow> ActionLog \<Rightarrow> (bool \<times> ActionLog) result" where
  "setEventActionType op_type L =
     (if m_currentEventActionId L = -1 then Inr (False, L)
      else bindR (action_at (m_currentEventActionId L) L) (\<lambda>a.
        Inr (True, store_action (m_currentEventActionId L) (a\<lparr>m_actionType := op_type\<rparr>) L)))"

definition willLogCommand :: "CommandType \<Rightarrow> ActionLog \<Rightarrow> bool result" where
  "willLogCommand command L =
     (if m_currentEventActionId L = -1 then Inr False
      else bindR (action_at (m_currentEventActionId L) L) (\<lambda>a.
        let current_cmds = m_commands a in
        if command = MEMORY_VALUE then
          (if current_cmds = [] then Inr False
           else if m_cmdType (last current_cmds) \<noteq> READ_MEMORY \<and> m_cmdType (last current_cmds) \<noteq> WRITE_MEMORY
           then Inr False
           else Inr True)
        else Inr True))"

definition scope_delta :: "CommandType \<Rightarrow> int" where
  "scope_delta command = (if command = ENTER_SCOPE then 1 else if command = EXIT_SCOPE then -1 else 0)"

text \<open>
  The part of \<open>logCommand\<close> after the guards: the scope counter moves, and leaving a scope in
  which nothing was logged removes its entry instead of adding an exit.
\<close>

definition push_command :: "Command \<Rightarrow> ActionLog \<Rightarrow> (bool \<times> ActionLog) result" where
  "push_command c L =
     bindR (action_at (m_currentEventActionId L) L) (\<lambda>a.
       let current_cmds = m_commands a;
           L1 = L\<lparr>m_scopeDepth := m_scopeDepth L + scope_delta (m_cmdType c)\<rparr>;
           cmds = (if m_cmdType c = EXIT_SCOPE \<and> current_cmds \<noteq> [] \<and> m_cmdType (last current_cmds) = ENTER_SCOPE
                   then butlast current_cmds else current_cmds @ [c])
       in Inr (True, store_action (m_currentEventActionId L) (a\<lparr>m_commands := cmds\<rparr>) L1))"

definition logCommand :: "CommandType \<Rightarrow> int \<Rightarrow> ActionLog \<Rightarrow> (bool \<times> ActionLog) result" where
  "logCommand command memoryLocation L =
     (if m_currentEventActionId L = -1 then Inr (False, L)
      else bindR (willLogCommand command L) (\<lambda>will.
        if \<not> will then Inr (True, L)
        else (let c = Command command memoryLocation in
          if command = READ_MEMORY \<or> command = WRITE_MEMORY then
            (if c \<in> set (m_cmdsInCurrentEvent L) then Inr (True, L)
             else push_command c (L\<lparr>m_cmdsInCurrentEvent := sset_insert c (m_cmdsInCurrentEvent L)\<rparr>))
          else push_command c L)))"

definition enterScope :: "int \<Rightarrow> ActionLog \<Rightarrow> (bool \<times> ActionLog) result" where
  "enterScope scopeId L = logCommand ENTER_SCOPE scopeId L"

definition exitScope :: "ActionLog \<Rightarrow> (bool \<times> ActionLog) result" where
  "exitScope L = logCommand EXIT_SCOPE (-1) L"

definition triggerEvent :: "int \<Rightarrow> ActionLog \<Rightarrow> ActionLog result" where
  "triggerEvent eventId L =
     (if m_currentEventActionId L = -1 then Inr L
      else bindR (action_at (m_currentEventActionId L) L) (\<lambda>a.
        let arc = \<lparr>m_operationId = m_currentEventActionId L, m_commandId = length (m_commands a)\<rparr>
        in Inr (store_action (m_currentEventActionId L)
                  (a\<lparr>m_commands := m_commands a @ [Command TRIGGER_ARC (-1)]\<rparr>)
                  (L\<lparr>m_pendingTriggerArcs := smap_store eventId arc (m_pendingTriggerArcs L)\<rparr>))))"

definition eventTriggered :: "int \<Rightarrow> ActionLog \<Rightarrow> ActionLog result" where
  "eventTriggered eventId L =
     (if m_currentEventActionId L = -1 then Inr L
      else (case smap_lookup (m_pendingTriggerArcs L) eventId of
          None \<Rightarrow> Inr L
        | Some arc \<Rightarrow>
            bindR (action_at (m_operationId arc) L) (\<lambda>a.
              if length (m_commands a) \<le> m_commandId arc then Inl UNDEFINED
              else (let c = m_commands a ! m_commandId arc;
                        cmds = (m_commands a)[m_commandId arc := Command (m_cmdType c) (m_currentEventActionId L)]
                    in Inr (store_action (m_operationId arc) (a\<lparr>m_commands := cmds\<rparr>)
                              (L\<lparr>m_pendingTriggerArcs := smap_erase eventId (m_pendingTriggerArcs L)\<rparr>))))))"

definition event_action :: "int \<Rightarrow> ActionLog \<Rightarrow> EventAction" where
  "event_action i L = (case smap_lookup (m_eventActions L) i of None \<Rightarrow> new_EventAction | Some a \<Rightarrow> a)"

section \<open>The file format\<close>

definition arc_bytes :: "Arc \<Rightarrow> bytes" where
  "arc_bytes a = int32_bytes (m_tail a) @ int32_bytes (m_head a) @ int32_bytes (m_duration a)"

definition command_bytes :: "Command \<Rightarrow> bytes" where
  "command_bytes c = int32_bytes (int_of_command (m_cmdType c)) @ int32_bytes (m_location c)"

definition operation_bytes :: "int \<times> EventAction \<Rightarrow> bytes" where
  "operation_bytes e =
     int32_bytes (fst e) @ int32_bytes (int_of_action_type (m_actionType (snd e)))
       @ int32_bytes (int (length (m_commands (snd e))))
       @ concat (map command_bytes (m_commands (snd e)))"

definition saveToFile :: "ActionLog \<Rightarrow> bytes" where
  "saveToFile L =
     int32_bytes (int (length (m_eventActions L))) @ int32_bytes (int (length (m_arcs L)))
       @ concat (map arc_bytes (m_arcs L))
       @ concat (map operation_bytes (m_eventActions L))"

text \<open>
  Loading: \<open>Inr None\<close> is the result \<open>false\<close> (the file ended early; the contents of the log are
  then partial and not modelled). A negative count makes \<open>resize\<close> throw.
\<close>

definition read_arc :: "bytes \<Rightarrow> (Arc \<times> bytes) option" where
  "read_arc f =
     (case fread_int f of None \<Rightarrow> None | Some (t, f1) \<Rightarrow>
     (case fread_int f1 of None \<Rightarrow> None | Some (h, f2) \<Rightarrow>
     (case fread_int f2 of None \<Rightarrow> None | Some (d, f3) \<Rightarrow>
        Some (\<lparr>m_tail = t, m_head = h, m_duration = d\<rparr>, f3))))"

fun read_arcs :: "nat \<Rightarrow> bytes \<Rightarrow> (Arc list \<times> bytes) option" where
  "read_arcs 0 f = Some ([], f)"
| "read_arcs (Suc n) f =
     (case read_arc f of None \<Rightarrow> None | Some (a, f') \<Rightarrow>
       map_option (\<lambda>(as, f''). (a # as, f'')) (read_arcs n f'))"

fun read_commands :: "nat \<Rightarrow> bytes \<Rightarrow> (Command list \<times> bytes) option result" where
  "read_commands 0 f = Inr (Some ([], f))"
| "read_commands (Suc n) f =
     (case fread_int f of None \<Rightarrow> Inr None | Some (ty, f1) \<Rightarrow>
     (case fread_int f1 of None \<Rightarrow> Inr None | Some (loc, f2) \<Rightarrow>
        bindR (command_of_int ty) (\<lambda>c.
        bindR (read_commands n f2) (\<lambda>r.
          Inr (map_option (\<lambda>(cs, f3). (Command c loc # cs, f3)) r)))))"

fun read_operations :: "nat \<Rightarrow> bytes \<Rightarrow> ActionLog \<Rightarrow> ActionLog option result" where
  "read_operations 0 f L = Inr (Some L)"
| "read_operations (Suc n) f L =
     (case fread_int f of None \<Rightarrow> Inr None | Some (i, f1) \<Rightarrow>
     (case fread_int f1 of None \<Rightarrow> Inr None | Some (ty, f2) \<Rightarrow>
     (case fread_int f2 of None \<Rightarrow> Inr None | Some (num, f3) \<Rightarrow>
        if num < 0 then Inl OUT_OF_RANGE
        else bindR (action_type_of_int ty) (\<lambda>t.
             bindR (read_commands (nat num) f3) (\<lambda>r.
               case r of None \<Rightarrow> Inr None | Some (cs, f4) \<Rightarrow>
                 read_operations n f4
                   (L\<lparr>m_eventActions := smap_store i \<lparr>m_actionType = t, m_commands = cs\<rparr> (m_eventActions L),
                      m_maxEventActionId := (if i > m_maxEventActionId L then i else m_maxEventActionId L)\<rparr>))))))"

definition loadFromFile :: "bytes \<Rightarrow> ActionLog \<Rightarrow> ActionLog option result" where
  "loadFromFile f L =
     (case fread_int f of None \<Rightarrow> Inr None | Some (num_ops, f1) \<Rightarrow>
     (case fread_int f1 of None \<Rightarrow> Inr None | Some (num_arcs, f2) \<Rightarrow>
        if num_arcs < 0 then Inl OUT_OF_RANGE
        else (case read_arcs (nat num_arcs) f2 of None \<Rightarrow> Inr None | Some (as, f3) \<Rightarrow>
          read_operations (nat num_ops) f3 (L\<lparr>m_arcs := as\<rparr>))))"

section \<open>Well-formed logs\<close>

text \<open>
  What may follow what in a command list: a memory value comes right after a memory access, and
  no scope is entered and left with nothing in between.
\<close>

definition follows_ok :: "Command \<Rightarrow> Command \<Rightarrow> bool" where
  "follows_ok p c =
     ((m_cmdType c = MEMORY_VALUE \<longrightarrow> m_cmdType p = READ_MEMORY \<or> m_cmdType p = WRITE_MEMORY)
      \<and> \<not> (m_cmdType p = ENTER_SCOPE \<and> m_cmdType c = EXIT_SCOPE))"

definition cmds_wf :: "Command list \<Rightarrow> bool" where
  "cmds_wf cs = ((cs \<noteq> [] \<longrightarrow> m_cmdType (hd cs) \<noteq> MEMORY_VALUE) \<and> successively follows_ok cs)"

lemma cmds_wf_Nil [simp]: "cmds_wf []"
  by (simp add: cmds_wf_def)

lemma cmds_wf_snoc:
  "cmds_wf cs \<Longrightarrow> (if cs = [] then m_cmdType c \<noteq> MEMORY_VALUE else follows_ok (last cs) c) \<Longrightarrow>
     cmds_wf (cs @ [c])"
  by (auto simp: cmds_wf_def successively_append_iff hd_append split: if_splits)

lemma cmds_wf_butlast: "cmds_wf cs \<Longrightarrow> cmds_wf (butlast cs)"
  by (induction cs rule: rev_induct) (auto simp: cmds_wf_def successively_append_iff)

lemma successively_update_map:
  "map f xs = map f ys \<Longrightarrow> successively (\<lambda>a b. P (f a) (f b)) xs = successively (\<lambda>a b. P (f a) (f b)) ys"
proof (induction xs arbitrary: ys)
  case (Cons x xs)
  then obtain y ys' where "ys = y # ys'" "f x = f y" "map f xs = map f ys'" by auto
  with Cons show ?case by (auto simp: successively_Cons dest: map_eq_imp_length_eq) (metis hd_map map_is_Nil_conv)+
qed simp

lemma cmds_wf_types:
  assumes "map m_cmdType xs = map m_cmdType ys"
  shows "cmds_wf xs = cmds_wf ys"
proof -
  have "successively follows_ok xs = successively follows_ok ys"
    unfolding follows_ok_def [abs_def]
    using successively_update_map [OF assms, of "\<lambda>p c. (c = MEMORY_VALUE \<longrightarrow> p = READ_MEMORY \<or> p = WRITE_MEMORY)
        \<and> \<not> (p = ENTER_SCOPE \<and> c = EXIT_SCOPE)"] by simp
  moreover have "xs = [] \<longleftrightarrow> ys = []" using assms by (metis map_is_Nil_conv)
  moreover have "xs \<noteq> [] \<Longrightarrow> m_cmdType (hd xs) = m_cmdType (hd ys)"
    using assms by (metis hd_map map_is_Nil_conv)
  ultimately show ?thesis by (auto simp: cmds_wf_def)
qed

definition pending_ok :: "ActionLog \<Rightarrow> PendingTriggerArc \<Rightarrow> bool" where
  "pending_ok L arc =
     (case smap_lookup (m_eventActions L) (m_operationId arc) of
        None \<Rightarrow> False
      | Some a \<Rightarrow> m_commandId arc < length (m_commands a)
          \<and> m_cmdType (m_commands a ! m_commandId arc) = TRIGGER_ARC)"

definition log_inv :: "ActionLog \<Rightarrow> bool" where
  "log_inv L =
     (smap_inv (m_eventActions L) \<and> smap_inv (m_pendingTriggerArcs L) \<and> sset_inv (m_cmdsInCurrentEvent L)
      \<and> (m_currentEventActionId L \<noteq> -1 \<longrightarrow> smap_lookup (m_eventActions L) (m_currentEventActionId L) \<noteq> None)
      \<and> (\<forall>i a. smap_lookup (m_eventActions L) i = Some a \<longrightarrow> cmds_wf (m_commands a))
      \<and> m_maxEventActionId L = Max (insert (-1) (fst ` set (m_eventActions L)))
      \<and> (\<forall>e arc. smap_lookup (m_pendingTriggerArcs L) e = Some arc \<longrightarrow> pending_ok L arc))"

text \<open>The facts about one action that every operation that rewrites its commands has to give.\<close>

lemma log_inv_store:
  assumes inv: "log_inv L"
    and old: "smap_lookup (m_eventActions L) i = Some a"
    and wf: "cmds_wf (m_commands b)"
    and keep: "\<And>k. k < length (m_commands a) \<Longrightarrow> m_cmdType (m_commands a ! k) = TRIGGER_ARC \<Longrightarrow>
                k < length (m_commands b) \<and> m_cmdType (m_commands b ! k) = TRIGGER_ARC"
  shows "log_inv (store_action i b L)"
proof -
  have "fst ` set (smap_store i b (m_eventActions L)) = fst ` set (m_eventActions L)"
    using old by (auto simp: set_fst_smap_store dest: map_of_SomeD intro: rev_image_eqI)
  then show ?thesis
    using assms unfolding log_inv_def store_action_def
    by (auto simp: pending_ok_def split: option.splits)
qed

lemma log_inv_frame [simp]:
  "log_inv (L\<lparr>m_scopeDepth := d\<rparr>) = log_inv L"
  "log_inv (L\<lparr>m_arcs := as\<rparr>) = log_inv L"
  "sset_inv cs \<Longrightarrow> log_inv L \<Longrightarrow> log_inv (L\<lparr>m_cmdsInCurrentEvent := cs\<rparr>)"
  by (simp_all add: log_inv_def pending_ok_def)

lemma log_inv_action:
  assumes "log_inv L" "m_currentEventActionId L \<noteq> -1"
  obtains a where "smap_lookup (m_eventActions L) (m_currentEventActionId L) = Some a"
    "action_at (m_currentEventActionId L) L = Inr a" "cmds_wf (m_commands a)"
  using assms unfolding log_inv_def action_at_def by auto

lemma log_inv_new [r4_inv]: "log_inv new_ActionLog"
  by (simp add: log_inv_def new_ActionLog_def)

lemma log_inv_addArc [r4_inv]: "log_inv L \<Longrightarrow> log_inv (addArc t h d L)"
  by (simp add: addArc_def)

lemma start_max:
  assumes "log_inv L"
  shows "(if i > m_maxEventActionId L then i else m_maxEventActionId L) =
    Max (insert (-1) (insert i (fst ` set (m_eventActions L))))"
proof -
  have "Max (insert (-1) (insert i (fst ` set (m_eventActions L)))) = max i (m_maxEventActionId L)"
    using assms by (simp add: log_inv_def insert_commute [of "-1" i])
  then show ?thesis by (simp add: max_def)
qed

lemma log_inv_start [r4_inv]:
  assumes "log_inv L"
  shows "log_inv (startEventAction i L)"
proof -
  define es where "es = m_eventActions (startEventAction i L)"
  have es: "smap_inv es" "fst ` set es = insert i (fst ` set (m_eventActions L))"
    "smap_lookup es = (smap_lookup (m_eventActions L))
       (i \<mapsto> case smap_lookup (m_eventActions L) i of None \<Rightarrow> new_EventAction | Some a \<Rightarrow> a)"
    using assms by (auto simp: es_def startEventAction_def log_inv_def set_fst_smap_store fun_eq_iff
        split: option.splits dest: map_of_SomeD intro: rev_image_eqI)
  have "pending_ok (startEventAction i L) arc" if "pending_ok L arc" for arc
    using that es(3) by (auto simp: pending_ok_def es_def split: option.splits)
  then show ?thesis
    using assms es start_max [OF assms, of i]
    unfolding log_inv_def es_def [symmetric]
    by (auto simp: startEventAction_def new_EventAction_def split: option.splits if_splits)
qed

lemma log_inv_end [r4_inv]: "log_inv L \<Longrightarrow> log_inv (snd (endEventAction L))"
  by (simp add: log_inv_def endEventAction_def pending_ok_def)

lemma log_inv_setType [r4_inv]:
  assumes "log_inv L"
  shows "ok (setEventActionType t L) (\<lambda>(_, L'). log_inv L')"
proof (cases "m_currentEventActionId L = -1")
  case True
  with assms show ?thesis by (simp add: setEventActionType_def)
next
  case False
  from log_inv_action [OF assms this] obtain a where
    "smap_lookup (m_eventActions L) (m_currentEventActionId L) = Some a"
    "action_at (m_currentEventActionId L) L = Inr a" "cmds_wf (m_commands a)" .
  with assms False show ?thesis
    by (auto simp: setEventActionType_def intro: log_inv_store)
qed

lemma willLogCommand_eq:
  assumes "action_at (m_currentEventActionId L) L = Inr a" "m_currentEventActionId L \<noteq> -1"
  shows "willLogCommand c L = Inr (c = MEMORY_VALUE \<longrightarrow> m_commands a \<noteq> []
     \<and> (m_cmdType (last (m_commands a)) = READ_MEMORY \<or> m_cmdType (last (m_commands a)) = WRITE_MEMORY))"
  using assms by (auto simp: willLogCommand_def Let_def)

lemma push_command_inv:
  assumes inv: "log_inv L" and cur: "m_currentEventActionId L \<noteq> -1"
    and will: "willLogCommand (m_cmdType c) L = Inr True"
  shows "ok (push_command c L) (\<lambda>(b, L'). b \<and> log_inv L')"
proof -
  from log_inv_action [OF inv cur] obtain a where
    look: "smap_lookup (m_eventActions L) (m_currentEventActionId L) = Some a"
    and at: "action_at (m_currentEventActionId L) L = Inr a" and wf: "cmds_wf (m_commands a)" .
  define drop_scope where "drop_scope \<longleftrightarrow> m_cmdType c = EXIT_SCOPE \<and> m_commands a \<noteq> []
      \<and> m_cmdType (last (m_commands a)) = ENTER_SCOPE"
  define cmds where "cmds = (if drop_scope then butlast (m_commands a) else m_commands a @ [c])"
  have "cmds_wf cmds"
  proof (cases drop_scope)
    case False
    then have "if m_commands a = [] then m_cmdType c \<noteq> MEMORY_VALUE else follows_ok (last (m_commands a)) c"
      using will willLogCommand_eq [OF at cur, of "m_cmdType c"]
      by (auto simp: drop_scope_def follows_ok_def)
    with wf False show ?thesis by (simp add: cmds_def cmds_wf_snoc)
  qed (simp add: cmds_def cmds_wf_butlast wf)
  moreover have "k < length cmds \<and> m_cmdType (cmds ! k) = TRIGGER_ARC"
    if "k < length (m_commands a)" "m_cmdType (m_commands a ! k) = TRIGGER_ARC" for k
  proof (cases drop_scope)
    case True
    then have "k \<noteq> length (m_commands a) - 1"
      using that by (auto simp: drop_scope_def last_conv_nth)
    with that True show ?thesis by (simp add: cmds_def nth_butlast)
  qed (use that in \<open>simp add: cmds_def nth_append\<close>)
  ultimately have "log_inv (store_action (m_currentEventActionId L) (a\<lparr>m_commands := cmds\<rparr>)
      (L\<lparr>m_scopeDepth := m_scopeDepth L + scope_delta (m_cmdType c)\<rparr>))"
    using inv look by (intro log_inv_store [where a = a]) simp_all
  then show ?thesis
    using at by (simp add: push_command_def Let_def cmds_def drop_scope_def)
qed

lemma willLogCommand_cmds [simp]:
  "willLogCommand c (L\<lparr>m_cmdsInCurrentEvent := cs\<rparr>) = willLogCommand c L"
  by (simp add: willLogCommand_def action_at_def)

lemma log_inv_logCommand [r4_inv]:
  assumes "log_inv L"
  shows "ok (logCommand c l L) (\<lambda>(_, L'). log_inv L')"
proof (cases "m_currentEventActionId L = -1")
  case True
  with assms show ?thesis by (simp add: logCommand_def)
next
  case False
  from log_inv_action [OF assms False] obtain a where
    at: "action_at (m_currentEventActionId L) L = Inr a" .
  obtain will where will: "willLogCommand c L = Inr will"
    using willLogCommand_eq [OF at False] by blast
  have "sset_inv (m_cmdsInCurrentEvent L)" using assms by (simp add: log_inv_def)
  then show ?thesis
    using assms False will push_command_inv [of L "Command c l"]
      push_command_inv [of "L\<lparr>m_cmdsInCurrentEvent := sset_insert (Command c l) (m_cmdsInCurrentEvent L)\<rparr>" "Command c l"]
    by (auto simp: logCommand_def Let_def ok_iff)
qed

lemma log_inv_trigger [r4_inv]:
  assumes "log_inv L"
  shows "ok (triggerEvent e L) log_inv"
proof (cases "m_currentEventActionId L = -1")
  case True
  with assms show ?thesis by (simp add: triggerEvent_def)
next
  case False
  from log_inv_action [OF assms this] obtain a where
    look: "smap_lookup (m_eventActions L) (m_currentEventActionId L) = Some a"
    and at: "action_at (m_currentEventActionId L) L = Inr a" and wf: "cmds_wf (m_commands a)" .
  let ?b = "a\<lparr>m_commands := m_commands a @ [Command TRIGGER_ARC (-1)]\<rparr>"
  have "cmds_wf (m_commands ?b)"
    using wf by (auto intro!: cmds_wf_snoc simp: follows_ok_def)
  then have "log_inv (store_action (m_currentEventActionId L) ?b L)"
    using assms look by (intro log_inv_store [where a = a]) (simp_all add: nth_append)
  then show ?thesis
    using assms look at False unfolding log_inv_def triggerEvent_def store_action_def
    by (auto simp: Let_def pending_ok_def split: option.splits if_splits)
qed

lemma log_inv_triggered [r4_inv]:
  assumes "log_inv L"
  shows "ok (eventTriggered e L) log_inv"
proof (cases "m_currentEventActionId L = -1 \<or> smap_lookup (m_pendingTriggerArcs L) e = None")
  case True
  with assms show ?thesis by (auto simp: eventTriggered_def)
next
  case False
  then obtain arc where arc: "smap_lookup (m_pendingTriggerArcs L) e = Some arc" by auto
  with assms obtain a where
    look: "smap_lookup (m_eventActions L) (m_operationId arc) = Some a"
    and k: "m_commandId arc < length (m_commands a)" "m_cmdType (m_commands a ! m_commandId arc) = TRIGGER_ARC"
    and wf: "cmds_wf (m_commands a)"
    unfolding log_inv_def pending_ok_def by (fastforce split: option.splits)
  let ?cs = "(m_commands a)[m_commandId arc := Command TRIGGER_ARC (m_currentEventActionId L)]"
  have types: "map m_cmdType ?cs = map m_cmdType (m_commands a)"
    using k by (simp add: map_update list_update_same_conv)
  have "log_inv (store_action (m_operationId arc) (a\<lparr>m_commands := ?cs\<rparr>) L)"
    using assms look wf cmds_wf_types [OF types] k
    by (intro log_inv_store [where a = a]) (auto simp: nth_list_update)
  then have "log_inv (store_action (m_operationId arc) (a\<lparr>m_commands := ?cs\<rparr>)
      (L\<lparr>m_pendingTriggerArcs := smap_erase e (m_pendingTriggerArcs L)\<rparr>))"
    unfolding log_inv_def store_action_def by (auto simp: pending_ok_def split: option.splits if_splits)
  then show ?thesis
    using False arc look k by (simp add: eventTriggered_def action_at_def Let_def)
qed

section \<open>Any sequence of calls\<close>

datatype log_call =
  Call_addArc int int int | Call_start int | Call_end | Call_setType EventActionType
  | Call_log CommandType int | Call_trigger int | Call_triggered int

fun log_call_step :: "log_call \<Rightarrow> ActionLog \<Rightarrow> ActionLog result" where
  "log_call_step (Call_addArc t h d) L = Inr (addArc t h d L)"
| "log_call_step (Call_start i) L = Inr (startEventAction i L)"
| "log_call_step Call_end L = Inr (snd (endEventAction L))"
| "log_call_step (Call_setType t) L = bindR (setEventActionType t L) (\<lambda>r. Inr (snd r))"
| "log_call_step (Call_log c l) L = bindR (logCommand c l L) (\<lambda>r. Inr (snd r))"
| "log_call_step (Call_trigger e) L = triggerEvent e L"
| "log_call_step (Call_triggered e) L = eventTriggered e L"

fun log_calls :: "log_call list \<Rightarrow> ActionLog \<Rightarrow> ActionLog result" where
  "log_calls [] L = Inr L"
| "log_calls (c # cs) L = bindR (log_call_step c L) (log_calls cs)"

lemma log_call_step_inv: "log_inv L \<Longrightarrow> ok (log_call_step c L) log_inv"
proof (cases c)
  case (Call_setType t)
  then show "log_inv L \<Longrightarrow> ?thesis" using log_inv_setType [of L t] by (auto simp: ok_iff)
next
  case (Call_log ct l)
  then show "log_inv L \<Longrightarrow> ?thesis" using log_inv_logCommand [of L ct l] by (auto simp: ok_iff)
qed (simp_all add: r4_inv)

lemma log_calls_inv: "log_inv L \<Longrightarrow> ok (log_calls cs L) log_inv"
proof (induction cs arbitrary: L)
  case (Cons c cs)
  then show ?case using log_call_step_inv [of L c] by (auto simp: ok_iff)
qed simp

section \<open>Saving and loading\<close>

text \<open>Every number in the log fits into the file's 32-bit fields.\<close>

definition operation_fits :: "int \<times> EventAction \<Rightarrow> bool" where
  "operation_fits e = (int32 (fst e) \<and> int32 (int (length (m_commands (snd e))))
     \<and> (\<forall>c \<in> set (m_commands (snd e)). int32 (m_location c)))"

definition log_fits :: "ActionLog \<Rightarrow> bool" where
  "log_fits L =
     (int32 (int (length (m_eventActions L))) \<and> int32 (int (length (m_arcs L)))
      \<and> (\<forall>a \<in> set (m_arcs L). int32 (m_tail a) \<and> int32 (m_head a) \<and> int32 (m_duration a))
      \<and> (\<forall>e \<in> set (m_eventActions L). operation_fits e))"

lemma read_arcs_bytes:
  "(\<And>a. a \<in> set as \<Longrightarrow> int32 (m_tail a) \<and> int32 (m_head a) \<and> int32 (m_duration a)) \<Longrightarrow>
     read_arcs (length as) (concat (map arc_bytes as) @ f) = Some (as, f)"
  by (induction as) (simp_all add: read_arc_def arc_bytes_def)

lemma read_commands_bytes:
  "(\<And>c. c \<in> set cs \<Longrightarrow> int32 (m_location c)) \<Longrightarrow>
     read_commands (length cs) (concat (map command_bytes cs) @ f) = Inr (Some (cs, f))"
  by (induction cs) (simp_all add: command_bytes_def)

definition load_action :: "int \<times> EventAction \<Rightarrow> ActionLog \<Rightarrow> ActionLog" where
  "load_action e L =
     L\<lparr>m_eventActions := smap_store (fst e) (snd e) (m_eventActions L),
       m_maxEventActionId := (if fst e > m_maxEventActionId L then fst e else m_maxEventActionId L)\<rparr>"

lemma read_operations_step:
  assumes "operation_fits e"
  shows "read_operations (Suc n) (operation_bytes e @ f) L = read_operations n f (load_action e L)"
proof -
  obtain i t cs where e: "e = (i, \<lparr>m_actionType = t, m_commands = cs\<rparr>)"
    by (cases e; cases "snd e") auto
  have "read_commands (length cs) (concat (map command_bytes cs) @ f) = Inr (Some (cs, f))"
    using assms by (intro read_commands_bytes) (simp add: operation_fits_def e)
  then show ?thesis
    using assms by (simp add: operation_fits_def operation_bytes_def load_action_def e)
qed

lemma read_operations_bytes:
  "(\<And>e. e \<in> set es \<Longrightarrow> operation_fits e) \<Longrightarrow>
     read_operations (length es) (concat (map operation_bytes es)) L = Inr (Some (fold load_action es L))"
  by (induction es arbitrary: L) (simp_all add: read_operations_step del: read_operations.simps(2))

lemma smap_store_last: "(\<And>e. e \<in> set m \<Longrightarrow> fst e < k) \<Longrightarrow> smap_store k v m = m @ [(k, v)]"
  by (induction k v m rule: smap_store.induct) force+

lemma fold_load_action:
  assumes "smap_inv (m_eventActions L @ es)"
  shows "fold load_action es L =
     L\<lparr>m_eventActions := m_eventActions L @ es, m_maxEventActionId := fold (\<lambda>e m. max m (fst e)) es (m_maxEventActionId L)\<rparr>"
  using assms
proof (induction es arbitrary: L)
  case (Cons e es)
  have "\<And>x. x \<in> set (m_eventActions L) \<Longrightarrow> fst x < fst e"
    using Cons.prems by (auto simp: smap_inv_def sorted_wrt_append)
  then have "load_action e L =
      L\<lparr>m_eventActions := m_eventActions L @ [e], m_maxEventActionId := max (m_maxEventActionId L) (fst e)\<rparr>"
    by (simp add: load_action_def smap_store_last max_def)
  with Cons show ?case by simp
qed simp

lemma fold_max_Max: "fold (\<lambda>e m. max m (fst e)) es (z::int) = Max (insert z (fst ` set es))"
proof (induction es arbitrary: z)
  case (Cons e es)
  have "Max (insert (max z (fst e)) (fst ` set es)) = Max (insert z (insert (fst e) (fst ` set es)))"
    by (cases "es = []") (auto simp: max.assoc)
  with Cons show ?case by simp
qed simp

lemma loadFromFile_saveToFile:
  assumes "log_inv L" "log_fits L"
  shows "loadFromFile (saveToFile L) new_ActionLog =
     Inr (Some (new_ActionLog\<lparr>m_arcs := m_arcs L, m_eventActions := m_eventActions L,
                               m_maxEventActionId := m_maxEventActionId L\<rparr>))"
proof -
  have inv: "smap_inv (m_eventActions L)"
    and max: "m_maxEventActionId L = Max (insert (-1) (fst ` set (m_eventActions L)))"
    using assms(1) by (simp_all add: log_inv_def)
  show ?thesis
    using assms(2) inv read_arcs_bytes [of "m_arcs L" "concat (map operation_bytes (m_eventActions L))"]
      read_operations_bytes [of "m_eventActions L" "new_ActionLog\<lparr>m_arcs := m_arcs L\<rparr>"]
      fold_load_action [of "new_ActionLog\<lparr>m_arcs := m_arcs L\<rparr>" "m_eventActions L"]
    by (simp add: loadFromFile_def saveToFile_def log_fits_def max fold_max_Max new_ActionLog_def)
qed

section \<open>What one event action logs\<close>

text \<open>A list of \<open>logCommand\<close> calls made inside one event action.\<close>

fun log_list :: "(CommandType \<times> int) list \<Rightarrow> ActionLog \<Rightarrow> ActionLog result" where
  "log_list [] L = Inr L"
| "log_list (x # xs) L = bindR (logCommand (fst x) (snd x) L) (\<lambda>r. log_list xs (snd r))"

definition is_access :: "Command \<Rightarrow> bool" where
  "is_access c = (m_cmdType c = READ_MEMORY \<or> m_cmdType c = WRITE_MEMORY)"

definition cmd_depth :: "Command list \<Rightarrow> int" where
  "cmd_depth cs = (\<Sum>c \<leftarrow> cs. scope_delta (m_cmdType c))"

text \<open>
  The commands of the current action, as long as it is entered for the first time: its memory
  accesses are distinct and are exactly the remembered ones, and the scope counter is the
  number of scopes that are open.
\<close>

definition session_inv :: "ActionLog \<Rightarrow> bool" where
  "session_inv L =
     (case smap_lookup (m_eventActions L) (m_currentEventActionId L) of
        None \<Rightarrow> False
      | Some a \<Rightarrow> distinct (filter is_access (m_commands a))
          \<and> set (filter is_access (m_commands a)) = set (m_cmdsInCurrentEvent L)
          \<and> m_scopeDepth L = cmd_depth (m_commands a))"

lemma cmd_depth_snoc [simp]: "cmd_depth (cs @ [c]) = cmd_depth cs + scope_delta (m_cmdType c)"
  by (simp add: cmd_depth_def)

lemma butlast_enter:
  assumes "cs \<noteq> []" "m_cmdType (last cs) = ENTER_SCOPE"
  shows "filter is_access (butlast cs) = filter is_access cs" "cmd_depth (butlast cs) = cmd_depth cs - 1"
  using assms by (induction cs rule: rev_induct) (simp_all add: is_access_def scope_delta_def)

lemma push_command_session:
  assumes "smap_inv (m_eventActions L)"
    and "smap_lookup (m_eventActions L) (m_currentEventActionId L) = Some a"
    and "distinct (filter is_access (m_commands a @ [c]))"
    and "set (filter is_access (m_commands a @ [c])) = set (m_cmdsInCurrentEvent L)"
    and "m_scopeDepth L = cmd_depth (m_commands a)"
    and "push_command c L = Inr (b, L')"
  shows "session_inv L' \<and> m_currentEventActionId L' = m_currentEventActionId L
     \<and> m_cmdsInCurrentEvent L' = m_cmdsInCurrentEvent L"
proof -
  define cmds where "cmds = (if m_cmdType c = EXIT_SCOPE \<and> m_commands a \<noteq> []
      \<and> m_cmdType (last (m_commands a)) = ENTER_SCOPE then butlast (m_commands a) else m_commands a @ [c])"
  have "L' = store_action (m_currentEventActionId L) (a\<lparr>m_commands := cmds\<rparr>)
      (L\<lparr>m_scopeDepth := m_scopeDepth L + scope_delta (m_cmdType c)\<rparr>)"
    using assms(2,6) by (simp add: push_command_def action_at_def Let_def cmds_def)
  moreover have "filter is_access cmds = filter is_access (m_commands a @ [c])"
    using butlast_enter(1) [of "m_commands a"] by (auto simp: cmds_def is_access_def)
  moreover have "cmd_depth cmds = cmd_depth (m_commands a) + scope_delta (m_cmdType c)"
    using butlast_enter(2) [of "m_commands a"] by (auto simp: cmds_def scope_delta_def)
  ultimately show ?thesis
    using assms(1,3-5) by (simp add: session_inv_def store_action_def)
qed

lemma logCommand_session:
  assumes "log_inv L" "session_inv L" "m_currentEventActionId L \<noteq> -1" "logCommand ct l L = Inr (b, L')"
  shows "session_inv L' \<and> m_currentEventActionId L' = m_currentEventActionId L
     \<and> set (m_cmdsInCurrentEvent L') =
         set (m_cmdsInCurrentEvent L) \<union> (if is_access (Command ct l) then {Command ct l} else {})"
proof -
  from assms(2) obtain a where
    look: "smap_lookup (m_eventActions L) (m_currentEventActionId L) = Some a"
    and acc: "distinct (filter is_access (m_commands a))"
      "set (filter is_access (m_commands a)) = set (m_cmdsInCurrentEvent L)"
      "m_scopeDepth L = cmd_depth (m_commands a)"
    by (auto simp: session_inv_def split: option.splits)
  have inv: "smap_inv (m_eventActions L)" using assms(1) by (simp add: log_inv_def)
  show ?thesis
  proof (cases "is_access (Command ct l)")
    case True
    then have ct: "ct = READ_MEMORY \<or> ct = WRITE_MEMORY" "ct \<noteq> MEMORY_VALUE" by (auto simp: is_access_def)
    have will: "willLogCommand ct L = Inr True"
      using ct look assms(3) by (auto simp: willLogCommand_def action_at_def Let_def)
    show ?thesis
    proof (cases "Command ct l \<in> set (m_cmdsInCurrentEvent L)")
      case True
      with ct will assms show ?thesis by (auto simp: logCommand_def Let_def)
    next
      case False
      let ?L = "L\<lparr>m_cmdsInCurrentEvent := sset_insert (Command ct l) (m_cmdsInCurrentEvent L)\<rparr>"
      have "push_command (Command ct l) ?L = Inr (b, L')"
        using False ct will assms by (auto simp: logCommand_def Let_def split: if_splits)
      moreover have "Command ct l \<notin> set (filter is_access (m_commands a))" using False acc(2) by simp
      ultimately show ?thesis
        using push_command_session [of ?L a "Command ct l" b L'] inv look acc True by simp
    qed
  next
    case False
    then have "L' = L \<or> push_command (Command ct l) L = Inr (b, L')"
      using assms by (auto simp: logCommand_def Let_def is_access_def split: if_splits)
    then show ?thesis
    proof
      assume "push_command (Command ct l) L = Inr (b, L')"
      from push_command_session [OF inv look _ _ acc(3) this] acc False show ?thesis by simp
    qed (simp add: assms(2) False)
  qed
qed

lemma log_list_session:
  assumes "log_inv L" "session_inv L" "m_currentEventActionId L \<noteq> -1"
  shows "ok (log_list xs L) (\<lambda>L'. log_inv L' \<and> session_inv L'
     \<and> m_currentEventActionId L' = m_currentEventActionId L
     \<and> set (m_cmdsInCurrentEvent L') = set (m_cmdsInCurrentEvent L)
          \<union> {c \<in> (\<lambda>x. Command (fst x) (snd x)) ` set xs. is_access c})"
  using assms
proof (induction xs arbitrary: L)
  case (Cons x xs)
  obtain b L1 where step: "logCommand (fst x) (snd x) L = Inr (b, L1)" and inv: "log_inv L1"
    using log_inv_logCommand [OF Cons.prems(1), of "fst x" "snd x"] by (auto simp: ok_iff)
  note s = logCommand_session [OF Cons.prems step]
  have "ok (log_list xs L1) (\<lambda>L'. log_inv L' \<and> session_inv L'
     \<and> m_currentEventActionId L' = m_currentEventActionId L1
     \<and> set (m_cmdsInCurrentEvent L') = set (m_cmdsInCurrentEvent L1)
          \<union> {c \<in> (\<lambda>x. Command (fst x) (snd x)) ` set xs. is_access c})"
    using s Cons.prems(3) inv by (intro Cons.IH) auto
  with s step show ?case by (auto simp: ok_iff split: if_splits)
qed simp

lemma session_inv_start:
  assumes "log_inv L" "smap_lookup (m_eventActions L) i = None"
  shows "session_inv (startEventAction i L)"
  using assms by (simp add: session_inv_def startEventAction_def log_inv_def new_EventAction_def cmd_depth_def)

section \<open>The contract of the component\<close>

text \<open>
  C16: no sequence of calls of the logging interface, on a new log, dereferences a missing event
  action or writes outside a command list: every sequence returns, and it leaves every event action
  with well-formed commands (a memory value only directly after a memory access, no scope that is
  entered and left at once) and every pending trigger pointing to a trigger command.
\<close>

theorem log_calls_safe:
  "\<exists>L. log_calls cs new_ActionLog = Inr L
     \<and> (\<forall>i a. smap_lookup (m_eventActions L) i = Some a \<longrightarrow> cmds_wf (m_commands a))
     \<and> (\<forall>e arc. smap_lookup (m_pendingTriggerArcs L) e = Some arc \<longrightarrow> pending_ok L arc)
     \<and> m_maxEventActionId L = Max (insert (-1) (fst ` set (m_eventActions L)))"
  using log_calls_inv [OF log_inv_new, of cs] by (auto simp: ok_iff log_inv_def)

theorem log_calls_safe_witness:
  "\<exists>L. log_calls [Call_start 3, Call_log READ_MEMORY 5, Call_trigger 9, Call_start 4, Call_triggered 9] new_ActionLog = Inr L
     \<and> m_maxEventActionId L = 4 \<and> smap_lookup (m_pendingTriggerArcs L) 9 = None"
  using log_calls_safe [of "[Call_start 3, Call_log READ_MEMORY 5, Call_trigger 9, Call_start 4, Call_triggered 9]"]
  by (simp add: new_ActionLog_def startEventAction_def logCommand_def willLogCommand_def action_at_def
      push_command_def triggerEvent_def eventTriggered_def store_action_def new_EventAction_def Let_def scope_delta_def)

text \<open>
  C18: an action log that any sequence of calls has built, written to a file and read into a new
  log, comes back with the same event actions, commands, arcs and largest id (the numbers are
  assumed to fit into the 32-bit fields of the file).
\<close>

theorem log_file_round_trip:
  assumes "log_calls cs new_ActionLog = Inr L" "log_fits L"
  shows "\<exists>L'. loadFromFile (saveToFile L) new_ActionLog = Inr (Some L')
     \<and> m_eventActions L' = m_eventActions L \<and> m_arcs L' = m_arcs L
     \<and> m_maxEventActionId L' = m_maxEventActionId L"
  using log_calls_inv [OF log_inv_new, of cs] loadFromFile_saveToFile [of L] assms
  by (auto simp: ok_iff)

theorem log_file_round_trip_witness:
  "\<exists>L'. loadFromFile (saveToFile (addArc 1 2 (-1) (startEventAction 2 new_ActionLog))) new_ActionLog = Inr (Some L')
     \<and> m_arcs L' = [\<lparr>m_tail = 1, m_head = 2, m_duration = -1\<rparr>]"
proof -
  let ?L = "addArc 1 2 (-1) (startEventAction 2 new_ActionLog)"
  have "log_calls [Call_start 2, Call_addArc 1 2 (-1)] new_ActionLog = Inr ?L" by simp
  moreover have "log_fits ?L"
    by (simp add: log_fits_def addArc_def startEventAction_def new_ActionLog_def int32_def operation_fits_def new_EventAction_def)
  ultimately show ?thesis
    using log_file_round_trip [of "[Call_start 2, Call_addArc 1 2 (-1)]" ?L]
    by (auto simp: addArc_def startEventAction_def new_ActionLog_def)
qed

text \<open>
  C17: for an event action that is entered for the first time, whatever commands are reported while
  it runs, its log holds every reported memory access exactly once and no other access, and the
  scope counter equals the number of scopes entered and not left in that log.
\<close>

theorem event_action_log_exact:
  assumes "log_calls cs new_ActionLog = Inr L" "smap_lookup (m_eventActions L) i = None" "i \<noteq> -1"
  shows "\<exists>L' a. log_list xs (startEventAction i L) = Inr L'
     \<and> smap_lookup (m_eventActions L') i = Some a
     \<and> distinct (filter is_access (m_commands a))
     \<and> set (filter is_access (m_commands a)) = {c \<in> (\<lambda>x. Command (fst x) (snd x)) ` set xs. is_access c}
     \<and> m_scopeDepth L' = cmd_depth (m_commands a)"
proof -
  have inv: "log_inv L" using log_calls_inv [OF log_inv_new, of cs] assms(1) by (simp add: ok_iff)
  let ?S = "startEventAction i L"
  have "m_currentEventActionId ?S = i" "m_cmdsInCurrentEvent ?S = []" by (simp_all add: startEventAction_def)
  with log_list_session [OF log_inv_start [OF inv] session_inv_start [OF inv assms(2)], of xs] assms(3)
  show ?thesis by (auto simp: ok_iff session_inv_def split: option.splits)
qed

theorem event_action_log_exact_witness:
  "\<exists>L' a. log_list [(READ_MEMORY, 1), (ENTER_SCOPE, 8), (READ_MEMORY, 1)] (startEventAction 5 new_ActionLog) = Inr L'
     \<and> smap_lookup (m_eventActions L') 5 = Some a
     \<and> set (filter is_access (m_commands a)) = {Command READ_MEMORY 1}"
  using event_action_log_exact [of "[]" new_ActionLog 5 "[(READ_MEMORY, 1), (ENTER_SCOPE, 8), (READ_MEMORY, 1)]"]
  by (force simp: new_ActionLog_def is_access_def)

text \<open>Calls that do not mention an event leave its pending trigger alone.\<close>

fun mentions :: "int \<Rightarrow> log_call \<Rightarrow> bool" where
  "mentions e (Call_trigger e') = (e' = e)"
| "mentions e (Call_triggered e') = (e' = e)"
| "mentions e _ = False"

lemma push_command_pending: "push_command c L = Inr r \<Longrightarrow> m_pendingTriggerArcs (snd r) = m_pendingTriggerArcs L"
  by (auto simp: push_command_def Let_def store_action_def)

lemma log_call_step_pending:
  assumes "log_inv L" "\<not> mentions e c" "log_call_step c L = Inr L'"
  shows "smap_lookup (m_pendingTriggerArcs L') e = smap_lookup (m_pendingTriggerArcs L) e"
proof -
  have inv: "smap_inv (m_pendingTriggerArcs L)" using assms(1) by (simp add: log_inv_def)
  show ?thesis
  proof (cases c)
    case (Call_setType t)
    then show ?thesis using assms(3)
      by (auto simp: setEventActionType_def store_action_def split: if_splits)
  next
    case (Call_log ct l)
    then show ?thesis using assms(3) push_command_pending
      by (fastforce simp: logCommand_def Let_def split: if_splits)
  next
    case (Call_trigger e')
    then show ?thesis using assms inv
      by (auto simp: triggerEvent_def Let_def store_action_def split: if_splits)
  next
    case (Call_triggered e')
    then show ?thesis using assms inv
      by (auto simp: eventTriggered_def Let_def store_action_def split: if_splits option.splits)
  qed (use assms(3) in \<open>auto simp: addArc_def startEventAction_def endEventAction_def\<close>)
qed

lemma log_calls_pending:
  "log_inv L \<Longrightarrow> \<forall>c \<in> set cs. \<not> mentions e c \<Longrightarrow> log_calls cs L = Inr L' \<Longrightarrow>
     smap_lookup (m_pendingTriggerArcs L') e = smap_lookup (m_pendingTriggerArcs L) e"
proof (induction cs arbitrary: L)
  case (Cons c cs)
  then obtain L1 where "log_call_step c L = Inr L1" "log_calls cs L1 = Inr L'" by auto
  with Cons log_call_step_inv [of L c] log_call_step_pending [of L e c L1] show ?case by (auto simp: ok_iff)
qed simp

text \<open>
  when event action \<open>i\<close> reports that it triggers an event, and later, after any calls that do not
  concern that event, event action \<open>j\<close> reports that it is the triggered one, then the trigger command
  that \<open>i\<close> logged names \<open>j\<close>, and the event is not pending any more.
\<close>

theorem trigger_links_actions:
  assumes "log_calls cs new_ActionLog = Inr L" "m_currentEventActionId L = i" "i \<noteq> -1"
    and "smap_lookup (m_eventActions L) i = Some a"
    and "\<forall>c \<in> set ds. \<not> mentions e c"
    and "log_calls (Call_trigger e # ds) L = Inr L1" "m_currentEventActionId L1 = j" "j \<noteq> -1"
  shows "\<exists>L2 b. eventTriggered e L1 = Inr L2 \<and> smap_lookup (m_eventActions L2) i = Some b
     \<and> length (m_commands a) < length (m_commands b)
     \<and> m_commands b ! length (m_commands a) = Command TRIGGER_ARC j
     \<and> smap_lookup (m_pendingTriggerArcs L2) e = None"
proof -
  have inv: "log_inv L" using log_calls_inv [OF log_inv_new, of cs] assms(1) by (simp add: ok_iff)
  let ?arc = "\<lparr>m_operationId = i, m_commandId = length (m_commands a)\<rparr>"
  obtain T where T: "triggerEvent e L = Inr T" "log_calls ds T = Inr L1" using assms(6) by auto
  have "log_inv T" using log_inv_trigger [OF inv, of e] T by (simp add: ok_iff)
  moreover have "smap_lookup (m_pendingTriggerArcs T) e = Some ?arc"
    using T(1) assms(2-4) inv
    by (auto simp: triggerEvent_def action_at_def Let_def store_action_def log_inv_def)
  ultimately have pend: "smap_lookup (m_pendingTriggerArcs L1) e = Some ?arc" and inv1: "log_inv L1"
    using log_calls_pending [OF _ assms(5) T(2)] log_calls_inv [of T ds] T(2) by (auto simp: ok_iff)
  then have inv': "pending_ok L1 ?arc" "smap_inv (m_eventActions L1)" "smap_inv (m_pendingTriggerArcs L1)"
    unfolding log_inv_def by blast+
  then obtain b where b: "smap_lookup (m_eventActions L1) i = Some b" "length (m_commands a) < length (m_commands b)"
    "m_cmdType (m_commands b ! length (m_commands a)) = TRIGGER_ARC"
    by (auto simp: pending_ok_def split: option.splits)
  then have "eventTriggered e L1 = Inr (store_action i
      (b\<lparr>m_commands := (m_commands b)[length (m_commands a) := Command TRIGGER_ARC j]\<rparr>)
      (L1\<lparr>m_pendingTriggerArcs := smap_erase e (m_pendingTriggerArcs L1)\<rparr>))"
    using pend assms(7,8) by (simp add: eventTriggered_def action_at_def Let_def)
  then show ?thesis using inv' b(2) by (simp add: store_action_def)
qed

theorem trigger_links_actions_witness:
  "\<exists>L2 b. log_calls [Call_start 1, Call_trigger 40, Call_end, Call_start 2, Call_log WRITE_MEMORY 6, Call_triggered 40]
        new_ActionLog = Inr L2
     \<and> smap_lookup (m_eventActions L2) 1 = Some b \<and> m_commands b ! 0 = Command TRIGGER_ARC 2"
proof -
  let ?L = "startEventAction 1 new_ActionLog"
    and ?ds = "[Call_end, Call_start 2, Call_log WRITE_MEMORY 6]"
  obtain L1 where L1: "log_calls (Call_trigger 40 # ?ds) ?L = Inr L1" "m_currentEventActionId L1 = 2"
    by (simp add: new_ActionLog_def startEventAction_def endEventAction_def logCommand_def willLogCommand_def action_at_def
      push_command_def triggerEvent_def store_action_def new_EventAction_def Let_def scope_delta_def)
  have L: "log_calls [Call_start 1] new_ActionLog = Inr ?L" "m_currentEventActionId ?L = 1"
    "smap_lookup (m_eventActions ?L) 1 = Some new_EventAction"
    by (simp_all add: startEventAction_def new_ActionLog_def)
  from trigger_links_actions [OF L(1,2) _ L(3) _ L1] L1 show ?thesis
    by (auto simp: new_EventAction_def)
qed

end
