(* ===== verification/String_Set.thy ===== *)
theory String_Set
  imports Prelude
begin

text \<open>
  The string table (\<open>Source/WTF/wtf/StringSet\<close>) in which the action log keeps variable names, scope
  names, values and script sources: the strings lie one after another, each ended by a NUL, and
  an open-addressing hash table with linear probing holds their offsets. The hash function
  \<open>std::tr1::hash<std::string>\<close> is a parameter. The probing loops end exactly when they meet a free
  slot or the string, so a full table would make them run forever; the model returns
  \<open>DIVERGES\<close> then, and the lemmas show that the load bound excludes it.
\<close>

section \<open>Operations\<close>

record StringSet =
  m_data :: "char list"
  m_hashes :: "int list"
  m_hashTableLoad :: nat

type_synonym string_hash = "string \<Rightarrow> 64 word"

definition new_StringSet :: StringSet where
  "new_StringSet = \<lparr>m_data = [], m_hashes = [], m_hashTableLoad = 0\<rparr>"

definition getString :: "StringSet \<Rightarrow> int \<Rightarrow> string" where
  "getString S index = c_str_at (m_data S) (nat index)"

text \<open>The \<open>size_t\<close> of the library hash is returned as an \<open>int\<close>.\<close>

definition stringHash :: "string_hash \<Rightarrow> string \<Rightarrow> 32 word" where
  "stringHash H s = ucast (H s)"

text \<open>\<open>hash % m_hashes.size()\<close>: the \<open>int\<close> is converted to \<open>size_t\<close> with its sign extended.\<close>

definition hash_slot :: "32 word \<Rightarrow> nat \<Rightarrow> nat" where
  "hash_slot h n = unat (scast h :: 64 word) mod n"

definition next_slot :: "nat \<Rightarrow> nat \<Rightarrow> nat" where
  "next_slot n p = (if p + 1 = n then 0 else p + 1)"

text \<open>
  The two probing loops. After as many steps as there are slots every slot has been seen, so
  running out of the first argument means that the loop goes on forever.
\<close>

fun find_loop :: "nat \<Rightarrow> StringSet \<Rightarrow> string \<Rightarrow> nat \<Rightarrow> int result" where
  "find_loop 0 S s p = Inl DIVERGES"
| "find_loop (Suc n) S s p =
     (if m_hashes S ! p \<noteq> -1
      then (if s = getString S (m_hashes S ! p) then Inr (m_hashes S ! p)
            else find_loop n S s (next_slot (length (m_hashes S)) p))
      else Inr (-1))"

fun free_loop :: "nat \<Rightarrow> int list \<Rightarrow> nat \<Rightarrow> nat result" where
  "free_loop 0 hs p = Inl DIVERGES"
| "free_loop (Suc n) hs p = (if hs ! p \<noteq> -1 then free_loop n hs (next_slot (length hs) p) else Inr p)"

definition findStringL :: "StringSet \<Rightarrow> string \<Rightarrow> 32 word \<Rightarrow> int result" where
  "findStringL S s hash =
     (if length (m_hashes S) = 0 then Inr (-1)
      else find_loop (length (m_hashes S)) S s (hash_slot hash (length (m_hashes S))))"

definition addHashNoRehash :: "32 word \<Rightarrow> int \<Rightarrow> StringSet \<Rightarrow> StringSet result" where
  "addHashNoRehash hash v S =
     (if length (m_hashes S) = 0 then Inl UNDEFINED
      else bindR (free_loop (length (m_hashes S)) (m_hashes S) (hash_slot hash (length (m_hashes S)))) (\<lambda>p.
        Inr (S\<lparr>m_hashTableLoad := m_hashTableLoad S + 1, m_hashes := (m_hashes S)[p := v]\<rparr>)))"

lemma addHashNoRehash_data: "addHashNoRehash h v S = Inr S' \<Longrightarrow> m_data S' = m_data S"
  by (auto simp: addHashNoRehash_def split: if_splits)

function rehash_loop :: "string_hash \<Rightarrow> nat \<Rightarrow> StringSet \<Rightarrow> StringSet result" where
  "rehash_loop H pos S =
     (if pos < length (m_data S)
      then (let str = getString S (int pos) in
            case addHashNoRehash (stringHash H str) (int pos) S of
              Inl e \<Rightarrow> Inl e
            | Inr S' \<Rightarrow> rehash_loop H (pos + length str + 1) S')
      else Inr S)"
  by pat_completeness auto
termination
  by (relation "measure (\<lambda>(H, pos, S). length (m_data S) - pos)") (auto dest: addHashNoRehash_data)

declare rehash_loop.simps [simp del]

definition rehashAll :: "string_hash \<Rightarrow> StringSet \<Rightarrow> StringSet result" where
  "rehashAll H S = rehash_loop H 0 (S\<lparr>m_hashTableLoad := 0\<rparr>)"

text \<open>
  The growing loop of \<open>addHash\<close>. Each round enlarges the table by at least three slots and leaves at
  most as many entries as there are characters, so the number of rounds given is always enough.
\<close>

fun grow_loop :: "nat \<Rightarrow> string_hash \<Rightarrow> StringSet \<Rightarrow> StringSet result" where
  "grow_loop 0 H S = Inl DIVERGES"
| "grow_loop (Suc n) H S =
     (if m_hashTableLoad S * 2 \<ge> length (m_hashes S)
      then bindR (rehashAll H (S\<lparr>m_hashes := replicate (length (m_hashes S) * 2 + 3) (-1)\<rparr>)) (grow_loop n H)
      else Inr S)"

definition addHash :: "string_hash \<Rightarrow> 32 word \<Rightarrow> int \<Rightarrow> StringSet \<Rightarrow> StringSet result" where
  "addHash H hash v S =
     bindR (grow_loop (2 * m_hashTableLoad S + 2 * length (m_data S) + 2) H S) (addHashNoRehash hash v)"

definition addStringL :: "string_hash \<Rightarrow> string \<Rightarrow> StringSet \<Rightarrow> (int \<times> StringSet) result" where
  "addStringL H s S =
     (let hash = stringHash H s in
      bindR (findStringL S s hash) (\<lambda>pos.
        if pos = -1
        then bindR (addHash H hash (int (length (m_data S))) S) (\<lambda>S'.
             Inr (int (length (m_data S)), S'\<lparr>m_data := m_data S' @ s @ [NUL]\<rparr>))
        else Inr (pos, S)))"

definition addString :: "string_hash \<Rightarrow> string \<Rightarrow> StringSet \<Rightarrow> (int \<times> StringSet) result" where
  "addString H s S = addStringL H s S"

definition findString :: "string_hash \<Rightarrow> StringSet \<Rightarrow> string \<Rightarrow> int result" where
  "findString H S s = findStringL S s (stringHash H s)"

definition containsString :: "string_hash \<Rightarrow> StringSet \<Rightarrow> string \<Rightarrow> bool result" where
  "containsString H S s = bindR (findStringL S s (stringHash H s)) (\<lambda>pos. Inr (pos \<noteq> -1))"

text \<open>The file holds the characters and only the size of the hash table.\<close>

definition set_saveToFile :: "StringSet \<Rightarrow> bytes" where
  "set_saveToFile S =
     int32_bytes (int (length (m_data S))) @ m_data S @ int32_bytes (int (length (m_hashes S)))"

text \<open>\<open>Inr None\<close> is the result \<open>false\<close>; the flag-less rest of the file comes back with the set.\<close>

definition set_loadFromFile :: "string_hash \<Rightarrow> bytes \<Rightarrow> StringSet \<Rightarrow> (StringSet \<times> bytes) option result" where
  "set_loadFromFile H f S =
     (case fread_int f of None \<Rightarrow> Inr None | Some (n, f1) \<Rightarrow>
        if n < 0 then Inl OUT_OF_RANGE
        else (case fread_chars (nat n) f1 of None \<Rightarrow> Inr None | Some (d, f2) \<Rightarrow>
             (case fread_int f2 of None \<Rightarrow> Inr None | Some (k, f3) \<Rightarrow>
                if k < 0 then Inl OUT_OF_RANGE
                else bindR (rehashAll H (S\<lparr>m_data := d, m_hashes := replicate (nat k) (-1)\<rparr>)) (\<lambda>S'.
                     Inr (Some (S', f3))))))"

section \<open>The hash table\<close>

text \<open>
  The table \<open>hs\<close> holds the entries \<open>es\<close> (strings with their offsets) for the slot function \<open>sl\<close>: it
  holds nothing else, and every entry is reached from its slot before a free slot.
\<close>

definition reached :: "int list \<Rightarrow> nat \<Rightarrow> int \<Rightarrow> bool" where
  "reached hs p v = (\<exists>k < length hs. hs ! ((p + k) mod length hs) = v
     \<and> (\<forall>j < k. hs ! ((p + j) mod length hs) \<noteq> -1))"

definition table_ok :: "(string \<Rightarrow> nat) \<Rightarrow> int list \<Rightarrow> (string \<times> int) list \<Rightarrow> bool" where
  "table_ok sl hs es =
     (set hs \<subseteq> insert (-1) (snd ` set es)
      \<and> (\<forall>(s, v) \<in> set es. v \<noteq> -1 \<and> reached hs (sl s) v)
      \<and> card {p. p < length hs \<and> hs ! p \<noteq> -1} = length es)"

lemma slot_in_range: "(p::nat) < n \<Longrightarrow> q mod n < n"
  by (intro mod_less_divisor) linarith

lemma next_slot_mod: "p < n \<Longrightarrow> next_slot n p = Suc p mod n"
  by (auto simp: next_slot_def mod_Suc)

lemma find_loop_hit:
  assumes "p < length (m_hashes S)" "k < n"
    and "m_hashes S ! ((p + k) mod length (m_hashes S)) = v"
    and "v \<noteq> -1 \<Longrightarrow> getString S v = s"
    and "\<And>j. j < k \<Longrightarrow> m_hashes S ! ((p + j) mod length (m_hashes S)) \<noteq> -1
            \<and> getString S (m_hashes S ! ((p + j) mod length (m_hashes S))) \<noteq> s"
  shows "find_loop n S s p = Inr v"
  using assms
proof (induction k arbitrary: p n)
  case 0
  then show ?case by (cases n) auto
next
  case (Suc k)
  let ?l = "length (m_hashes S)"
  obtain m where n: "n = Suc m" "k < m" using Suc.prems(2) by (cases n) auto
  have shift: "(Suc p mod ?l + j) mod ?l = (p + Suc j) mod ?l" for j by (simp add: mod_simps)
  have "find_loop m S s (Suc p mod ?l) = Inr v"
  proof (rule Suc.IH)
    show "Suc p mod ?l < ?l" using Suc.prems(1) by (rule slot_in_range)
    show "k < m" by (rule n)
    show "m_hashes S ! ((Suc p mod ?l + k) mod ?l) = v" using Suc.prems(3) shift by simp
    show "v \<noteq> -1 \<Longrightarrow> getString S v = s" by (rule Suc.prems(4))
    show "j < k \<Longrightarrow> m_hashes S ! ((Suc p mod ?l + j) mod ?l) \<noteq> -1
        \<and> getString S (m_hashes S ! ((Suc p mod ?l + j) mod ?l)) \<noteq> s" for j
      using Suc.prems(5) [of "Suc j"] shift by simp
  qed
  then show ?case
    using Suc.prems(1) Suc.prems(5) [of 0] n by (auto simp: next_slot_mod)
qed

lemma free_loop_hit:
  assumes "p < length hs" "k < n" "hs ! ((p + k) mod length hs) = -1"
    and "\<And>j. j < k \<Longrightarrow> hs ! ((p + j) mod length hs) \<noteq> -1"
  shows "free_loop n hs p = Inr ((p + k) mod length hs)"
  using assms
proof (induction k arbitrary: p n)
  case 0
  then show ?case by (cases n) auto
next
  case (Suc k)
  let ?l = "length hs"
  obtain m where n: "n = Suc m" "k < m" using Suc.prems(2) by (cases n) auto
  have shift: "(Suc p mod ?l + j) mod ?l = (p + Suc j) mod ?l" for j by (simp add: mod_simps)
  have "free_loop m hs (Suc p mod ?l) = Inr ((Suc p mod ?l + k) mod ?l)"
  proof (rule Suc.IH)
    show "Suc p mod ?l < ?l" using Suc.prems(1) by (rule slot_in_range)
    show "hs ! ((Suc p mod ?l + k) mod ?l) = -1" using Suc.prems(3) shift by simp
    show "j < k \<Longrightarrow> hs ! ((Suc p mod ?l + j) mod ?l) \<noteq> -1" for j
      using Suc.prems(4) [of "Suc j"] shift by simp
  qed (rule n)
  then show ?case
    using Suc.prems(1) Suc.prems(4) [of 0] n shift by (simp add: next_slot_mod)
qed

text \<open>A table that is not full has a first free slot on every probing path.\<close>

lemma first_free:
  assumes "table_ok sl hs es" "length es < length hs"
  obtains k where "k < length hs" "hs ! ((p + k) mod length hs) = -1"
    "\<And>j. j < k \<Longrightarrow> hs ! ((p + j) mod length hs) \<noteq> -1"
proof -
  let ?n = "length hs" and ?free = "\<lambda>k. hs ! ((p + k) mod length hs) = -1"
  have "\<exists>q < ?n. hs ! q = -1"
  proof (rule ccontr)
    assume "\<not> ?thesis"
    then have "{p. p < ?n \<and> hs ! p \<noteq> -1} = {..<?n}" by auto
    then have "length es = ?n" using assms(1) by (simp add: table_ok_def)
    with assms(2) show False by simp
  qed
  then obtain q where q: "q < ?n" "hs ! q = -1" by blast
  define k0 where "k0 = (q + ?n - p mod ?n) mod ?n"
  have "(p + k0) mod ?n = q"
  proof -
    have "p mod ?n < ?n" using q(1) by (rule slot_in_range)
    have "(p + k0) mod ?n = (p mod ?n + (q + ?n - p mod ?n)) mod ?n"
      by (simp add: k0_def mod_simps)
    also have "\<dots> = (q + ?n) mod ?n" using \<open>p mod ?n < ?n\<close> by simp
    finally show ?thesis using q by simp
  qed
  with q have "?free k0" "k0 < ?n" by (auto simp: k0_def intro: slot_in_range [OF q(1)])
  then have "?free (LEAST k. ?free k)" "(LEAST k. ?free k) \<le> k0"
    by (auto intro: LeastI Least_le)
  then show ?thesis
    using \<open>k0 < ?n\<close> by (intro that [of "LEAST k. ?free k"]) (auto dest: not_less_Least)
qed

lemma find_loop_table:
  assumes tab: "table_ok sl (m_hashes S) es" and free: "length es < length (m_hashes S)"
    and slot: "sl s < length (m_hashes S)"
    and decode: "\<And>t v. (t, v) \<in> set es \<Longrightarrow> getString S v = t" and uniq: "distinct (map fst es)"
  shows "find_loop (length (m_hashes S)) S s (sl s) = Inr (case map_of es s of None \<Rightarrow> -1 | Some v \<Rightarrow> v)"
proof (cases "map_of es s")
  case (Some v)
  then have e: "(s, v) \<in> set es" by (rule map_of_SomeD)
  then have v: "v \<noteq> -1" "reached (m_hashes S) (sl s) v" using tab by (auto simp: table_ok_def)
  let ?at = "\<lambda>k. m_hashes S ! ((sl s + k) mod length (m_hashes S))"
  define k where "k = (LEAST k. ?at k = v)"
  from v(2) obtain k1 where k1: "k1 < length (m_hashes S)" "?at k1 = v" "\<And>j. j < k1 \<Longrightarrow> ?at j \<noteq> -1"
    unfolding reached_def by blast
  then have k: "?at k = v" "k \<le> k1" by (auto simp: k_def intro: LeastI Least_le)
  have "?at j \<noteq> -1 \<and> getString S (?at j) \<noteq> s" if "j < k" for j
  proof -
    have "?at j \<noteq> -1" using k1(3) that k(2) by simp
    moreover have "?at j \<in> set (m_hashes S)" using slot by (intro nth_mem slot_in_range)
    ultimately obtain t where "(t, ?at j) \<in> set es" using tab by (force simp: table_ok_def)
    moreover have "?at j \<noteq> v" using that not_less_Least [of j] by (auto simp: k_def)
    ultimately show ?thesis
      using \<open>?at j \<noteq> -1\<close> decode e uniq by (metis eq_key_imp_eq_value)
  qed
  with find_loop_hit [of "sl s" S k "length (m_hashes S)" v s] slot k k1(1) decode [OF e] Some
  show ?thesis by simp
next
  case None
  obtain k where k: "k < length (m_hashes S)" "m_hashes S ! ((sl s + k) mod length (m_hashes S)) = -1"
    "\<And>j. j < k \<Longrightarrow> m_hashes S ! ((sl s + j) mod length (m_hashes S)) \<noteq> -1"
    using first_free [OF tab free] by metis
  have "getString S (m_hashes S ! ((sl s + j) mod length (m_hashes S))) \<noteq> s" if "j < k" for j
  proof -
    have "m_hashes S ! ((sl s + j) mod length (m_hashes S)) \<in> set (m_hashes S)"
      using slot by (intro nth_mem slot_in_range)
    with k(3) [OF that] obtain t where "(t, m_hashes S ! ((sl s + j) mod length (m_hashes S))) \<in> set es"
      using tab by (force simp: table_ok_def)
    with decode None show ?thesis by (force simp: map_of_eq_None_iff)
  qed
  with find_loop_hit [of "sl s" S k "length (m_hashes S)" "-1" s] slot k None show ?thesis by simp
qed

text \<open>Storing an entry in a table that is not full.\<close>

lemma table_ok_insert:
  assumes tab: "table_ok sl hs es" and p: "p < length hs" "hs ! p = -1" and v: "v \<noteq> -1"
    and k: "k < length hs" "(sl s + k) mod length hs = p"
      "\<And>j. j < k \<Longrightarrow> hs ! ((sl s + j) mod length hs) \<noteq> -1"
  shows "table_ok sl (hs[p := v]) ((s, v) # es)"
proof -
  have keep: "hs ! q \<noteq> -1 \<Longrightarrow> hs[p := v] ! q = hs ! q" for q using p by (cases "q = p") auto
  have set: "set (hs[p := v]) \<subseteq> insert (-1) (snd ` set ((s, v) # es))"
    using tab set_update_subset_insert [of hs p v] by (auto simp: table_ok_def)
  have "reached (hs[p := v]) (sl s) v"
    unfolding reached_def using p k keep by (intro exI [of _ k]) auto
  moreover have "reached (hs[p := v]) (sl t) w" if e: "(t, w) \<in> set es" for t w
  proof -
    from tab e have w: "w \<noteq> -1" and "reached hs (sl t) w" by (auto simp: table_ok_def)
    then obtain i where "i < length hs" "hs ! ((sl t + i) mod length hs) = w"
      "\<forall>j < i. hs ! ((sl t + j) mod length hs) \<noteq> -1" by (auto simp: reached_def)
    then show ?thesis unfolding reached_def using w keep by (intro exI [of _ i]) auto
  qed
  moreover have "{q. q < length hs \<and> hs[p := v] ! q \<noteq> -1} = insert p {q. q < length hs \<and> hs ! q \<noteq> -1}"
    using p v by (auto simp: nth_list_update)
  ultimately show ?thesis
    using tab set v p(2) by (auto simp: table_ok_def)
qed

lemma addHashNoRehash_table:
  assumes tab: "table_ok sl (m_hashes S) es" and free: "length es < length (m_hashes S)"
    and slot: "sl s = hash_slot h (length (m_hashes S))" and v: "v \<noteq> -1"
  obtains hs where "addHashNoRehash h v S = Inr (S\<lparr>m_hashTableLoad := m_hashTableLoad S + 1, m_hashes := hs\<rparr>)"
    "length hs = length (m_hashes S)" "table_ok sl hs ((s, v) # es)"
proof -
  obtain k where k: "k < length (m_hashes S)" "m_hashes S ! ((sl s + k) mod length (m_hashes S)) = -1"
    "\<And>j. j < k \<Longrightarrow> m_hashes S ! ((sl s + j) mod length (m_hashes S)) \<noteq> -1"
    using first_free [OF tab free] by metis
  let ?p = "(sl s + k) mod length (m_hashes S)"
  have len: "0 < length (m_hashes S)" using free by linarith
  have "sl s < length (m_hashes S)" using len by (simp add: slot hash_slot_def del: length_greater_0_conv)
  then have "free_loop (length (m_hashes S)) (m_hashes S) (sl s) = Inr ?p"
    using k by (intro free_loop_hit) auto
  moreover have "table_ok sl ((m_hashes S)[?p := v]) ((s, v) # es)"
    using tab v k slot_in_range [OF k(1)] by (intro table_ok_insert) auto
  ultimately show ?thesis
    using len by (intro that [of "(m_hashes S)[?p := v]"]) (auto simp: addHashNoRehash_def slot)
qed

lemma table_ok_empty: "table_ok sl (replicate n (-1)) []"
  by (auto simp: table_ok_def)

lemma table_ok_perm: "table_ok sl hs es \<Longrightarrow> set es' = set es \<Longrightarrow> length es' = length es \<Longrightarrow> table_ok sl hs es'"
  by (simp add: table_ok_def)

section \<open>The layout of the characters\<close>

definition flat :: "string list \<Rightarrow> char list" where
  "flat ss = concat (map (\<lambda>s. s @ [NUL]) ss)"

fun layout :: "nat \<Rightarrow> string list \<Rightarrow> (string \<times> int) list" where
  "layout off [] = []"
| "layout off (s # ss) = (s, int off) # layout (off + length s + 1) ss"

lemma flat_simps [simp]: "flat [] = []" "flat (s # ss) = s @ NUL # flat ss"
  "flat (xs @ ys) = flat xs @ flat ys"
  by (simp_all add: flat_def)

lemma length_layout [simp]: "length (layout off ss) = length ss"
  by (induction ss arbitrary: off) auto

lemma map_fst_layout [simp]: "map fst (layout off ss) = ss"
  by (induction ss arbitrary: off) auto

lemma map_of_layout_None [simp]: "map_of (layout off ss) s = None \<longleftrightarrow> s \<notin> set ss"
  by (induction ss arbitrary: off) auto

lemma layout_append: "layout off (xs @ ys) = layout off xs @ layout (off + length (flat xs)) ys"
  by (induction xs arbitrary: off) (auto simp: add.assoc)

lemma layout_nonneg: "(s, v) \<in> set (layout off ss) \<Longrightarrow> 0 \<le> v"
  by (induction ss arbitrary: off) auto

lemma layout_at:
  "(s, v) \<in> set (layout off ss) \<Longrightarrow> \<exists>xs ys. ss = xs @ s # ys \<and> v = int (off + length (flat xs))"
proof (induction ss arbitrary: off)
  case (Cons t ss)
  consider "s = t" "v = int off" | "(s, v) \<in> set (layout (off + length t + 1) ss)"
    using Cons.prems by auto
  then show ?case
  proof cases
    case 1
    then show ?thesis by (intro exI [of _ "[]"] exI [of _ ss]) auto
  next
    case 2
    then obtain xs ys where "ss = xs @ s # ys" "v = int (off + length t + 1 + length (flat xs))"
      using Cons.IH by blast
    then show ?thesis by (intro exI [of _ "t # xs"] exI [of _ ys]) auto
  qed
qed simp

lemma c_str_at_flat:
  assumes "(s, v) \<in> set (layout 0 ss)" "NUL \<notin> set s"
  shows "c_str_at (flat ss @ rest) (nat v) = s"
proof -
  obtain xs ys where "ss = xs @ s # ys" "v = int (length (flat xs))" using layout_at [OF assms(1)] by auto
  then show ?thesis using c_str_at_append [OF assms(2), of "flat xs" "flat ys @ rest"] by simp
qed

section \<open>The invariant and the operations\<close>

text \<open>
  The set holds the strings \<open>ss\<close>, in the order in which they were added. The table is either not
  allocated or has at least three slots and a free one.
\<close>

definition table_slot :: "string_hash \<Rightarrow> int list \<Rightarrow> string \<Rightarrow> nat" where
  "table_slot H hs s = hash_slot (stringHash H s) (length hs)"

definition set_inv :: "string_hash \<Rightarrow> string list \<Rightarrow> StringSet \<Rightarrow> bool" where
  "set_inv H ss S =
     (m_data S = flat ss \<and> (\<forall>s \<in> set ss. NUL \<notin> set s) \<and> distinct ss
      \<and> table_ok (table_slot H (m_hashes S)) (m_hashes S) (layout 0 ss)
      \<and> m_hashTableLoad S = length ss
      \<and> (m_hashes S = [] \<and> ss = [] \<or> length ss < length (m_hashes S) \<and> 3 \<le> length (m_hashes S)))"

lemma set_inv_new: "set_inv H [] new_StringSet"
  by (simp add: set_inv_def new_StringSet_def table_ok_def)

lemma set_inv_getString: "set_inv H ss S \<Longrightarrow> (s, v) \<in> set (layout 0 ss) \<Longrightarrow> getString S v = s"
  using c_str_at_flat [of s v ss "[]"] layout_at [of s v 0 ss]
  by (auto simp: set_inv_def getString_def)

text \<open>Looking a string up, in the terms of the list of strings.\<close>

definition index_of :: "string list \<Rightarrow> string \<Rightarrow> int" where
  "index_of ss s = (case map_of (layout 0 ss) s of None \<Rightarrow> -1 | Some v \<Rightarrow> v)"

lemma index_of_absent: "s \<notin> set ss \<Longrightarrow> index_of ss s = -1"
  using map_of_layout_None [of 0 ss s] by (simp add: index_of_def del: map_of_layout_None)

lemma index_of_present:
  assumes "s \<in> set ss"
  shows "(s, index_of ss s) \<in> set (layout 0 ss)" "0 \<le> index_of ss s"
proof -
  obtain v where "map_of (layout 0 ss) s = Some v" using map_of_layout_None assms by fastforce
  then show 1: "(s, index_of ss s) \<in> set (layout 0 ss)" by (simp add: index_of_def map_of_SomeD)
  then show "0 \<le> index_of ss s" by (rule layout_nonneg)
qed

lemma index_of_append:
  assumes "t \<in> set ss"
  shows "index_of (ss @ ys) t = index_of ss t"
proof -
  obtain v where "map_of (layout 0 ss) t = Some v" using map_of_layout_None assms by fastforce
  then show ?thesis by (simp add: index_of_def layout_append map_add_def)
qed

lemma index_of_snoc: "s \<notin> set ss \<Longrightarrow> index_of (ss @ [s]) s = int (length (flat ss))"
proof -
  assume "s \<notin> set ss"
  then have "map_of (layout 0 ss) s = None" by simp
  then show ?thesis by (simp add: index_of_def layout_append map_add_def del: map_of_layout_None)
qed

lemma findStringL_inv:
  assumes "set_inv H ss S"
  shows "findStringL S s (stringHash H s) = Inr (index_of ss s)"
proof (cases "m_hashes S = []")
  case True
  then show ?thesis using assms by (auto simp: findStringL_def set_inv_def index_of_def)
next
  case False
  then have "table_slot H (m_hashes S) s < length (m_hashes S)"
    by (simp add: table_slot_def hash_slot_def)
  then have "find_loop (length (m_hashes S)) S s (table_slot H (m_hashes S) s) = Inr (index_of ss s)"
    unfolding index_of_def using assms False set_inv_getString [OF assms]
    by (intro find_loop_table) (auto simp: set_inv_def)
  then show ?thesis using False by (simp add: findStringL_def table_slot_def)
qed

lemma rehash_loop_table:
  assumes "m_data S = flat (xs @ ys)" "\<forall>s \<in> set ys. NUL \<notin> set s"
    and "length (m_hashes S) = n" "length (xs @ ys) \<le> n"
    and "table_ok (\<lambda>s. hash_slot (stringHash H s) n) (m_hashes S) (layout 0 xs)"
  shows "\<exists>hs. rehash_loop H (length (flat xs)) S
             = Inr (S\<lparr>m_hashTableLoad := m_hashTableLoad S + length ys, m_hashes := hs\<rparr>)
           \<and> length hs = n \<and> table_ok (\<lambda>s. hash_slot (stringHash H s) n) hs (layout 0 (xs @ ys))"
  using assms
proof (induction ys arbitrary: xs S)
  case Nil
  then show ?case by (intro exI [of _ "m_hashes S"]) (simp add: rehash_loop.simps)
next
  case (Cons y ys)
  let ?v = "int (length (flat xs))" and ?sl = "\<lambda>s. hash_slot (stringHash H s) n"
  have str: "getString S ?v = y"
    using Cons.prems(1,2) c_str_at_append [of y "flat xs" "flat ys"] by (simp add: getString_def)
  obtain hs where hs: "addHashNoRehash (stringHash H y) ?v S
        = Inr (S\<lparr>m_hashTableLoad := m_hashTableLoad S + 1, m_hashes := hs\<rparr>)"
    "length hs = length (m_hashes S)" "table_ok ?sl hs ((y, ?v) # layout 0 xs)"
    by (rule addHashNoRehash_table [OF Cons.prems(5), of y "stringHash H y" ?v]) (use Cons.prems(3,4) in auto)
  let ?S = "S\<lparr>m_hashTableLoad := m_hashTableLoad S + 1, m_hashes := hs\<rparr>"
  have "table_ok ?sl hs (layout 0 (xs @ [y]))"
    by (rule table_ok_perm [OF hs(3)]) (auto simp: layout_append)
  then obtain hs' where hs': "rehash_loop H (length (flat (xs @ [y]))) ?S
        = Inr (?S\<lparr>m_hashTableLoad := m_hashTableLoad ?S + length ys, m_hashes := hs'\<rparr>)"
    "length hs' = length hs" "table_ok ?sl hs' (layout 0 ((xs @ [y]) @ ys))"
    using Cons.IH [of ?S "xs @ [y]"] Cons.prems hs(2) by auto
  then show ?case
    using str hs Cons.prems(1,3)
    by (intro exI [of _ hs']) (subst rehash_loop.simps, simp add: Let_def)
qed

lemma rehashAll_table:
  assumes "m_data S = flat ss" "\<forall>s \<in> set ss. NUL \<notin> set s" "m_hashes S = replicate n (-1)" "length ss \<le> n"
  obtains hs where "rehashAll H S = Inr (S\<lparr>m_hashTableLoad := length ss, m_hashes := hs\<rparr>)"
    "length hs = n" "table_ok (table_slot H hs) hs (layout 0 ss)"
proof -
  have "\<exists>hs. rehash_loop H (length (flat [])) (S\<lparr>m_hashTableLoad := 0\<rparr>)
          = Inr (S\<lparr>m_hashTableLoad := 0\<rparr>\<lparr>m_hashTableLoad := m_hashTableLoad (S\<lparr>m_hashTableLoad := 0\<rparr>) + length ss, m_hashes := hs\<rparr>)
        \<and> length hs = n
        \<and> table_ok (\<lambda>s. hash_slot (stringHash H s) n) hs (layout 0 ([] @ ss))"
    by (rule rehash_loop_table) (use assms in \<open>auto simp: table_ok_empty\<close>)
  then show ?thesis using assms(3) by (auto simp: rehashAll_def table_slot_def [abs_def] intro: that)
qed

text \<open>The growing loop runs at most once, and the table is less than half full afterwards.\<close>

lemma grow_loop_inv:
  assumes inv: "set_inv H ss S"
  obtains S' where "grow_loop (Suc (Suc n)) H S = Inr S'" "set_inv H ss S'" "2 * length ss < length (m_hashes S')"
    "m_data S' = m_data S"
proof (cases "m_hashTableLoad S * 2 \<ge> length (m_hashes S)")
  case False
  then show ?thesis using inv that [of S] by (auto simp: set_inv_def)
next
  case True
  let ?n = "length (m_hashes S) * 2 + 3"
  let ?T = "S\<lparr>m_hashes := replicate ?n (-1)\<rparr>"
  have data: "m_data ?T = flat ss" "\<forall>s \<in> set ss. NUL \<notin> set s" and len: "length ss \<le> length (m_hashes S)"
    using inv by (auto simp: set_inv_def)
  obtain hs where hs: "rehashAll H ?T = Inr (?T\<lparr>m_hashTableLoad := length ss, m_hashes := hs\<rparr>)"
    "length hs = ?n" "table_ok (table_slot H hs) hs (layout 0 ss)"
    by (rule rehashAll_table [OF data, of ?n H]) (use len in auto)
  let ?S' = "?T\<lparr>m_hashTableLoad := length ss, m_hashes := hs\<rparr>"
  have "set_inv H ss ?S'" using inv hs len by (auto simp: set_inv_def)
  moreover have "grow_loop (Suc (Suc n)) H S = Inr ?S'" using True hs len by simp
  ultimately show ?thesis using hs(2) len by (intro that [of ?S']) auto
qed

text \<open>
  Adding a string: the call returns, the index reads the string back, and the list of strings
  grows by the string exactly when it was not there.
\<close>

lemma addString_inv:
  assumes inv: "set_inv H ss S" and s: "NUL \<notin> set s"
  shows "\<exists>S'. addString H s S = Inr (index_of (if s \<in> set ss then ss else ss @ [s]) s, S')
     \<and> set_inv H (if s \<in> set ss then ss else ss @ [s]) S'"
proof (cases "s \<in> set ss")
  case True
  then show ?thesis
    using inv index_of_present(2) [OF True]
    by (auto simp: addString_def addStringL_def Let_def findStringL_inv [OF inv])
next
  case False
  let ?v = "int (length (m_data S))"
  obtain T where T: "grow_loop (2 * m_hashTableLoad S + 2 * length (m_data S) + 2) H S = Inr T" "set_inv H ss T"
    "2 * length ss < length (m_hashes T)" "m_data T = m_data S"
    using grow_loop_inv [OF inv, of "2 * m_hashTableLoad S + 2 * length (m_data S)"] by auto
  have tab: "table_ok (table_slot H (m_hashes T)) (m_hashes T) (layout 0 ss)"
    using T(2) by (simp add: set_inv_def)
  obtain hs where hs: "addHashNoRehash (stringHash H s) ?v T
      = Inr (T\<lparr>m_hashTableLoad := m_hashTableLoad T + 1, m_hashes := hs\<rparr>)"
    "length hs = length (m_hashes T)" "table_ok (table_slot H (m_hashes T)) hs ((s, ?v) # layout 0 ss)"
    by (rule addHashNoRehash_table [OF tab, of s "stringHash H s" ?v]) (use T(3) in \<open>auto simp: table_slot_def\<close>)
  let ?S' = "T\<lparr>m_hashTableLoad := m_hashTableLoad T + 1, m_hashes := hs, m_data := m_data T @ s @ [NUL]\<rparr>"
  have "table_slot H hs = table_slot H (m_hashes T)" using hs(2) by (simp add: table_slot_def fun_eq_iff)
  moreover have "table_ok (table_slot H (m_hashes T)) hs (layout 0 (ss @ [s]))"
    by (rule table_ok_perm [OF hs(3)]) (use inv in \<open>auto simp: layout_append set_inv_def\<close>)
  ultimately have "set_inv H (ss @ [s]) ?S'"
    using T(2,3) hs(2) False s by (auto simp: set_inv_def)
  moreover have "addString H s S = Inr (?v, ?S')"
    using False T hs by (simp add: addString_def addStringL_def Let_def findStringL_inv [OF inv]
      index_of_absent addHash_def)
  moreover have "index_of (ss @ [s]) s = ?v" using False inv by (simp add: index_of_snoc set_inv_def)
  ultimately show ?thesis using False by auto
qed

fun addStrings :: "string_hash \<Rightarrow> string list \<Rightarrow> StringSet \<Rightarrow> StringSet result" where
  "addStrings H [] S = Inr S"
| "addStrings H (s # ss) S = bindR (addString H s S) (\<lambda>(i, S'). addStrings H ss S')"

text \<open>The distinct strings of a sequence of additions, in the order of their first addition.\<close>

fun distinct_first :: "string list \<Rightarrow> string list \<Rightarrow> string list" where
  "distinct_first acc [] = acc"
| "distinct_first acc (s # ss) = distinct_first (if s \<in> set acc then acc else acc @ [s]) ss"

lemma set_distinct_first [simp]: "set (distinct_first acc ss) = set acc \<union> set ss"
  by (induction ss arbitrary: acc) auto

lemma addStrings_inv:
  "set_inv H acc S \<Longrightarrow> \<forall>s \<in> set ss. NUL \<notin> set s \<Longrightarrow>
     \<exists>S'. addStrings H ss S = Inr S' \<and> set_inv H (distinct_first acc ss) S'"
proof (induction ss arbitrary: acc S)
  case (Cons s ss)
  then obtain S1 where "addString H s S = Inr (index_of (if s \<in> set acc then acc else acc @ [s]) s, S1)"
    "set_inv H (if s \<in> set acc then acc else acc @ [s]) S1"
    using addString_inv [of H acc S s] by auto
  with Cons.IH [OF this(2)] Cons.prems(2) show ?case by simp
qed simp



text \<open>A set with a table survives its file.\<close>

definition set_fits :: "StringSet \<Rightarrow> bool" where
  "set_fits S = (length (m_data S) < 2 ^ 31 \<and> length (m_hashes S) < 2 ^ 31)"

lemma set_loadFromFile_saveToFile_inv:
  assumes inv: "set_inv H ss S" and fits: "set_fits S"
  shows "\<exists>S'. set_loadFromFile H (set_saveToFile S @ rest) T = Inr (Some (S', rest))
     \<and> set_inv H ss S' \<and> m_data S' = m_data S \<and> length (m_hashes S') = length (m_hashes S)"
proof -
  let ?n = "length (m_hashes S)"
  let ?T = "T\<lparr>m_data := m_data S, m_hashes := replicate ?n (-1)\<rparr>"
  have data: "m_data ?T = flat ss" "\<forall>s \<in> set ss. NUL \<notin> set s" and len: "length ss \<le> ?n"
    using inv by (auto simp: set_inv_def)
  obtain hs where hs: "rehashAll H ?T = Inr (?T\<lparr>m_hashTableLoad := length ss, m_hashes := hs\<rparr>)"
    "length hs = ?n" "table_ok (table_slot H hs) hs (layout 0 ss)"
    by (rule rehashAll_table [OF data, of ?n H]) (use len in auto)
  have "set_inv H ss (?T\<lparr>m_hashTableLoad := length ss, m_hashes := hs\<rparr>)"
    using inv hs by (auto simp: set_inv_def)
  moreover have "set_loadFromFile H (set_saveToFile S @ rest) T
      = Inr (Some (?T\<lparr>m_hashTableLoad := length ss, m_hashes := hs\<rparr>, rest))"
    using fits hs by (simp add: set_loadFromFile_def set_saveToFile_def set_fits_def int32_def fread_chars_append)
  ultimately show ?thesis using hs(2) by auto
qed

text \<open>
  a string set written to a file and read back (into any string set, with anything following in
  the file) finds exactly the same strings at the same indices, although the file does not hold
  the hash table, and leaves the rest of the file unread.
\<close>

theorem set_file_round_trip:
  assumes "\<forall>t \<in> set ts. NUL \<notin> set t" "addStrings H ts new_StringSet = Inr S" "set_fits S"
  shows "\<exists>S'. set_loadFromFile H (set_saveToFile S @ rest) T = Inr (Some (S', rest))
     \<and> (\<forall>i. getString S' i = getString S i) \<and> (\<forall>t. findString H S' t = findString H S t)"
proof -
  have inv: "set_inv H (distinct_first [] ts) S"
    using addStrings_inv [OF set_inv_new assms(1), of H] assms(2) by auto
  obtain S' where S': "set_loadFromFile H (set_saveToFile S @ rest) T = Inr (Some (S', rest))"
    "set_inv H (distinct_first [] ts) S'" "m_data S' = m_data S"
    using set_loadFromFile_saveToFile_inv [OF inv assms(3)] by blast
  then show ?thesis
    by (auto simp: getString_def findString_def findStringL_inv [OF inv] findStringL_inv [OF S'(2)])
qed

theorem set_file_round_trip_witness:
  "\<exists>S S'. addStrings (\<lambda>s. 7) [''x'', ''yz''] new_StringSet = Inr S
     \<and> set_loadFromFile (\<lambda>s. 7) (set_saveToFile S @ [NUL]) new_StringSet = Inr (Some (S', [NUL]))
     \<and> findString (\<lambda>s. 7) S' ''yz'' = findString (\<lambda>s. 7) S ''yz''"
proof -
  have "\<forall>t \<in> set [''x'', ''yz'']. NUL \<notin> set t" by simp
  moreover have "addStrings (\<lambda>s. 7) [''x'', ''yz''] new_StringSet
      = Inr \<lparr>m_data = ''x'' @ NUL # ''yz'' @ [NUL], m_hashes = [-1, 0, 2], m_hashTableLoad = 2\<rparr>" by code_simp
  ultimately show ?thesis
    using set_file_round_trip [of "[''x'', ''yz'']" "\<lambda>s. 7" _ "[NUL]" new_StringSet] by (fastforce simp: set_fits_def)
qed

end
