(* ===== verification/Action_Log_Report.thy ===== *)
theory Action_Log_Report
  imports Action_Log String_Set
begin

text \<open>
  The reporting functions (\<open>Source/WTF/wtf/ActionLogReport\<close>) through which the instrumented engine
  writes to the action log and its string tables, all kept per thread, and the queue of
  attached event handlers (\<open>EventAttachLog\<close>) from which the automatic exploration takes its events.
  Texts built by \<open>printf\<close> formats are arguments. A failed consistency check in strict mode is \<open>CRASH\<close>.
\<close>

section \<open>Reporting functions\<close>

text \<open>The part of \<open>wtfThreadData()\<close> that the functions use, and the file-level \<open>strict_mode\<close>.\<close>

record log_data =
  variableSet :: StringSet
  scopeSet :: StringSet
  dataSet :: StringSet
  jsSet :: StringSet
  actionLog :: ActionLog
  strict_mode :: bool

definition new_log_data :: log_data where
  "new_log_data = \<lparr>variableSet = new_StringSet, scopeSet = new_StringSet, dataSet = new_StringSet,
     jsSet = new_StringSet, actionLog = new_ActionLog, strict_mode = True\<rparr>"

definition ActionLogStrictMode :: "bool \<Rightarrow> log_data \<Rightarrow> log_data" where
  "ActionLogStrictMode strict s = s\<lparr>strict_mode := strict\<rparr>"

definition ActionLogInStrictMode :: "log_data \<Rightarrow> bool" where
  "ActionLogInStrictMode s = strict_mode s"

text \<open>The check that follows a call of the log: \<open>false\<close> is a crash in strict mode.\<close>

definition checked :: "log_data \<Rightarrow> (bool \<times> ActionLog) result \<Rightarrow> log_data result" where
  "checked s r = bindR r (\<lambda>(b, L). if \<not> b \<and> strict_mode s then Inl CRASH else Inr (s\<lparr>actionLog := L\<rparr>))"

definition ActionLogScopeStart :: "string_hash \<Rightarrow> string \<Rightarrow> log_data \<Rightarrow> log_data result" where
  "ActionLogScopeStart H name s =
     bindR (addString H name (scopeSet s)) (\<lambda>(scopeId, S).
       checked (s\<lparr>scopeSet := S\<rparr>) (enterScope scopeId (actionLog s)))"

definition ActionLogScopeEnd :: "log_data \<Rightarrow> log_data result" where
  "ActionLogScopeEnd s = checked s (exitScope (actionLog s))"

text \<open>\<open>vsnprintf\<close> with size \<open>sizeof(strspace) - 1\<close> keeps 510 characters of the formatted text.\<close>

definition strspace_text :: "string \<Rightarrow> string" where
  "strspace_text text = take 510 text"

definition ActionLogFormatV :: "string_hash \<Rightarrow> CommandType \<Rightarrow> string \<Rightarrow> log_data \<Rightarrow> log_data result" where
  "ActionLogFormatV H cmd text s =
     (let strspace = strspace_text text in
      if cmd = MEMORY_VALUE then
        bindR (addString H strspace (dataSet s)) (\<lambda>(stringId, S).
          checked (s\<lparr>dataSet := S\<rparr>) (logCommand cmd stringId (actionLog s)))
      else if cmd = ENTER_SCOPE then
        bindR (addString H strspace (scopeSet s)) (\<lambda>(stringId, S).
          checked (s\<lparr>scopeSet := S\<rparr>) (logCommand cmd stringId (actionLog s)))
      else
        bindR (addString H strspace (variableSet s)) (\<lambda>(stringId, S).
          checked (s\<lparr>variableSet := S\<rparr>) (logCommand cmd stringId (actionLog s))))"

definition ActionLogFormat :: "string_hash \<Rightarrow> CommandType \<Rightarrow> string \<Rightarrow> log_data \<Rightarrow> log_data result" where
  "ActionLogFormat H cmd text s = ActionLogFormatV H cmd text s"

text \<open>The texts \<open>Array[%d]$LEN\<close> and \<open>Array[%d]$[%d]\<close>; the \<open>size_t\<close> id is cast to \<open>int\<close>.\<close>

definition array_len_text :: "64 word \<Rightarrow> string" where
  "array_len_text array = ''Array['' @ int_dec (sint (ucast array :: 32 word)) @ '']$LEN''"

definition array_cell_text :: "64 word \<Rightarrow> int \<Rightarrow> string" where
  "array_cell_text array index =
     ''Array['' @ int_dec (sint (ucast array :: 32 word)) @ '']$['' @ int_dec index @ '']''"

definition ActionLogReportArrayRead :: "string_hash \<Rightarrow> 64 word \<Rightarrow> int \<Rightarrow> log_data \<Rightarrow> log_data result" where
  "ActionLogReportArrayRead H array index s =
     bindR (ActionLogFormat H READ_MEMORY (array_len_text array) s)
       (ActionLogFormat H READ_MEMORY (array_cell_text array index))"

definition ActionLogReportArrayWrite :: "string_hash \<Rightarrow> 64 word \<Rightarrow> int \<Rightarrow> log_data \<Rightarrow> log_data result" where
  "ActionLogReportArrayWrite H array index s =
     bindR (ActionLogFormat H READ_MEMORY (array_len_text array) s)
       (ActionLogFormat H WRITE_MEMORY (array_cell_text array index))"

definition ActionLogReportArrayReadScan :: "string_hash \<Rightarrow> 64 word \<Rightarrow> int \<Rightarrow> log_data \<Rightarrow> log_data result" where
  "ActionLogReportArrayReadScan H array index s = ActionLogFormat H READ_MEMORY (array_cell_text array index) s"

definition ActionLogReportArrayReadLen :: "string_hash \<Rightarrow> 64 word \<Rightarrow> log_data \<Rightarrow> log_data result" where
  "ActionLogReportArrayReadLen H array s = ActionLogFormat H READ_MEMORY (array_len_text array) s"

definition ActionLogReportArrayModify :: "string_hash \<Rightarrow> 64 word \<Rightarrow> log_data \<Rightarrow> log_data result" where
  "ActionLogReportArrayModify H array s = ActionLogFormat H WRITE_MEMORY (array_len_text array) s"

definition ActionLogReportMemoryValue :: "string_hash \<Rightarrow> string \<Rightarrow> log_data \<Rightarrow> log_data result" where
  "ActionLogReportMemoryValue H v s =
     bindR (addString H v (dataSet s)) (\<lambda>(stringId, S).
       checked (s\<lparr>dataSet := S\<rparr>) (logCommand MEMORY_VALUE stringId (actionLog s)))"

definition ActionLogEnterOperation :: "int \<Rightarrow> EventActionType \<Rightarrow> log_data \<Rightarrow> log_data result" where
  "ActionLogEnterOperation i ty s =
     checked s (setEventActionType ty (startEventAction i (actionLog s)))"

definition ActionLogExitOperation :: "log_data \<Rightarrow> log_data result" where
  "ActionLogExitOperation s = checked s (Inr (endEventAction (actionLog s)))"

definition ActionLogScopeDepth :: "log_data \<Rightarrow> int" where
  "ActionLogScopeDepth s = m_scopeDepth (actionLog s)"

text \<open>Before it crashes, the invalid case also saves the log to \<open>/tmp\<close>.\<close>

definition ActionLogAddArc :: "int \<Rightarrow> int \<Rightarrow> int \<Rightarrow> log_data \<Rightarrow> log_data result" where
  "ActionLogAddArc earlierId laterId duration s =
     (if laterId \<le> earlierId then (if strict_mode s then Inl CRASH else Inr s)
      else Inr (s\<lparr>actionLog := addArc earlierId laterId duration (actionLog s)\<rparr>))"

definition ActionLogAddArcEvent :: "int \<Rightarrow> log_data \<Rightarrow> log_data result" where
  "ActionLogAddArcEvent nextId s = checked s (logCommand TRIGGER_ARC nextId (actionLog s))"

definition ActionLogTriggerEvent :: "int \<Rightarrow> log_data \<Rightarrow> log_data result" where
  "ActionLogTriggerEvent eventId s =
     bindR (triggerEvent eventId (actionLog s)) (\<lambda>L. Inr (s\<lparr>actionLog := L\<rparr>))"

definition ActionLogEventTriggered :: "int \<Rightarrow> log_data \<Rightarrow> log_data result" where
  "ActionLogEventTriggered eventId s =
     bindR (eventTriggered eventId (actionLog s)) (\<lambda>L. Inr (s\<lparr>actionLog := L\<rparr>))"

definition ActionLogRegisterSource :: "string_hash \<Rightarrow> string \<Rightarrow> log_data \<Rightarrow> (int \<times> log_data) result" where
  "ActionLogRegisterSource H src s =
     bindR (addString H src (jsSet s)) (\<lambda>(i, S). Inr (i, s\<lparr>jsSet := S\<rparr>))"

definition ActionLogWillAddCommand :: "CommandType \<Rightarrow> log_data \<Rightarrow> bool result" where
  "ActionLogWillAddCommand cmd s = willLogCommand cmd (actionLog s)"

definition ActionLogSave :: "log_data \<Rightarrow> bytes" where
  "ActionLogSave s =
     set_saveToFile (variableSet s) @ set_saveToFile (scopeSet s) @ saveToFile (actionLog s)
       @ set_saveToFile (jsSet s) @ set_saveToFile (dataSet s)"

definition ActionLogReportArcs :: "log_data \<Rightarrow> Arc list" where
  "ActionLogReportArcs s = m_arcs (actionLog s)"

section \<open>Which reports crash\<close>

definition strings_ok :: "string_hash \<Rightarrow> StringSet \<Rightarrow> bool" where
  "strings_ok H S = (\<exists>ss. set_inv H ss S)"

definition report_inv :: "string_hash \<Rightarrow> log_data \<Rightarrow> bool" where
  "report_inv H s = (strings_ok H (variableSet s) \<and> strings_ok H (scopeSet s) \<and> strings_ok H (dataSet s)
     \<and> strings_ok H (jsSet s) \<and> log_inv (actionLog s))"

lemma strings_ok_add:
  assumes "strings_ok H S" "NUL \<notin> set s"
  obtains i S' where "addString H s S = Inr (i, S')" "strings_ok H S'" "getString S' i = s"
proof -
  from assms(1) obtain ss where inv: "set_inv H ss S" by (auto simp: strings_ok_def)
  let ?ts = "if s \<in> set ss then ss else ss @ [s]"
  from addString_inv [OF inv assms(2)] obtain S' where
    S': "addString H s S = Inr (index_of ?ts s, S')" "set_inv H ?ts S'" by blast
  have "s \<in> set ?ts" by simp
  from set_inv_getString [OF S'(2) index_of_present(1) [OF this]] S' that show ?thesis
    by (auto simp: strings_ok_def)
qed

lemma report_inv_new [r4_inv]: "report_inv H new_log_data"
  using set_inv_new log_inv_new by (auto simp: report_inv_def new_log_data_def strings_ok_def)

text \<open>Inside an event action every command is accepted; outside of one none is.\<close>

lemma push_command_frame: "push_command c L = Inr (b, L') \<Longrightarrow> b \<and> m_currentEventActionId L' = m_currentEventActionId L"
  by (auto simp: push_command_def Let_def store_action_def)

lemma logCommand_result:
  assumes "log_inv L"
  obtains L' where "logCommand c l L = Inr (m_currentEventActionId L \<noteq> -1, L')" "log_inv L'"
    "m_currentEventActionId L' = m_currentEventActionId L"
proof -
  obtain b L' where r: "logCommand c l L = Inr (b, L')" "log_inv L'"
    using log_inv_logCommand [OF assms, of c l] by (auto simp: ok_iff)
  have "b = (m_currentEventActionId L \<noteq> -1) \<and> m_currentEventActionId L' = m_currentEventActionId L"
    using r(1) by (auto simp: logCommand_def Let_def split: if_splits dest!: push_command_frame)
  with r that show ?thesis by auto
qed

text \<open>The calls of the interface, as the instrumented engine makes them.\<close>

datatype report_call =
  R_ScopeStart string | R_ScopeEnd | R_Format CommandType string | R_MemoryValue string
  | R_Enter int EventActionType | R_Exit | R_AddArc int int int | R_AddArcEvent int
  | R_Trigger int | R_Triggered int | R_RegisterSource string

fun report_step :: "string_hash \<Rightarrow> report_call \<Rightarrow> log_data \<Rightarrow> log_data result" where
  "report_step H (R_ScopeStart n) s = ActionLogScopeStart H n s"
| "report_step H R_ScopeEnd s = ActionLogScopeEnd s"
| "report_step H (R_Format c t) s = ActionLogFormat H c t s"
| "report_step H (R_MemoryValue v) s = ActionLogReportMemoryValue H v s"
| "report_step H (R_Enter i t) s = ActionLogEnterOperation i t s"
| "report_step H R_Exit s = ActionLogExitOperation s"
| "report_step H (R_AddArc a b d) s = ActionLogAddArc a b d s"
| "report_step H (R_AddArcEvent n) s = ActionLogAddArcEvent n s"
| "report_step H (R_Trigger e) s = ActionLogTriggerEvent e s"
| "report_step H (R_Triggered e) s = ActionLogEventTriggered e s"
| "report_step H (R_RegisterSource t) s = bindR (ActionLogRegisterSource H t s) (\<lambda>r. Inr (snd r))"

fun report_calls :: "string_hash \<Rightarrow> report_call list \<Rightarrow> log_data \<Rightarrow> log_data result" where
  "report_calls H [] s = Inr s"
| "report_calls H (c # cs) s = bindR (report_step H c s) (report_calls H cs)"

fun call_text :: "report_call \<Rightarrow> string" where
  "call_text (R_ScopeStart n) = n"
| "call_text (R_Format c t) = t"
| "call_text (R_MemoryValue v) = v"
| "call_text (R_RegisterSource t) = t"
| "call_text _ = []"

text \<open>
  The discipline the callers have to follow: logging only between entering and leaving an
  operation, and arcs only forward. \<open>after_call\<close> tracks whether an operation is entered.
\<close>

fun allowed_call :: "bool \<Rightarrow> report_call \<Rightarrow> bool" where
  "allowed_call inside (R_Enter i t) = (i \<noteq> -1)"
| "allowed_call inside (R_AddArc a b d) = (a < b)"
| "allowed_call inside (R_Trigger e) = True"
| "allowed_call inside (R_Triggered e) = True"
| "allowed_call inside (R_RegisterSource t) = True"
| "allowed_call inside _ = inside"

fun after_call :: "bool \<Rightarrow> report_call \<Rightarrow> bool" where
  "after_call inside (R_Enter i t) = (i \<noteq> -1)"
| "after_call inside R_Exit = False"
| "after_call inside _ = inside"

fun allowed_calls :: "bool \<Rightarrow> report_call list \<Rightarrow> bool" where
  "allowed_calls inside [] = True"
| "allowed_calls inside (c # cs) = (allowed_call inside c \<and> allowed_calls (after_call inside c) cs)"

abbreviation inside_op :: "log_data \<Rightarrow> bool" where
  "inside_op s \<equiv> m_currentEventActionId (actionLog s) \<noteq> -1"

lemma checked_result:
  assumes "strict_mode s"
  shows "checked s (Inr (b, L)) = (if b then Inr (s\<lparr>actionLog := L\<rparr>) else Inl CRASH)"
  using assms by (simp add: checked_def)

text \<open>The outcome of one call in strict mode: it crashes, or it keeps the invariant.\<close>

definition step_result :: "string_hash \<Rightarrow> report_call \<Rightarrow> log_data \<Rightarrow> log_data result \<Rightarrow> bool" where
  "step_result H c s r =
     (if allowed_call (inside_op s) c
      then ok r (\<lambda>s'. report_inv H s' \<and> strict_mode s' \<and> inside_op s' = after_call (inside_op s) c)
      else r = Inl CRASH)"

lemma logged_step:
  assumes "report_inv H s'" "strict_mode s'" "actionLog s' = actionLog s"
    and "allowed_call (inside_op s) c = inside_op s" "after_call (inside_op s) c = inside_op s"
  shows "step_result H c s (checked s' (logCommand k l (actionLog s)))"
proof -
  obtain L' where "logCommand k l (actionLog s) = Inr (inside_op s, L')" "log_inv L'"
    "m_currentEventActionId L' = m_currentEventActionId (actionLog s)"
    using logCommand_result [of "actionLog s" k l] assms(1,3) by (auto simp: report_inv_def)
  with assms show ?thesis by (cases "inside_op s") (auto simp: step_result_def checked_result report_inv_def)
qed

lemma text_step:
  assumes "report_inv H s" "strict_mode s" "NUL \<notin> set text" "strings_ok H (get s)"
    and "\<And>S. strings_ok H S \<Longrightarrow> report_inv H (put S) \<and> strict_mode (put S) \<and> actionLog (put S) = actionLog s"
    and "allowed_call (inside_op s) c = inside_op s" "after_call (inside_op s) c = inside_op s"
  shows "step_result H c s (bindR (addString H text (get s)) (\<lambda>(i, S). checked (put S) (logCommand k i (actionLog s))))"
proof -
  obtain i S' where "addString H text (get s) = Inr (i, S')" "strings_ok H S'"
    using strings_ok_add [OF assms(4,3)] by metis
  with assms(5) [of S'] assms(6,7) logged_step [of H "put S'" s c k i] show ?thesis by simp
qed

lemma report_step_result:
  assumes inv: "report_inv H s" and strict: "strict_mode s" and chars: "NUL \<notin> set (call_text c)"
  shows "step_result H c s (report_step H c s)"
proof (cases c)
  case (R_ScopeStart n)
  then show ?thesis
    using text_step [OF inv strict, of n scopeSet "\<lambda>S. s\<lparr>scopeSet := S\<rparr>" c ENTER_SCOPE] inv strict chars
    by (simp add: ActionLogScopeStart_def enterScope_def report_inv_def)
next
  case R_ScopeEnd
  then show ?thesis
    using logged_step [of H s s c EXIT_SCOPE "-1"] inv strict by (simp add: ActionLogScopeEnd_def exitScope_def)
next
  case (R_Format k t)
  have "NUL \<notin> set (strspace_text t)"
    using chars R_Format by (auto simp: strspace_text_def dest: in_set_takeD)
  then show ?thesis
    using R_Format inv strict
      text_step [OF inv strict, of "strspace_text t" scopeSet "\<lambda>S. s\<lparr>scopeSet := S\<rparr>" c k]
      text_step [OF inv strict, of "strspace_text t" dataSet "\<lambda>S. s\<lparr>dataSet := S\<rparr>" c k]
      text_step [OF inv strict, of "strspace_text t" variableSet "\<lambda>S. s\<lparr>variableSet := S\<rparr>" c k]
    by (auto simp: ActionLogFormat_def ActionLogFormatV_def Let_def report_inv_def)
next
  case (R_MemoryValue v)
  then show ?thesis
    using text_step [OF inv strict, of v dataSet "\<lambda>S. s\<lparr>dataSet := S\<rparr>" c MEMORY_VALUE] inv strict chars
    by (simp add: ActionLogReportMemoryValue_def report_inv_def)
next
  case (R_AddArcEvent n)
  then show ?thesis
    using logged_step [of H s s c TRIGGER_ARC n] inv strict by (simp add: ActionLogAddArcEvent_def)
next
  case (R_Enter i t)
  let ?L = "startEventAction i (actionLog s)"
  have L: "log_inv ?L" "m_currentEventActionId ?L = i"
    using inv by (auto simp: report_inv_def log_inv_start) (simp add: startEventAction_def)
  obtain b L' where r: "setEventActionType t ?L = Inr (b, L')" "log_inv L'"
    using log_inv_setType [OF L(1), of t] by (auto simp: ok_iff)
  then have "b = (i \<noteq> -1)" "m_currentEventActionId L' = i"
    using L(2) by (auto simp: setEventActionType_def store_action_def split: if_splits)
  with r inv strict R_Enter show ?thesis
    by (simp add: step_result_def ActionLogEnterOperation_def checked_result report_inv_def)
next
  case R_Exit
  obtain b L' where r: "endEventAction (actionLog s) = (b, L')" by fastforce
  then have "log_inv L'" "b = inside_op s" "m_currentEventActionId L' = -1"
    using log_inv_end [of "actionLog s"] inv by (auto simp: report_inv_def endEventAction_def)
  with r inv strict R_Exit show ?thesis
    by (simp add: step_result_def ActionLogExitOperation_def checked_result report_inv_def)
next
  case (R_AddArc a b d)
  then show ?thesis
    using inv strict log_inv_addArc [of "actionLog s"]
    by (simp add: step_result_def ActionLogAddArc_def report_inv_def) (simp add: addArc_def)
next
  case (R_Trigger e)
  obtain L' where r: "triggerEvent e (actionLog s) = Inr L'" "log_inv L'"
    using log_inv_trigger [of "actionLog s" e] inv by (auto simp: ok_iff report_inv_def)
  then have "m_currentEventActionId L' = m_currentEventActionId (actionLog s)"
    by (auto simp: triggerEvent_def Let_def store_action_def split: if_splits)
  with r inv strict R_Trigger show ?thesis by (simp add: step_result_def ActionLogTriggerEvent_def report_inv_def)
next
  case (R_Triggered e)
  obtain L' where r: "eventTriggered e (actionLog s) = Inr L'" "log_inv L'"
    using log_inv_triggered [of "actionLog s" e] inv by (auto simp: ok_iff report_inv_def)
  then have "m_currentEventActionId L' = m_currentEventActionId (actionLog s)"
    by (auto simp: eventTriggered_def Let_def store_action_def split: if_splits option.splits)
  with r inv strict R_Triggered show ?thesis by (simp add: step_result_def ActionLogEventTriggered_def report_inv_def)
next
  case (R_RegisterSource t)
  have "strings_ok H (jsSet s)" "NUL \<notin> set t" using inv chars R_RegisterSource by (simp_all add: report_inv_def)
  then obtain i S' where "addString H t (jsSet s) = Inr (i, S')" "strings_ok H S'" using strings_ok_add by metis
  with inv strict R_RegisterSource show ?thesis
    by (simp add: step_result_def ActionLogRegisterSource_def report_inv_def)
qed

lemma report_calls_result:
  "report_inv H s \<Longrightarrow> strict_mode s \<Longrightarrow> \<forall>c \<in> set cs. NUL \<notin> set (call_text c) \<Longrightarrow>
     (if allowed_calls (inside_op s) cs then ok (report_calls H cs s) (report_inv H)
      else report_calls H cs s = Inl CRASH)"
proof (induction cs arbitrary: s)
  case (Cons c cs)
  have step: "step_result H c s (report_step H c s)" using Cons.prems by (intro report_step_result) auto
  show ?case
  proof (cases "allowed_call (inside_op s) c")
    case True
    with step obtain s' where "report_step H c s = Inr s'" "report_inv H s'" "strict_mode s'"
      "inside_op s' = after_call (inside_op s) c" by (auto simp: step_result_def ok_iff)
    with Cons True show ?thesis by simp
  qed (use step in \<open>simp add: step_result_def\<close>)
qed simp

text \<open>
  C23: in strict mode a sequence of reports, from the start of the program, runs to its end exactly
  when it follows the discipline (logging only between entering and leaving an operation, arcs
  only forward); any violation is a crash, and nothing else ever fails.
\<close>

theorem strict_mode_discipline:
  assumes "\<forall>c \<in> set cs. NUL \<notin> set (call_text c)"
  shows "if allowed_calls False cs then \<exists>s. report_calls H cs new_log_data = Inr s \<and> log_inv (actionLog s)
     else report_calls H cs new_log_data = Inl CRASH"
  using report_calls_result [OF report_inv_new, of cs H] assms
  by (auto simp: new_log_data_def new_ActionLog_def ok_iff report_inv_def)

theorem strict_mode_discipline_witness:
  "(\<exists>s. report_calls (\<lambda>s. 0) [R_Enter 1 EA_TIMER, R_Format READ_MEMORY ''x'', R_Exit, R_AddArc 1 2 (-1)] new_log_data = Inr s)
   \<and> report_calls (\<lambda>s. 0) [R_Enter 1 EA_TIMER, R_Exit, R_ScopeStart ''f''] new_log_data = Inl CRASH"
  using strict_mode_discipline [of "[R_Enter 1 EA_TIMER, R_Format READ_MEMORY ''x'', R_Exit, R_AddArc 1 2 (-1)]" "\<lambda>s. 0"]
    strict_mode_discipline [of "[R_Enter 1 EA_TIMER, R_Exit, R_ScopeStart ''f'']" "\<lambda>s. 0"]
  by auto

section \<open>What is logged can be read back\<close>

lemma push_command_logs:
  assumes "smap_inv (m_eventActions L)" "push_command c L = Inr (b, L')" "m_cmdType c \<noteq> EXIT_SCOPE"
  shows "\<exists>a. smap_lookup (m_eventActions L') (m_currentEventActionId L) = Some a \<and> c \<in> set (m_commands a)"
  using assms by (auto simp: push_command_def Let_def store_action_def)

lemma start_log_list_inv:
  assumes "log_inv L" "session_inv L" "m_currentEventActionId L \<noteq> -1" "is_access (Command k l)"
  shows "\<exists>L' a. logCommand k l L = Inr (True, L') \<and> log_inv L' \<and> session_inv L'
     \<and> m_currentEventActionId L' = m_currentEventActionId L
     \<and> smap_lookup (m_eventActions L') (m_currentEventActionId L) = Some a \<and> Command k l \<in> set (m_commands a)"
proof -
  obtain L' where L': "logCommand k l L = Inr (True, L')" "log_inv L'"
    using logCommand_result [OF assms(1), of k l] assms(3) by auto
  from logCommand_session [OF assms(1-3) L'(1)] assms(4)
  have s: "session_inv L'" "m_currentEventActionId L' = m_currentEventActionId L"
    "Command k l \<in> set (m_cmdsInCurrentEvent L')" by auto
  then show ?thesis using L' by (auto simp: session_inv_def split: option.splits)
qed

text \<open>
  a memory access reported inside a freshly entered event action is in the log of that event
  action, and its location is the index at which the variable table holds the name,
  cut to 510 characters.
\<close>

theorem reported_access_decodes:
  assumes "report_inv H s" "session_inv (actionLog s)" "inside_op s" "NUL \<notin> set name"
    and "k = READ_MEMORY \<or> k = WRITE_MEMORY"
  shows "\<exists>s' i a. ActionLogFormat H k name s = Inr s'
     \<and> smap_lookup (m_eventActions (actionLog s')) (m_currentEventActionId (actionLog s)) = Some a
     \<and> Command k i \<in> set (m_commands a) \<and> getString (variableSet s') i = take 510 name
     \<and> report_inv H s' \<and> session_inv (actionLog s')"
proof -
  have "NUL \<notin> set (take 510 name)" using assms(4) by (meson in_set_takeD)
  then obtain i S' where S': "addString H (take 510 name) (variableSet s) = Inr (i, S')" "strings_ok H S'"
    "getString S' i = take 510 name"
    using strings_ok_add [of H "variableSet s"] assms(1) by (auto simp: report_inv_def)
  have "is_access (Command k i)" using assms(5) by (auto simp: is_access_def)
  then obtain L' a where L': "logCommand k i (actionLog s) = Inr (True, L')" "log_inv L'" "session_inv L'"
    "smap_lookup (m_eventActions L') (m_currentEventActionId (actionLog s)) = Some a" "Command k i \<in> set (m_commands a)"
    using start_log_list_inv [OF _ assms(2,3), of k i] assms(1) by (fastforce simp: report_inv_def)
  have "ActionLogFormat H k name s = Inr (s\<lparr>variableSet := S', actionLog := L'\<rparr>)"
    using S' L' assms(5) by (auto simp: ActionLogFormat_def ActionLogFormatV_def Let_def strspace_text_def checked_def)
  then show ?thesis using S' L' assms(1) by (auto simp: report_inv_def)
qed

lemma enter_new_session:
  "report_inv H (s\<lparr>actionLog := startEventAction i (actionLog s)\<rparr>)" if "report_inv H s" for s
  using that by (simp add: report_inv_def log_inv_start)

theorem reported_access_decodes_witness:
  "\<exists>s' i a. ActionLogFormat (\<lambda>s. 0) WRITE_MEMORY ''Array[3]$LEN''
        (new_log_data\<lparr>actionLog := startEventAction 7 (actionLog new_log_data)\<rparr>) = Inr s'
     \<and> smap_lookup (m_eventActions (actionLog s')) 7 = Some a \<and> Command WRITE_MEMORY i \<in> set (m_commands a)
     \<and> getString (variableSet s') i = ''Array[3]$LEN''"
proof -
  let ?s = "new_log_data\<lparr>actionLog := startEventAction 7 (actionLog new_log_data)\<rparr>"
  have "report_inv (\<lambda>s. 0) ?s" by (rule enter_new_session [OF report_inv_new])
  moreover have "session_inv (actionLog ?s)"
    using session_inv_start [OF log_inv_new, of 7] by (simp add: new_log_data_def new_ActionLog_def)
  moreover have id: "m_currentEventActionId (actionLog ?s) = 7" by (simp add: startEventAction_def)
  ultimately show ?thesis
    using reported_access_decodes [of "\<lambda>s. 0" ?s "''Array[3]$LEN''" WRITE_MEMORY] by auto
qed

section \<open>Attached event handlers\<close>

datatype EventType =
  EV_KEYDOWN | EV_KEYUP | EV_KEYPRESS | EV_CHANGE | EV_RESIZE | EV_FOCUS | EV_BLUR | EV_MOUSEOVER
  | EV_MOUSEOUT | EV_MOUSEUP | EV_MOUSEDOWN | EV_MOUSEMOVE | EV_DBLCLICK | EV_CLICK | EV_NUM_EVENTS

definition event_types :: "EventType list" where
  "event_types = [EV_KEYDOWN, EV_KEYUP, EV_KEYPRESS, EV_CHANGE, EV_RESIZE, EV_FOCUS, EV_BLUR, EV_MOUSEOVER,
     EV_MOUSEOUT, EV_MOUSEUP, EV_MOUSEDOWN, EV_MOUSEMOVE, EV_DBLCLICK, EV_CLICK]"

fun EventTypeStr :: "EventType \<Rightarrow> string" where
  "EventTypeStr EV_KEYDOWN = ''keydown''"
| "EventTypeStr EV_KEYUP = ''keyup''"
| "EventTypeStr EV_KEYPRESS = ''keypress''"
| "EventTypeStr EV_RESIZE = ''resize''"
| "EventTypeStr EV_MOUSEMOVE = ''mousemove''"
| "EventTypeStr EV_MOUSEOUT = ''mouseout''"
| "EventTypeStr EV_MOUSEOVER = ''mouseover''"
| "EventTypeStr EV_MOUSEDOWN = ''mousedown''"
| "EventTypeStr EV_MOUSEUP = ''mouseup''"
| "EventTypeStr EV_CHANGE = ''change''"
| "EventTypeStr EV_CLICK = ''click''"
| "EventTypeStr EV_DBLCLICK = ''dblclick''"
| "EventTypeStr EV_FOCUS = ''focus''"
| "EventTypeStr EV_BLUR = ''blur''"
| "EventTypeStr EV_NUM_EVENTS = []"

definition StrEventType :: "string \<Rightarrow> EventType" where
  "StrEventType str =
     (if str = ''keydown'' then EV_KEYDOWN
      else if str = ''keyup'' then EV_KEYUP
      else if str = ''keypress'' then EV_KEYPRESS
      else if str = ''resize'' then EV_RESIZE
      else if str = ''mousemove'' then EV_MOUSEMOVE
      else if str = ''mouseout'' then EV_MOUSEOUT
      else if str = ''mouseover'' then EV_MOUSEOVER
      else if str = ''mousedown'' then EV_MOUSEDOWN
      else if str = ''mouseup'' then EV_MOUSEUP
      else if str = ''click'' then EV_CLICK
      else if str = ''dblclick'' then EV_DBLCLICK
      else if str = ''focus'' then EV_FOCUS
      else if str = ''blur'' then EV_BLUR
      else if str = ''change'' then EV_CHANGE
      else EV_NUM_EVENTS)"

text \<open>\<open>m_queues\<close>, indexed by the event types below \<open>EV_NUM_EVENTS\<close>; targets are pointers.\<close>

type_synonym attach_log = "EventType \<Rightarrow> int list"

definition attach_addEvent :: "int \<Rightarrow> EventType \<Rightarrow> attach_log \<Rightarrow> attach_log result" where
  "attach_addEvent eventTarget eventType Q =
     (if eventType = EV_NUM_EVENTS then Inl UNDEFINED else Inr (Q(eventType := Q eventType @ [eventTarget])))"

definition addEventStr :: "int \<Rightarrow> string \<Rightarrow> attach_log \<Rightarrow> attach_log result" where
  "addEventStr eventTarget str Q =
     (let ty = StrEventType str in
      if ty = EV_CLICK then Inr Q
      else if ty = EV_NUM_EVENTS then Inr Q
      else attach_addEvent eventTarget ty Q)"

text \<open>The inner loop of \<open>removeEventTarget\<close>: every element is taken from the front and pushed back unless it goes.\<close>

fun rotate_out :: "nat \<Rightarrow> int \<Rightarrow> int list \<Rightarrow> int list" where
  "rotate_out 0 t q = q"
| "rotate_out (Suc j) t [] = []"
| "rotate_out (Suc j) t (x # q) = rotate_out j t (if x \<noteq> t then q @ [x] else q)"

definition removeEventTarget :: "int \<Rightarrow> attach_log \<Rightarrow> attach_log" where
  "removeEventTarget eventTarget Q =
     fold (\<lambda>ty Q. Q(ty := rotate_out (length (Q ty)) eventTarget (Q ty))) event_types Q"

fun pull_from :: "EventType list \<Rightarrow> attach_log \<Rightarrow> (int \<times> EventType) option \<times> attach_log" where
  "pull_from [] Q = (None, Q)"
| "pull_from (ty # tys) Q =
     (case Q ty of [] \<Rightarrow> pull_from tys Q | x # q \<Rightarrow> (Some (x, ty), Q(ty := q)))"

definition pullEvent :: "attach_log \<Rightarrow> (int \<times> EventType) option \<times> attach_log" where
  "pullEvent Q = pull_from event_types Q"

lemma StrEventType_Str [simp]: "StrEventType (EventTypeStr t) = t"
  by (cases t) (simp_all add: StrEventType_def)

lemma event_types_UNIV: "set event_types = UNIV - {EV_NUM_EVENTS}"
proof -
  have "t \<in> set event_types \<or> t = EV_NUM_EVENTS" for t by (cases t) (simp_all add: event_types_def)
  then show ?thesis by (auto simp: event_types_def)
qed

lemma rotate_out_append: "rotate_out (length q) t (q @ r) = r @ filter (\<lambda>x. x \<noteq> t) q"
  by (induction q arbitrary: r) auto

lemma fold_update_other:
  "ty \<notin> set tys \<Longrightarrow> fold (\<lambda>ty Q. Q(ty := f (Q ty))) tys Q ty = Q ty"
  by (induction tys arbitrary: Q) auto

lemma fold_update_each:
  "distinct tys \<Longrightarrow> fold (\<lambda>ty Q. Q(ty := f (Q ty))) tys Q = (\<lambda>ty. if ty \<in> set tys then f (Q ty) else Q ty)"
proof (induction tys arbitrary: Q)
  case (Cons t tys)
  then show ?case by (auto simp: fun_eq_iff)
qed simp

lemma removeEventTarget_filter:
  "removeEventTarget t Q = (\<lambda>ty. if ty = EV_NUM_EVENTS then Q ty else filter (\<lambda>x. x \<noteq> t) (Q ty))"
proof -
  have "distinct event_types" by (simp add: event_types_def)
  then show ?thesis
    using fold_update_each [of event_types "\<lambda>q. rotate_out (length q) t q" Q] rotate_out_append [of _ t "[]"]
    by (auto simp: removeEventTarget_def event_types_UNIV)
qed

text \<open>The sequence of events that repeated pulling produces: the queues in the order of the types.\<close>

fun pull_all :: "nat \<Rightarrow> attach_log \<Rightarrow> (int \<times> EventType) list" where
  "pull_all 0 Q = []"
| "pull_all (Suc n) Q = (case pullEvent Q of (None, Q') \<Rightarrow> [] | (Some e, Q') \<Rightarrow> e # pull_all n Q')"

definition pending_events :: "EventType list \<Rightarrow> attach_log \<Rightarrow> (int \<times> EventType) list" where
  "pending_events tys Q = concat (map (\<lambda>ty. map (\<lambda>x. (x, ty)) (Q ty)) tys)"

lemma pull_from_pending:
  "distinct tys \<Longrightarrow> (case pull_from tys Q of
     (None, Q') \<Rightarrow> Q' = Q \<and> pending_events tys Q = []
   | (Some e, Q') \<Rightarrow> pending_events tys Q = e # pending_events tys Q'
        \<and> (\<forall>ty. ty \<notin> set tys \<longrightarrow> Q' ty = Q ty))"
proof (induction tys)
  case (Cons ty tys)
  show ?case
  proof (cases "Q ty")
    case Nil
    with Cons show ?thesis
      by (auto simp: pending_events_def split: prod.splits option.splits)
  next
    case (Cons x q)
    moreover have "pending_events tys (Q(ty := q)) = pending_events tys Q"
      unfolding pending_events_def using \<open>distinct (ty # tys)\<close>
      by (intro arg_cong [where f = concat] map_cong) auto
    ultimately show ?thesis by (simp add: pending_events_def)
  qed
qed (simp add: pending_events_def)

lemma pull_all_pending:
  "length (pending_events event_types Q) \<le> n \<Longrightarrow> pull_all n Q = pending_events event_types Q"
proof (induction n arbitrary: Q)
  case (Suc n)
  have "distinct event_types" by (simp add: event_types_def)
  from pull_from_pending [OF this, of Q] Suc show ?case
    by (auto simp: pullEvent_def split: prod.splits option.splits)
qed simp

lemma pending_events_remove:
  "pending_events event_types (removeEventTarget t Q) = filter (\<lambda>e. fst e \<noteq> t) (pending_events event_types Q)"
proof -
  have "pending_events tys (removeEventTarget t Q) = filter (\<lambda>e. fst e \<noteq> t) (pending_events tys Q)"
    if "EV_NUM_EVENTS \<notin> set tys" for tys
    using that by (induction tys) (auto simp: pending_events_def removeEventTarget_filter filter_map comp_def)
  then show ?thesis by (simp add: event_types_UNIV)
qed

text \<open>
  after a target has been removed, pulling until nothing is left yields exactly the pending
  events of the other targets: first all of the smallest event type in the order in which they
  were attached, then those of the next type, and so on. The removal, which rotates each
  queue, keeps the order of what stays.
\<close>

theorem pull_after_remove:
  "pull_all (length (pending_events event_types Q)) (removeEventTarget t Q) =
     filter (\<lambda>e. fst e \<noteq> t) (pending_events event_types Q)"
  by (subst pull_all_pending) (simp_all add: pending_events_remove)

end
