(* ===== verification/Descriptor.thy ===== *)
theory Descriptor
  imports Std_Containers
begin

text \<open>
  Event action descriptors (\<open>Source/WTF/wtf/EventActionDescriptor\<close>) and schedules of them
  (\<open>Source/WTF/wtf/EventActionSchedule\<close>): the names under which R4 records event actions and by
  which it finds them again in a replay. The theory models the text form with its cache, the
  comma-separated parameters with their in-place patching, and the schedule file; the lemmas
  relate the index arithmetic of the code to lists of parameters and show the round trips.
\<close>

section \<open>Data\<close>

text \<open>
  The categories of \<open>EventActionDescriptor.h\<close>. A category read back from a file is a cast of an
  arbitrary integer, so values without a name are kept.
\<close>

datatype EventActionCategory =
  WTF_OTHER | WTF_TIMER | WTF_USER_INTERFACE | WTF_NETWORK | WTF_PARSING | WTF_Unnamed int

fun int_of_category :: "EventActionCategory \<Rightarrow> int" where
  "int_of_category WTF_OTHER = 0"
| "int_of_category WTF_TIMER = 1"
| "int_of_category WTF_USER_INTERFACE = 2"
| "int_of_category WTF_NETWORK = 3"
| "int_of_category WTF_PARSING = 4"
| "int_of_category (WTF_Unnamed i) = i"

definition category_of_int :: "int \<Rightarrow> EventActionCategory" where
  "category_of_int i =
     (if i = 0 then WTF_OTHER else if i = 1 then WTF_TIMER else if i = 2 then WTF_USER_INTERFACE
      else if i = 3 then WTF_NETWORK else if i = 4 then WTF_PARSING else WTF_Unnamed i)"

type_synonym EventActionId = int

record EventActionDescriptor =
  m_category :: EventActionCategory
  m_type :: string
  m_params :: string
  m_isNull :: bool
  m_patched :: bool
  m_full_cache :: string
  m_unpatchedString :: string

definition mk_descriptor :: "EventActionCategory \<Rightarrow> string \<Rightarrow> string \<Rightarrow> EventActionDescriptor" where
  "mk_descriptor category ty params =
     \<lparr>m_category = category, m_type = ty, m_params = params, m_isNull = False, m_patched = False,
      m_full_cache = [], m_unpatchedString = []\<rparr>"

text \<open>The static \<open>EventActionDescriptor::null\<close>; its category is zero-initialised storage.\<close>

definition null_descriptor :: EventActionDescriptor where
  "null_descriptor =
     \<lparr>m_category = WTF_OTHER, m_type = [], m_params = [], m_isNull = True, m_patched = False,
      m_full_cache = [], m_unpatchedString = []\<rparr>"

definition descriptor_eq :: "EventActionDescriptor \<Rightarrow> EventActionDescriptor \<Rightarrow> bool" where
  "descriptor_eq a b = (m_category a = m_category b \<and> m_type a = m_type b \<and> m_params a = m_params b)"

section \<open>Text form\<close>

text \<open>What \<open>toString\<close> computes when the cache is empty.\<close>

definition render :: "EventActionDescriptor \<Rightarrow> string" where
  "render d = int_dec (int_of_category (m_category d)) @ ''-'' @ m_type d @ ''('' @ m_params d @ '')''"

text \<open>\<open>toString\<close> returns the text and leaves it in the mutable cache of the descriptor.\<close>

definition toString :: "EventActionDescriptor \<Rightarrow> string \<times> EventActionDescriptor" where
  "toString d =
     (let d' = (if m_full_cache d = [] then d\<lparr>m_full_cache := render d\<rparr> else d)
      in (m_full_cache d', d'))"

definition toUnpatchedString :: "EventActionDescriptor \<Rightarrow> string \<times> EventActionDescriptor" where
  "toUnpatchedString d = (if m_patched d then (m_unpatchedString d, d) else toString d)"

definition serialize :: "EventActionDescriptor \<Rightarrow> string \<times> EventActionDescriptor" where
  "serialize d = toString d"

text \<open>
  \<open>raw.size()-typeEndPos-2\<close> is unsigned; when the parenthesis is the last character it wraps to
  the largest value, and \<open>substr\<close> then returns the empty rest, as the truncated difference does.
\<close>

definition deserialize :: "string \<Rightarrow> EventActionDescriptor result" where
  "deserialize raw =
     (case find_char (CHR ''-'') raw of None \<Rightarrow> Inl ASSERT_FAILED | Some typeStartPos \<Rightarrow>
      (case find_char (CHR ''('') raw of None \<Rightarrow> Inl ASSERT_FAILED | Some typeEndPos \<Rightarrow>
        if \<not> typeStartPos < typeEndPos then Inl ASSERT_FAILED
        else bindR (substr raw 0 typeStartPos) (\<lambda>category.
             bindR (substr raw (typeStartPos + 1) (typeEndPos - typeStartPos - 1)) (\<lambda>ty.
             bindR (substr raw (typeEndPos + 1) (length raw - typeEndPos - 2)) (\<lambda>params.
             Inr (mk_descriptor (category_of_int (atoi category)) ty params))))))"

section \<open>Parameters\<close>

text \<open>The index just after the parameter that starts at \<open>start\<close>.\<close>

definition param_end :: "string \<Rightarrow> nat \<Rightarrow> nat" where
  "param_end params start = (case find_char_from (CHR '','') start params of None \<Rightarrow> length params | Some e \<Rightarrow> e)"

text \<open>The loop that \<open>getParameter\<close> and \<open>patchParameter\<close> share: the first and last index of a parameter.\<close>

primrec param_bounds :: "string \<Rightarrow> nat \<Rightarrow> (nat \<times> nat) result" where
  "param_bounds params 0 = Inr (0, param_end params 0)"
| "param_bounds params (Suc n) =
     bindR (param_bounds params n) (\<lambda>(start, end').
       if end' = length params then Inl ASSERT_FAILED
       else Inr (end' + 1, param_end params (end' + 1)))"

definition getParameter :: "EventActionDescriptor \<Rightarrow> nat \<Rightarrow> string result" where
  "getParameter d number =
     bindR (param_bounds (m_params d) number) (\<lambda>(start, end').
       substr (m_params d) start (end' - start))"

definition patchParameter :: "EventActionDescriptor \<Rightarrow> nat \<Rightarrow> string \<Rightarrow> EventActionDescriptor result" where
  "patchParameter d number v =
     (let (text, d1) = toString d in
      bindR (param_bounds (m_params d1) number) (\<lambda>(start, end').
      bindR (substr (m_params d1) 0 start) (\<lambda>before.
      bindR (substr (m_params d1) end' (length (m_params d1))) (\<lambda>after.
      Inr (d1\<lparr>m_unpatchedString := text, m_params := before @ v @ after, m_patched := True,
              m_full_cache := []\<rparr>)))))"

definition escapeParam :: "string \<Rightarrow> string" where
  "escapeParam param = map (\<lambda>c. if c = CHR '','' then CHR ''.'' else c) param"

section \<open>Schedules\<close>

type_synonym EventActionScheduleItem = "EventActionId \<times> EventActionDescriptor"
type_synonym EventActionSchedule = "EventActionScheduleItem list"

fun schedule_serialize :: "EventActionSchedule \<Rightarrow> string \<times> EventActionSchedule" where
  "schedule_serialize [] = ([], [])"
| "schedule_serialize ((i, d) # s) =
     (let (text, d') = serialize d; (rest, s') = schedule_serialize s
      in (int_dec i @ '';'' @ text @ [newline] @ rest, (i, d') # s'))"

text \<open>One line of a schedule file: blank lines add nothing, the two tokens add the null descriptor.\<close>

definition schedule_line :: "string \<Rightarrow> EventActionSchedule result" where
  "schedule_line eventaction =
     (if eventaction = [] then Inr []
      else if eventaction = ''<relax>'' \<or> eventaction = ''<change>'' then Inr [(0, null_descriptor)]
      else (case getline (CHR '';'') eventaction of (i, rest, _) \<Rightarrow>
            (case getline newline rest of (description, _, _) \<Rightarrow>
              bindR (deserialize description) (\<lambda>d. Inr [(atoi i, d)]))))"

function schedule_deserialize :: "string \<Rightarrow> EventActionSchedule result" where
  "schedule_deserialize stream =
     (case getline newline stream of (eventaction, rest, at_end) \<Rightarrow>
       bindR (schedule_line eventaction) (\<lambda>items.
         if at_end then Inr items
         else bindR (schedule_deserialize rest) (\<lambda>more. Inr (items @ more))))"
  by pat_completeness auto
termination
  by (relation "measure length") (auto dest: sym intro: getline_rest_shorter)

declare schedule_deserialize.simps [simp del]

section \<open>The cache\<close>

text \<open>The cache is empty or holds what would be computed: then \<open>toString\<close> is a pure rendering.\<close>

definition cache_ok :: "EventActionDescriptor \<Rightarrow> bool" where
  "cache_ok d = (m_full_cache d = [] \<or> m_full_cache d = render d)"

lemma render_nonempty [simp]: "render d \<noteq> []"
  by (simp add: render_def)

lemma render_full_cache [simp]: "render (d\<lparr>m_full_cache := c\<rparr>) = render d"
  by (simp add: render_def)

lemma toString_render:
  "cache_ok d \<Longrightarrow> toString d = (render d, d\<lparr>m_full_cache := render d\<rparr>)"
  by (auto simp: toString_def cache_ok_def Let_def)

lemma cache_ok_mk [simp]: "cache_ok (mk_descriptor c t p)"
  by (simp add: cache_ok_def mk_descriptor_def)

lemma cache_ok_null [simp]: "cache_ok null_descriptor"
  by (simp add: cache_ok_def null_descriptor_def)

lemma cache_ok_toString [simp, r4_inv]: "cache_ok d \<Longrightarrow> cache_ok (snd (toString d))"
  by (simp add: toString_render) (simp add: cache_ok_def)

lemma cache_ok_patch [r4_inv]: "patchParameter d n v = Inr d' \<Longrightarrow> cache_ok d'"
  by (auto simp: patchParameter_def cache_ok_def Let_def split: prod.splits)

lemma render_mk: "render (mk_descriptor (m_category d) (m_type d) (m_params d)) = render d"
  by (simp add: render_def mk_descriptor_def)

section \<open>Round trip of the text form\<close>

lemma category_of_int_of_category:
  "(\<And>i. c = WTF_Unnamed i \<Longrightarrow> i < 0 \<or> 4 < i) \<Longrightarrow> category_of_int (int_of_category c) = c"
  by (cases c) (force simp: category_of_int_def)+

text \<open>
  A category that prints without a sign and that is not a disguised named one; a type without
  an opening parenthesis: this is what the sources construct.
\<close>

definition serializable :: "EventActionDescriptor \<Rightarrow> bool" where
  "serializable d =
     (0 \<le> int_of_category (m_category d)
      \<and> category_of_int (int_of_category (m_category d)) = m_category d
      \<and> CHR ''('' \<notin> set (m_type d))"

lemma int_dec_nonneg_digits: "0 \<le> i \<Longrightarrow> c \<in> set (int_dec i) \<Longrightarrow> is_digit c"
  by (auto simp: int_dec_def dest: nat_dec_digits)

lemma deserialize_render:
  assumes "serializable d"
  shows "deserialize (render d) = Inr (mk_descriptor (m_category d) (m_type d) (m_params d))"
proof -
  define cat where "cat = int_dec (int_of_category (m_category d))"
  have digits: "is_digit c" if "c \<in> set cat" for c
    using that assms by (auto simp: cat_def serializable_def dest: int_dec_nonneg_digits)
  have raw: "render d = cat @ CHR ''-'' # m_type d @ CHR ''('' # m_params d @ '')''"
    by (simp add: render_def cat_def)
  have dash: "find_char (CHR ''-'') (render d) = Some (length cat)"
    unfolding raw using digits by (intro find_char_append) (auto dest!: digit_not_special)
  have "CHR ''('' \<notin> set (cat @ CHR ''-'' # m_type d)"
    using digits assms by (auto simp: serializable_def dest!: digit_not_special)
  then have paren: "find_char (CHR ''('') (render d) = Some (length (cat @ CHR ''-'' # m_type d))"
    using find_char_append [of "CHR ''(''" "cat @ CHR ''-'' # m_type d" "m_params d @ '')''"]
    by (simp add: raw)
  have "atoi cat = int_of_category (m_category d)"
    using atoi_int_dec [of "[]"] by (simp add: cat_def)
  then show ?thesis
    using assms dash paren
    by (simp add: deserialize_def substr_def raw serializable_def)
qed

lemma deserialize_toString:
  "cache_ok d \<Longrightarrow> serializable d \<Longrightarrow>
     deserialize (fst (toString d)) = Inr (mk_descriptor (m_category d) (m_type d) (m_params d))"
  by (simp add: toString_render deserialize_render)

lemma render_inject:
  assumes "serializable a" "serializable b" "render a = render b"
  shows "descriptor_eq a b"
proof -
  have "mk_descriptor (m_category a) (m_type a) (m_params a) =
        mk_descriptor (m_category b) (m_type b) (m_params b)"
    using assms(3) deserialize_render [OF assms(1)] deserialize_render [OF assms(2)] by simp
  then show ?thesis by (simp add: mk_descriptor_def descriptor_eq_def)
qed

section \<open>Parameters as a list\<close>

text \<open>The reference view of a parameter string: the list of the pieces between the commas.\<close>

fun split_commas :: "string \<Rightarrow> string list" where
  "split_commas [] = [[]]"
| "split_commas (c # cs) =
     (if c = CHR '','' then [] # split_commas cs
      else (case split_commas cs of [] \<Rightarrow> [[c]] | p # ps \<Rightarrow> (c # p) # ps))"

fun join_commas :: "string list \<Rightarrow> string" where
  "join_commas [] = []"
| "join_commas [p] = p"
| "join_commas (p # q # ps) = p @ CHR '','' # join_commas (q # ps)"

abbreviation comma_free :: "string \<Rightarrow> bool" where
  "comma_free p \<equiv> CHR '','' \<notin> set p"

lemma split_commas_nonempty [simp]: "split_commas s \<noteq> []"
  by (induction s) (auto split: list.splits)

lemma split_commas_comma_free: "p \<in> set (split_commas s) \<Longrightarrow> comma_free p"
  by (induction s arbitrary: p) (force split: if_splits list.splits)+

lemma join_commas_Cons: "ps \<noteq> [] \<Longrightarrow> join_commas (p # ps) = p @ CHR '','' # join_commas ps"
  by (cases ps) auto

lemma join_split [simp]: "join_commas (split_commas s) = s"
proof (induction s)
  case Nil
  then show ?case by simp
next
  case (Cons c s)
  obtain p ps where "split_commas s = p # ps"
    by (cases "split_commas s") auto
  with Cons show ?case
    by (cases ps) (auto simp: join_commas_Cons)
qed

lemma split_commas_append: "comma_free p \<Longrightarrow> split_commas (p @ CHR '','' # s) = p # split_commas s"
  by (induction p) auto

lemma split_commas_plain: "comma_free p \<Longrightarrow> split_commas p = [p]"
  by (induction p) auto

lemma split_join [simp]:
  "ps \<noteq> [] \<Longrightarrow> (\<And>p. p \<in> set ps \<Longrightarrow> comma_free p) \<Longrightarrow> split_commas (join_commas ps) = ps"
  by (induction ps rule: join_commas.induct) (auto simp: split_commas_append split_commas_plain)

text \<open>Where the \<open>n\<close>-th parameter starts.\<close>

definition param_offset :: "string list \<Rightarrow> nat \<Rightarrow> nat" where
  "param_offset ps n = (\<Sum>p \<leftarrow> take n ps. length p + 1)"

lemma param_offset_Suc:
  "n < length ps \<Longrightarrow> param_offset ps (Suc n) = param_offset ps n + length (ps ! n) + 1"
  by (simp add: param_offset_def take_Suc_conv_app_nth)

lemma join_commas_at:
  assumes "n < length ps"
  shows "drop (param_offset ps n) (join_commas ps) = join_commas (drop n ps)
    \<and> param_offset ps n \<le> length (join_commas ps)
    \<and> take (param_offset ps n) (join_commas ps) = concat (map (\<lambda>p. p @ '','') (take n ps))"
  using assms
proof (induction n arbitrary: ps)
  case 0
  then show ?case by (simp add: param_offset_def)
next
  case (Suc n)
  then obtain p qs where ps: "ps = p # qs" "qs \<noteq> []" by (cases ps; cases "tl ps") auto
  with Suc.prems have "n < length qs" by simp
  then show ?case
    using Suc.IH [of qs] ps by (simp add: param_offset_def join_commas_Cons)
qed

lemma param_end_le: "param_end params start \<le> length params"
  by (auto simp: param_end_def find_char_from_def split: option.splits dest!: find_char_SomeD)

lemma param_end_join:
  assumes "n < length ps" "\<And>p. p \<in> set ps \<Longrightarrow> comma_free p"
  shows "param_end (join_commas ps) (param_offset ps n) = param_offset ps n + length (ps ! n)"
proof -
  obtain p qs where d: "drop n ps = p # qs" "p = ps ! n"
    using assms(1) by (metis Cons_nth_drop_Suc)
  have "comma_free p" using assms by (simp add: d)
  note at = join_commas_at [OF assms(1)]
  show ?thesis
  proof (cases qs)
    case Nil
    then have "length (join_commas ps) - param_offset ps n = length p"
      using at d by (metis join_commas.simps(2) length_drop)
    moreover have "find_char (CHR '','') (join_commas (drop n ps)) = None"
      using Nil \<open>comma_free p\<close> d by simp
    ultimately show ?thesis
      using at d by (auto simp: param_end_def find_char_from_def)
  next
    case Cons
    then have "find_char (CHR '','') (join_commas (drop n ps)) = Some (length p)"
      using \<open>comma_free p\<close> d by (simp add: join_commas_Cons find_char_append)
    with at d show ?thesis by (simp add: param_end_def find_char_from_def)
  qed
qed

lemma param_end_last_iff:
  assumes "n < length ps"
  shows "param_offset ps n + length (ps ! n) = length (join_commas ps) \<longleftrightarrow> Suc n = length ps"
proof -
  obtain p qs where d: "drop n ps = p # qs" "p = ps ! n"
    using assms by (metis Cons_nth_drop_Suc)
  have len: "length (join_commas ps) = param_offset ps n + length (join_commas (p # qs))"
    using join_commas_at [OF assms] d by (metis le_add_diff_inverse length_drop)
  have "length qs = length ps - Suc n" using d(1) by (metis length_drop length_Cons diff_Suc_Suc Suc_diff_Suc assms diff_Suc_1)
  then show ?thesis
    using len d assms by (cases qs) auto
qed

lemma param_bounds_join:
  assumes "n < length ps" "\<And>p. p \<in> set ps \<Longrightarrow> comma_free p"
  shows "param_bounds (join_commas ps) n = Inr (param_offset ps n, param_offset ps n + length (ps ! n))"
  using assms(1)
proof (induction n)
  case 0
  then show ?case using param_end_join [OF 0 assms(2)] by (simp add: param_offset_def)
next
  case (Suc n)
  then have n: "n < length ps" by simp
  then show ?case
    using Suc param_end_join [OF Suc.prems assms(2)] param_end_last_iff [OF n]
    by (simp add: param_offset_Suc)
qed

lemma param_bounds_beyond:
  assumes "\<And>p. p \<in> set ps \<Longrightarrow> comma_free p" "ps \<noteq> []" "length ps \<le> n"
  shows "param_bounds (join_commas ps) n = Inl ASSERT_FAILED"
  using assms(3)
proof (induction n)
  case 0
  then show ?case using assms(2) by simp
next
  case (Suc n)
  show ?case
  proof (cases "length ps = Suc n")
    case True
    then have n: "n < length ps" by simp
    from param_bounds_join [OF n assms(1)] param_end_last_iff [OF n] True
    show ?thesis by simp
  next
    case False
    with Suc show ?thesis by simp
  qed
qed

lemma getParameter_split:
  "getParameter d n =
     (let ps = split_commas (m_params d) in if n < length ps then Inr (ps ! n) else Inl ASSERT_FAILED)"
proof -
  define ps where "ps = split_commas (m_params d)"
  have join: "join_commas ps = m_params d" and ne: "ps \<noteq> []"
    and free: "\<And>p. p \<in> set ps \<Longrightarrow> comma_free p"
    by (simp_all add: ps_def split_commas_comma_free)
  show ?thesis
  proof (cases "n < length ps")
    case True
    note at = join_commas_at [OF True] and dn = Cons_nth_drop_Suc [OF True, symmetric]
    have "take (length (ps ! n)) (join_commas (drop n ps)) = ps ! n"
      by (subst dn) (cases "drop (Suc n) ps"; simp add: join_commas_Cons)
    with param_bounds_join [OF True free] True at show ?thesis
      by (simp add: getParameter_def join ps_def [symmetric] substr_def)
  next
    case False
    with param_bounds_beyond [OF free ne] show ?thesis
      by (simp add: getParameter_def join ps_def [symmetric])
  qed
qed

lemma join_update:
  assumes "n < length ps"
  shows "take (param_offset ps n) (join_commas ps) @ v @
         drop (param_offset ps n + length (ps ! n)) (join_commas ps) = join_commas (ps[n := v])"
  using assms
proof (induction n arbitrary: ps)
  case 0
  then obtain p qs where "ps = p # qs" by (cases ps) auto
  then show ?case by (cases qs) (auto simp: param_offset_def)
next
  case (Suc n)
  then obtain p qs where ps: "ps = p # qs" "qs \<noteq> []" by (cases ps; cases "tl ps") auto
  with Suc.prems have n: "n < length qs" by simp
  have "qs[n := v] \<noteq> []" using ps by simp
  then show ?case
    using Suc.IH [OF n] ps by (simp add: param_offset_def join_commas_Cons)
qed

lemma patchParameter_split:
  assumes "cache_ok d"
  shows "patchParameter d n v =
     (let ps = split_commas (m_params d) in
      if n < length ps
      then Inr (d\<lparr>m_params := join_commas (ps[n := v]), m_patched := True, m_full_cache := [],
                  m_unpatchedString := render d\<rparr>)
      else Inl ASSERT_FAILED)"
proof -
  define ps where "ps = split_commas (m_params d)"
  have join: "join_commas ps = m_params d" and ne: "ps \<noteq> []"
    and free: "\<And>p. p \<in> set ps \<Longrightarrow> comma_free p"
    by (simp_all add: ps_def split_commas_comma_free)
  show ?thesis
  proof (cases "n < length ps")
    case True
    have "param_offset ps n + length (ps ! n) \<le> length (m_params d)"
      using param_end_join [OF True free] param_end_le [of "m_params d"] join by metis
    with param_bounds_join [OF True free] True join_update [OF True, of v] join_commas_at [OF True] assms
    show ?thesis
      by (simp add: patchParameter_def toString_render join ps_def [symmetric] substr_def)
  next
    case False
    with param_bounds_beyond [OF free ne] assms show ?thesis
      by (simp add: patchParameter_def toString_render join ps_def [symmetric])
  qed
qed

lemma escapeParam_comma_free [simp]: "comma_free (escapeParam p)"
  by (auto simp: escapeParam_def)

lemma escapeParam_id: "comma_free p \<Longrightarrow> escapeParam p = p"
  by (induction p) (auto simp: escapeParam_def)

section \<open>Schedule files\<close>

text \<open>A schedule item that the line format can carry.\<close>

definition item_ok :: "EventActionScheduleItem \<Rightarrow> bool" where
  "item_ok it = (cache_ok (snd it) \<and> serializable (snd it)
     \<and> newline \<notin> set (m_type (snd it)) \<and> newline \<notin> set (m_params (snd it)))"

definition item_line :: "EventActionScheduleItem \<Rightarrow> string" where
  "item_line it = int_dec (fst it) @ '';'' @ render (snd it)"

lemma int_dec_no_special: "c \<in> set (int_dec i) \<Longrightarrow> c \<noteq> CHR '';'' \<and> c \<noteq> newline \<and> c \<noteq> CHR ''<''"
  by (drule int_dec_chars) (auto dest: digit_not_special)

lemma newline_not_in_render: "item_ok it \<Longrightarrow> newline \<notin> set (render (snd it))"
  using int_dec_no_special by (auto simp: render_def item_ok_def)

lemma newline_not_in_item_line: "item_ok it \<Longrightarrow> newline \<notin> set (item_line it)"
  using int_dec_no_special newline_not_in_render by (auto simp: item_line_def)

lemma schedule_serialize_lines:
  "(\<And>it. it \<in> set s \<Longrightarrow> item_ok it) \<Longrightarrow>
     fst (schedule_serialize s) = concat (map (\<lambda>it. item_line it @ [newline]) s)"
proof (induction s)
  case (Cons it s)
  then have "item_ok it" by simp
  then show ?case
    using Cons by (cases it) (auto simp: serialize_def toString_render item_ok_def item_line_def
                              split: prod.splits)
qed simp

lemma schedule_line_item:
  assumes "item_ok it"
  shows "schedule_line (item_line it) =
     Inr [(fst it, mk_descriptor (m_category (snd it)) (m_type (snd it)) (m_params (snd it)))]"
proof -
  have head: "hd (item_line it) \<noteq> CHR ''<''" "item_line it \<noteq> []"
    using int_dec_no_special [of "hd (int_dec (fst it))" "fst it"] by (auto simp: item_line_def)
  then have "item_line it \<noteq> ''<relax>''" "item_line it \<noteq> ''<change>''" by auto
  moreover have "getline (CHR '';'') (item_line it) = (int_dec (fst it), render (snd it), False)"
  proof -
    have "CHR '';'' \<notin> set (int_dec (fst it))" using int_dec_no_special by blast
    then show ?thesis by (simp add: item_line_def)
  qed
  moreover have "getline newline (render (snd it)) = (render (snd it), [], True)"
    using newline_not_in_render [OF assms] by simp
  ultimately show ?thesis
    using assms head atoi_int_dec [of "[]"]
    by (simp add: schedule_line_def item_ok_def deserialize_render)
qed

lemma schedule_deserialize_Nil [simp]: "schedule_deserialize [] = Inr []"
  by (subst schedule_deserialize.simps) (simp add: schedule_line_def)

lemma schedule_deserialize_line:
  assumes "newline \<notin> set l" "schedule_line l = Inr items"
  shows "schedule_deserialize (l @ newline # rest) =
           bindR (schedule_deserialize rest) (\<lambda>more. Inr (items @ more))"
  by (subst schedule_deserialize.simps) (simp add: assms)

lemma schedule_deserialize_lines:
  "(\<And>it. it \<in> set s \<Longrightarrow> item_ok it) \<Longrightarrow>
     schedule_deserialize (concat (map (\<lambda>it. item_line it @ [newline]) s)) =
       Inr (map (\<lambda>it. (fst it, mk_descriptor (m_category (snd it)) (m_type (snd it)) (m_params (snd it)))) s)"
  by (induction s) (auto simp: schedule_deserialize_line newline_not_in_item_line schedule_line_item)

section \<open>The contract of the component\<close>



text \<open>
  two descriptors have the same text exactly when they are equal (category, type and
  parameters), so the text can be used as the key of the register and of the arcs files.
\<close>

theorem descriptor_text_identifies:
  assumes "cache_ok a" "serializable a" "cache_ok b" "serializable b"
  shows "fst (toString a) = fst (toString b) \<longleftrightarrow> descriptor_eq a b"
  using assms render_inject [of a b] by (auto simp: toString_render descriptor_eq_def render_def)

theorem descriptor_text_identifies_witness:
  "fst (toString (mk_descriptor WTF_TIMER ''a'' ''1'')) \<noteq> fst (toString (mk_descriptor WTF_TIMER ''a'' ''1,2''))"
  using descriptor_text_identifies
    [of "mk_descriptor WTF_TIMER ''a'' ''1''" "mk_descriptor WTF_TIMER ''a'' ''1,2''"]
  by (simp add: serializable_def mk_descriptor_def cache_ok_def category_of_int_def descriptor_eq_def)

text \<open>
  patching a parameter with a text that has no comma changes that parameter and no other,
  leaves their number, the category and the type alone, and the unpatched text stays the text
  before the patch; a parameter that does not exist is an assertion failure.
\<close>

theorem patchParameter_correct:
  assumes "cache_ok d" "comma_free v"
  shows "if n < length (split_commas (m_params d))
     then \<exists>d'. patchParameter d n v = Inr d'
       \<and> getParameter d' n = Inr v
       \<and> (\<forall>k. k \<noteq> n \<longrightarrow> getParameter d' k = getParameter d k)
       \<and> m_category d' = m_category d \<and> m_type d' = m_type d
       \<and> fst (toUnpatchedString d') = fst (toString d)
     else patchParameter d n v = Inl ASSERT_FAILED"
proof (cases "n < length (split_commas (m_params d))")
  case True
  let ?ps = "split_commas (m_params d)"
  have "split_commas (join_commas (?ps[n := v])) = ?ps[n := v]"
    using assms(2) split_commas_comma_free by (intro split_join) (auto dest!: set_update_subset_insert [THEN subsetD])
  then show ?thesis
    using True assms(1)
    by (auto simp: patchParameter_split Let_def getParameter_split toUnpatchedString_def toString_render nth_list_update)
qed (use assms(1) in \<open>simp add: patchParameter_split Let_def\<close>)

theorem patchParameter_correct_witness:
  "\<exists>d'. patchParameter (mk_descriptor WTF_TIMER ''DOMTimer'' ''u,3,4'') 1 ''77'' = Inr d'
     \<and> getParameter d' 1 = Inr ''77'' \<and> getParameter d' 0 = Inr ''u''
     \<and> fst (toUnpatchedString d') = ''1-DOMTimer(u,3,4)''"
proof -
  let ?d = "mk_descriptor WTF_TIMER ''DOMTimer'' ''u,3,4''"
  have "1 < length (split_commas (m_params ?d))" "getParameter ?d 0 = Inr ''u''"
    "fst (toString ?d) = ''1-DOMTimer(u,3,4)''" by code_simp+
  then show ?thesis using patchParameter_correct [of ?d "''77''" 1] by auto
qed

end
