(* ===== verification/Happens_Before.thy ===== *)
theory Happens_Before
  imports Action_Log_Report
begin

text \<open>
  The happens-before recorder (\<open>Source/WebCore/platform/EventActionHappensBefore\<close> and its reporting
  functions): it numbers event actions, tracks the current one, and writes arcs between them to
  the action log, each pair once. The lemmas show that the recorded relation is acyclic, that user
  interface actions form a chain, and what a join records. The locale \<open>arc_recorder\<close> is the contract
  that the chain and the join rely on.
\<close>

section \<open>Operations\<close>

text \<open>The fields of \<open>EventActionsHB\<close> and the log of the thread, to which it writes.\<close>

record hb_state =
  hb_currentEventActionId :: int
  hb_nextEventActionId :: int
  hb_lastUIEventAction :: int
  hb_lastEventAction :: int
  hb_numDisabledInstrumentationRequests :: int
  hb_hbarcs_unique :: "(int \<times> int) list"
  hb_log :: log_data

definition new_hb_state :: hb_state where
  "new_hb_state = \<lparr>hb_currentEventActionId = 0, hb_nextEventActionId = 1, hb_lastUIEventAction = 0,
     hb_lastEventAction = 0, hb_numDisabledInstrumentationRequests = 0, hb_hbarcs_unique = [],
     hb_log = new_log_data\<rparr>"

definition allocateEventActionId :: "hb_state \<Rightarrow> int \<times> hb_state" where
  "allocateEventActionId s = (hb_nextEventActionId s, s\<lparr>hb_nextEventActionId := hb_nextEventActionId s + 1\<rparr>)"

text \<open>The three getters crash whatever the mode.\<close>

definition get_currentEventAction :: "hb_state \<Rightarrow> int result" where
  "get_currentEventAction s = (if hb_currentEventActionId s = 0 then Inl CRASH else Inr (hb_currentEventActionId s))"

definition get_lastEventAction :: "hb_state \<Rightarrow> int result" where
  "get_lastEventAction s = (if hb_lastEventAction s = 0 then Inl CRASH else Inr (hb_lastEventAction s))"

definition get_lastUIEventAction :: "hb_state \<Rightarrow> int result" where
  "get_lastUIEventAction s = (if hb_lastUIEventAction s = 0 then Inl CRASH else Inr (hb_lastUIEventAction s))"

definition isCurrentEventActionValid :: "hb_state \<Rightarrow> bool" where
  "isCurrentEventActionValid s = (hb_currentEventActionId s \<noteq> 0)"

definition isLastUIEventActionValid :: "hb_state \<Rightarrow> bool" where
  "isLastUIEventActionValid s = (hb_lastUIEventAction s \<noteq> 0)"

text \<open>The part that \<open>addExplicitArc\<close> and \<open>addTimedArc\<close> share: a pair is written once.\<close>

definition record_arc :: "int \<Rightarrow> int \<Rightarrow> int \<Rightarrow> hb_state \<Rightarrow> hb_state result" where
  "record_arc earlier later duration s =
     (if (earlier, later) \<notin> set (hb_hbarcs_unique s)
      then bindR (ActionLogAddArc earlier later duration (hb_log s)) (\<lambda>l.
             Inr (s\<lparr>hb_hbarcs_unique := (earlier, later) # hb_hbarcs_unique s, hb_log := l\<rparr>))
      else Inr s)"

definition addExplicitArc :: "int \<Rightarrow> int \<Rightarrow> hb_state \<Rightarrow> hb_state result" where
  "addExplicitArc earlier later s =
     (if (earlier \<le> 0 \<or> later \<le> 0 \<or> earlier = later) \<and> ActionLogInStrictMode (hb_log s) then Inl CRASH
      else record_arc earlier later (-1) s)"

text \<open>\<open>duration_ms\<close> is the \<open>int\<close> to which the \<open>double\<close> \<open>duration * 1000\<close> converts.\<close>

definition addTimedArc :: "int \<Rightarrow> int \<Rightarrow> int \<Rightarrow> hb_state \<Rightarrow> hb_state result" where
  "addTimedArc earlier later duration_ms s =
     (if (earlier \<le> 0 \<or> later \<le> 0) \<and> ActionLogInStrictMode (hb_log s) then Inl CRASH
      else record_arc earlier later duration_ms s)"

definition setCurrentEventAction :: "int \<Rightarrow> EventActionType \<Rightarrow> hb_state \<Rightarrow> hb_state result" where
  "setCurrentEventAction newEventActionId ty s =
     bindR (ActionLogEnterOperation newEventActionId ty (hb_log s)) (\<lambda>l.
       let s1 = s\<lparr>hb_currentEventActionId := newEventActionId, hb_log := l\<rparr> in
       if ty = EA_USER_INTERFACE
       then bindR (if hb_lastUIEventAction s1 \<noteq> 0
                   then addExplicitArc (hb_lastUIEventAction s1) newEventActionId s1 else Inr s1) (\<lambda>s2.
              Inr (s2\<lparr>hb_lastUIEventAction := newEventActionId\<rparr>))
       else Inr s1)"

definition setCurrentEventActionInvalid :: "bool \<Rightarrow> hb_state \<Rightarrow> hb_state result" where
  "setCurrentEventActionInvalid commit s =
     bindR (ActionLogExitOperation (hb_log s)) (\<lambda>l.
       Inr (s\<lparr>hb_log := l,
              hb_lastEventAction := (if commit then hb_currentEventActionId s else hb_lastEventAction s),
              hb_currentEventActionId := 0\<rparr>))"

definition checkInValidEventAction :: "hb_state \<Rightarrow> unit result" where
  "checkInValidEventAction s =
     (if hb_currentEventActionId s = 0 \<and> ActionLogInStrictMode (hb_log s) then Inl CRASH else Inr ())"

definition checkValidLastEventAction :: "hb_state \<Rightarrow> unit result" where
  "checkValidLastEventAction s =
     (if hb_lastEventAction s = 0 \<and> ActionLogInStrictMode (hb_log s) then Inl CRASH else Inr ())"

definition addDisableInstrumentationRequest :: "hb_state \<Rightarrow> hb_state" where
  "addDisableInstrumentationRequest s =
     s\<lparr>hb_numDisabledInstrumentationRequests := hb_numDisabledInstrumentationRequests s + 1\<rparr>"

definition removeDisableInstrumentationRequest :: "hb_state \<Rightarrow> hb_state" where
  "removeDisableInstrumentationRequest s =
     s\<lparr>hb_numDisabledInstrumentationRequests := hb_numDisabledInstrumentationRequests s - 1\<rparr>"

definition isInstrumentationDisabled :: "hb_state \<Rightarrow> bool" where
  "isInstrumentationDisabled s = (hb_numDisabledInstrumentationRequests s > 0)"

subsection \<open>Reporting functions\<close>

definition HBCurrentOrLastEventAction :: "hb_state \<Rightarrow> int result" where
  "HBCurrentOrLastEventAction s =
     (if isCurrentEventActionValid s then get_currentEventAction s
      else bindR (checkValidLastEventAction s) (\<lambda>_. get_lastEventAction s))"

definition HBCurrentEventAction :: "hb_state \<Rightarrow> int result" where
  "HBCurrentEventAction s = bindR (checkInValidEventAction s) (\<lambda>_. get_currentEventAction s)"

definition HBAllocateEventActionId :: "hb_state \<Rightarrow> int \<times> hb_state" where
  "HBAllocateEventActionId s = allocateEventActionId s"

definition HBEnterEventAction :: "int \<Rightarrow> EventActionType \<Rightarrow> hb_state \<Rightarrow> hb_state result" where
  "HBEnterEventAction i ty s = setCurrentEventAction i ty s"

definition HBExitEventAction :: "bool \<Rightarrow> hb_state \<Rightarrow> hb_state result" where
  "HBExitEventAction commit s = setCurrentEventActionInvalid commit s"

definition HBIsCurrentEventActionValid :: "hb_state \<Rightarrow> bool" where
  "HBIsCurrentEventActionValid s = isCurrentEventActionValid s"

definition HBIsLastUIEventActionValid :: "hb_state \<Rightarrow> bool" where
  "HBIsLastUIEventActionValid s = isLastUIEventActionValid s"

definition HBAddExplicitArc :: "int \<Rightarrow> int \<Rightarrow> hb_state \<Rightarrow> hb_state result" where
  "HBAddExplicitArc earlier later s = (if earlier \<noteq> later then addExplicitArc earlier later s else Inr s)"

definition HBAddTimedArc :: "int \<Rightarrow> int \<Rightarrow> int \<Rightarrow> hb_state \<Rightarrow> hb_state result" where
  "HBAddTimedArc earlier later duration_ms s =
     (if earlier \<noteq> later then addTimedArc earlier later duration_ms s else Inr s)"

definition HBLastUIEventAction :: "hb_state \<Rightarrow> int result" where
  "HBLastUIEventAction s = get_lastUIEventAction s"

text \<open>\<open>MultiJoinHappensBefore\<close>: the linked list of ended threads, newest first.\<close>

record MultiJoin =
  m_joined :: bool
  m_endThreads :: "int list"

definition new_MultiJoin :: MultiJoin where
  "new_MultiJoin = \<lparr>m_joined = False, m_endThreads = []\<rparr>"

definition join_clear :: "MultiJoin \<Rightarrow> MultiJoin" where
  "join_clear J = J\<lparr>m_endThreads := []\<rparr>"

definition threadEndAction :: "hb_state \<Rightarrow> MultiJoin \<Rightarrow> MultiJoin result" where
  "threadEndAction s J =
     bindR (checkInValidEventAction s) (\<lambda>_.
     bindR (HBCurrentEventAction s) (\<lambda>i. Inr (J\<lparr>m_endThreads := i # m_endThreads J\<rparr>)))"

fun join_arcs :: "int list \<Rightarrow> int \<Rightarrow> hb_state \<Rightarrow> hb_state result" where
  "join_arcs [] joinSlice s = Inr s"
| "join_arcs (i # is) joinSlice s =
     bindR (if i \<noteq> joinSlice then addExplicitArc i joinSlice s else Inr s) (join_arcs is joinSlice)"

definition joinAction :: "MultiJoin \<Rightarrow> hb_state \<Rightarrow> (MultiJoin \<times> hb_state) result" where
  "joinAction J s =
     (let J1 = J\<lparr>m_joined := True\<rparr> in
      if m_endThreads J = [] then Inr (J1, s)
      else bindR (checkInValidEventAction s) (\<lambda>_.
           bindR (get_currentEventAction s) (\<lambda>joinSlice.
           bindR (join_arcs (m_endThreads J) joinSlice s) (\<lambda>s'. Inr (J1, s')))))"

section \<open>The contract of an arc recorder\<close>

text \<open>
  A recorder keeps a list of arcs. A successful recording adds the arc and nothing else, arcs only
  go forward, and none is written twice.
\<close>

locale arc_recorder =
  fixes add_arc :: "int \<Rightarrow> int \<Rightarrow> 's \<Rightarrow> 's result"
    and arcs_of :: "'s \<Rightarrow> (int \<times> int) list"
    and inv_a :: "'s \<Rightarrow> bool"
  assumes add_inv: "inv_a s \<Longrightarrow> add_arc a b s = Inr s' \<Longrightarrow> inv_a s'"
    and add_arcs: "inv_a s \<Longrightarrow> add_arc a b s = Inr s' \<Longrightarrow> set (arcs_of s') = insert (a, b) (set (arcs_of s))"
    and arcs_forward: "inv_a s \<Longrightarrow> (a, b) \<in> set (arcs_of s) \<Longrightarrow> a < b"
    and arcs_distinct: "inv_a s \<Longrightarrow> distinct (arcs_of s)"
begin

lemma arcs_trancl_forward: "inv_a s \<Longrightarrow> (a, b) \<in> (set (arcs_of s))\<^sup>+ \<Longrightarrow> a < b"
  by (erule trancl_induct) (auto dest: arcs_forward)

lemma arcs_acyclic: "inv_a s \<Longrightarrow> acyclic (set (arcs_of s))"
  by (auto simp: acyclic_def dest: arcs_trancl_forward)

text \<open>A chain that is extended by recording an arc from its last element to a new one.\<close>

lemma chain_extend:
  assumes "inv_a s" "successively (\<lambda>a b. (a, b) \<in> set (arcs_of s)) us" "us = [] \<or> add_arc (last us) u s = Inr s'"
    "us = [] \<Longrightarrow> s' = s"
  shows "successively (\<lambda>a b. (a, b) \<in> set (arcs_of s')) (us @ [u])"
proof (cases "us = []")
  case False
  then have "set (arcs_of s') = insert (last us, u) (set (arcs_of s))" using assms(1,3) add_arcs by blast
  then show ?thesis
    using assms(2) by (auto simp: successively_append_iff elim: successively_mono)
qed simp

lemma chain_ordered:
  "successively (\<lambda>a b. (a, b) \<in> set (arcs_of s)) us \<Longrightarrow> i < j \<Longrightarrow> j < length us \<Longrightarrow>
     (us ! i, us ! j) \<in> (set (arcs_of s))\<^sup>+"
proof (induction j)
  case (Suc j)
  then have step: "(us ! j, us ! Suc j) \<in> set (arcs_of s)" by (simp add: successively_conv_nth)
  show ?case
  proof (cases "i = j")
    case False
    with Suc have "(us ! i, us ! j) \<in> (set (arcs_of s))\<^sup>+" by simp
    from this step show ?thesis by (rule trancl_into_trancl)
  qed (use step in auto)
qed simp

end

section \<open>The recorder keeps the contract\<close>

definition hb_arcs :: "hb_state \<Rightarrow> (int \<times> int) list" where
  "hb_arcs s = map (\<lambda>a. (m_tail a, m_head a)) (m_arcs (actionLog (hb_log s)))"

definition hb_inv :: "hb_state \<Rightarrow> bool" where
  "hb_inv s = ((\<forall>(a, b) \<in> set (hb_arcs s). a < b \<and> (a, b) \<in> set (hb_hbarcs_unique s)) \<and> distinct (hb_arcs s))"

text \<open>While strict mode is never left, the remembered pairs are exactly the logged ones.\<close>

definition hb_strict_inv :: "hb_state \<Rightarrow> bool" where
  "hb_strict_inv s = (hb_inv s \<and> strict_mode (hb_log s) \<and> set (hb_hbarcs_unique s) = set (hb_arcs s))"

lemma hb_inv_new [r4_inv]: "hb_inv new_hb_state" "hb_strict_inv new_hb_state"
  by (simp_all add: hb_inv_def hb_strict_inv_def hb_arcs_def new_hb_state_def new_log_data_def new_ActionLog_def)

lemma record_arc_inv:
  assumes "hb_inv s" "record_arc a b d s = Inr s'"
  shows "hb_inv s'"
  using assms
  by (force simp: record_arc_def hb_inv_def hb_arcs_def ActionLogAddArc_def addArc_def split: if_splits)

lemma record_arc_strict:
  assumes "hb_strict_inv s" "record_arc a b d s = Inr s'"
  shows "hb_strict_inv s'" "set (hb_arcs s') = insert (a, b) (set (hb_arcs s))"
  using assms record_arc_inv [of s a b d s']
  by (auto simp: hb_strict_inv_def record_arc_def hb_arcs_def ActionLogAddArc_def addArc_def split: if_splits)

lemma addExplicitArc_record: "addExplicitArc a b s = Inr s' \<Longrightarrow> record_arc a b (-1) s = Inr s'"
  by (simp add: addExplicitArc_def split: if_splits)

interpretation hb: arc_recorder addExplicitArc hb_arcs hb_strict_inv
  by unfold_locales
    (auto dest!: addExplicitArc_record intro: record_arc_strict(1) simp: record_arc_strict(2),
     auto simp: hb_strict_inv_def hb_inv_def)

text \<open>No other operation of the log touches its arcs or the mode.\<close>

definition same_arcs :: "log_data \<Rightarrow> log_data \<Rightarrow> bool" where
  "same_arcs s s' = (m_arcs (actionLog s') = m_arcs (actionLog s) \<and> strict_mode s' = strict_mode s)"

lemma logCommand_arcs: "logCommand c l L = Inr (b, L') \<Longrightarrow> m_arcs L' = m_arcs L"
  by (auto simp: logCommand_def push_command_def Let_def store_action_def split: if_splits)

lemma checked_same_arcs:
  "checked s r = Inr s' \<Longrightarrow> (\<And>b L. r = Inr (b, L) \<Longrightarrow> m_arcs L = m_arcs (actionLog s)) \<Longrightarrow> same_arcs s s'"
  by (auto simp: checked_def same_arcs_def split: if_splits)

lemma enter_same_arcs: "ActionLogEnterOperation i t s = Inr s' \<Longrightarrow> same_arcs s s'"
  unfolding ActionLogEnterOperation_def
  by (erule checked_same_arcs)
    (auto simp: setEventActionType_def startEventAction_def store_action_def split: if_splits)

lemma exit_same_arcs: "ActionLogExitOperation s = Inr s' \<Longrightarrow> same_arcs s s'"
  unfolding ActionLogExitOperation_def by (erule checked_same_arcs) (auto simp: endEventAction_def)

fun is_AddArc :: "report_call \<Rightarrow> bool" where
  "is_AddArc (R_AddArc a b d) = True"
| "is_AddArc _ = False"

lemma logged_same_arcs:
  "checked s (logCommand k l (actionLog s)) = Inr s' \<Longrightarrow> same_arcs s s'"
  by (erule checked_same_arcs) (auto dest: logCommand_arcs)

lemma report_step_same_arcs:
  assumes "report_step H c s = Inr s'" "\<not> is_AddArc c"
  shows "same_arcs s s'"
proof -
  have put: "same_arcs s s'" if "checked (s\<lparr>scopeSet := S\<rparr>) (logCommand k l (actionLog s)) = Inr s'
      \<or> checked (s\<lparr>dataSet := S\<rparr>) (logCommand k l (actionLog s)) = Inr s'
      \<or> checked (s\<lparr>variableSet := S\<rparr>) (logCommand k l (actionLog s)) = Inr s'" for S k l
    using that logged_same_arcs [of "s\<lparr>scopeSet := S\<rparr>" k l s'] logged_same_arcs [of "s\<lparr>dataSet := S\<rparr>" k l s']
      logged_same_arcs [of "s\<lparr>variableSet := S\<rparr>" k l s'] by (auto simp: same_arcs_def)
  show ?thesis
    using assms
  proof (cases c)
    case (R_Enter i t)
    then show ?thesis using assms enter_same_arcs by simp
  next
    case R_Exit
    then show ?thesis using assms exit_same_arcs by simp
  next
    case (R_Trigger e)
    then show ?thesis using assms
      by (auto simp: ActionLogTriggerEvent_def triggerEvent_def Let_def store_action_def same_arcs_def split: if_splits)
  next
    case (R_Triggered e)
    then show ?thesis using assms
      by (auto simp: ActionLogEventTriggered_def eventTriggered_def Let_def store_action_def same_arcs_def
          split: if_splits option.splits)
  next
    case (R_RegisterSource t)
    then show ?thesis using assms by (auto simp: ActionLogRegisterSource_def same_arcs_def)
  qed (auto simp: ActionLogScopeStart_def enterScope_def ActionLogScopeEnd_def exitScope_def ActionLogFormat_def
      ActionLogFormatV_def Let_def ActionLogReportMemoryValue_def ActionLogAddArcEvent_def
      split: if_splits intro: put logged_same_arcs)
qed

section \<open>Sequences of calls\<close>

datatype hb_call =
  HB_allocate | HB_enter int EventActionType | HB_exit bool | HB_arc int int | HB_timed int int int
  | HB_log report_call | HB_strict bool

fun hb_step :: "string_hash \<Rightarrow> hb_call \<Rightarrow> hb_state \<Rightarrow> hb_state result" where
  "hb_step H HB_allocate s = Inr (snd (HBAllocateEventActionId s))"
| "hb_step H (HB_enter i t) s = HBEnterEventAction i t s"
| "hb_step H (HB_exit c) s = HBExitEventAction c s"
| "hb_step H (HB_arc a b) s = HBAddExplicitArc a b s"
| "hb_step H (HB_timed a b d) s = HBAddTimedArc a b d s"
| "hb_step H (HB_log c) s = bindR (report_step H c (hb_log s)) (\<lambda>l. Inr (s\<lparr>hb_log := l\<rparr>))"
| "hb_step H (HB_strict b) s = Inr (s\<lparr>hb_log := ActionLogStrictMode b (hb_log s)\<rparr>)"

fun hb_calls :: "string_hash \<Rightarrow> hb_call list \<Rightarrow> hb_state \<Rightarrow> hb_state result" where
  "hb_calls H [] s = Inr s"
| "hb_calls H (c # cs) s = bindR (hb_step H c s) (hb_calls H cs)"

text \<open>Arcs are written only through the recorder.\<close>

fun through_recorder :: "hb_call \<Rightarrow> bool" where
  "through_recorder (HB_log c) = (\<not> is_AddArc c)"
| "through_recorder _ = True"

fun is_strict_call :: "hb_call \<Rightarrow> bool" where
  "is_strict_call (HB_strict b) = b"
| "is_strict_call c = through_recorder c"

lemma hb_inv_frame:
  "same_arcs (hb_log s) l \<Longrightarrow> hb_inv s \<Longrightarrow> hb_inv (s\<lparr>hb_log := l\<rparr>)"
  "same_arcs (hb_log s) l \<Longrightarrow> hb_strict_inv s \<Longrightarrow> hb_strict_inv (s\<lparr>hb_log := l\<rparr>)"
  "same_arcs (hb_log s) l \<Longrightarrow> hb_arcs (s\<lparr>hb_log := l\<rparr>) = hb_arcs s"
  by (simp_all add: hb_inv_def hb_strict_inv_def hb_arcs_def same_arcs_def)

lemma hb_inv_fields [simp]:
  "hb_inv (s\<lparr>hb_currentEventActionId := x\<rparr>) = hb_inv s" "hb_inv (s\<lparr>hb_nextEventActionId := x\<rparr>) = hb_inv s"
  "hb_inv (s\<lparr>hb_lastUIEventAction := x\<rparr>) = hb_inv s" "hb_inv (s\<lparr>hb_lastEventAction := x\<rparr>) = hb_inv s"
  "hb_strict_inv (s\<lparr>hb_currentEventActionId := x\<rparr>) = hb_strict_inv s"
  "hb_strict_inv (s\<lparr>hb_nextEventActionId := x\<rparr>) = hb_strict_inv s"
  "hb_strict_inv (s\<lparr>hb_lastUIEventAction := x\<rparr>) = hb_strict_inv s"
  "hb_strict_inv (s\<lparr>hb_lastEventAction := x\<rparr>) = hb_strict_inv s"
  "hb_arcs (s\<lparr>hb_currentEventActionId := x\<rparr>) = hb_arcs s" "hb_arcs (s\<lparr>hb_nextEventActionId := x\<rparr>) = hb_arcs s"
  "hb_arcs (s\<lparr>hb_lastUIEventAction := x\<rparr>) = hb_arcs s" "hb_arcs (s\<lparr>hb_lastEventAction := x\<rparr>) = hb_arcs s"
  by (simp_all add: hb_inv_def hb_strict_inv_def hb_arcs_def)

lemma hb_inv_mode [simp]:
  "hb_inv (s\<lparr>hb_log := ActionLogStrictMode b (hb_log s)\<rparr>) = hb_inv s"
  "hb_arcs (s\<lparr>hb_log := ActionLogStrictMode b (hb_log s)\<rparr>) = hb_arcs s"
  "hb_strict_inv s \<Longrightarrow> hb_strict_inv (s\<lparr>hb_log := ActionLogStrictMode True (hb_log s)\<rparr>)"
  by (simp_all add: hb_inv_def hb_strict_inv_def hb_arcs_def ActionLogStrictMode_def)

lemma hb_step_inv:
  assumes "hb_inv s" "through_recorder c" "hb_step H c s = Inr s'"
  shows "hb_inv s'"
proof (cases c)
  case (HB_enter i t)
  then obtain l where l: "ActionLogEnterOperation i t (hb_log s) = Inr l"
    using assms(3) by (auto simp: HBEnterEventAction_def setCurrentEventAction_def)
  have "hb_inv (s\<lparr>hb_currentEventActionId := i, hb_log := l\<rparr>)"
    using hb_inv_frame(1) [of "s\<lparr>hb_currentEventActionId := i\<rparr>" l] enter_same_arcs [OF l] assms(1) by simp
  then show ?thesis
    using assms(3) l HB_enter
    by (auto simp: HBEnterEventAction_def setCurrentEventAction_def Let_def split: if_splits
        dest!: addExplicitArc_record intro: record_arc_inv)
next
  case (HB_exit b)
  then obtain l where l: "ActionLogExitOperation (hb_log s) = Inr l"
    using assms(3) by (auto simp: HBExitEventAction_def setCurrentEventActionInvalid_def)
  from hb_inv_frame(1) [OF exit_same_arcs [OF l] assms(1)] assms(3) l HB_exit show ?thesis
    by (auto simp: HBExitEventAction_def setCurrentEventActionInvalid_def)
next
  case (HB_log r)
  then obtain l where l: "report_step H r (hb_log s) = Inr l" "s' = s\<lparr>hb_log := l\<rparr>" using assms(3) by auto
  with report_step_same_arcs [OF l(1)] assms HB_log show ?thesis by (auto intro: hb_inv_frame(1))
qed (use assms in \<open>auto simp: HBAllocateEventActionId_def allocateEventActionId_def HBAddExplicitArc_def
      HBAddTimedArc_def addTimedArc_def split: if_splits dest!: addExplicitArc_record intro: record_arc_inv\<close>)

lemma hb_calls_inv:
  "hb_inv s \<Longrightarrow> \<forall>c \<in> set cs. through_recorder c \<Longrightarrow> hb_calls H cs s = Inr s' \<Longrightarrow> hb_inv s'"
  by (induction cs arbitrary: s) (auto intro: hb_step_inv)

text \<open>
  C10: whatever calls are made on the happens-before recorder, in strict mode or not and even with
  invalid arguments, the arcs in the log all go from a smaller to a larger event action id, no pair
  is logged twice, and the happens-before relation they generate has no cycle.
\<close>

theorem happens_before_acyclic:
  assumes "\<forall>c \<in> set cs. through_recorder c" "hb_calls H cs new_hb_state = Inr s"
  shows "acyclic (set (hb_arcs s)) \<and> distinct (hb_arcs s) \<and> (\<forall>a b. (a, b) \<in> (set (hb_arcs s))\<^sup>+ \<longrightarrow> a < b)"
proof -
  have inv: "hb_inv s" using hb_calls_inv [OF hb_inv_new(1)] assms by blast
  have "a < b" if "(a, b) \<in> (set (hb_arcs s))\<^sup>+" for a b
    using that inv by (induction rule: trancl_induct) (fastforce simp: hb_inv_def)+
  then show ?thesis using inv by (auto simp: acyclic_def hb_inv_def)
qed

theorem happens_before_acyclic_witness:
  "\<exists>s. hb_calls (\<lambda>s. 0) [HB_strict False, HB_enter 1 EA_TIMER, HB_arc 2 1, HB_arc 1 2, HB_arc 1 2, HB_arc 5 5] new_hb_state = Inr s
     \<and> hb_arcs s = [(1, 2)] \<and> acyclic (set (hb_arcs s))"
proof -
  let ?cs = "[HB_strict False, HB_enter 1 EA_TIMER, HB_arc 2 1, HB_arc 1 2, HB_arc 1 2, HB_arc 5 5]"
  obtain s where s: "hb_calls (\<lambda>s. 0) ?cs new_hb_state = Inr s" "hb_arcs s = [(1, 2)]"
    by (simp add: new_hb_state_def HBEnterEventAction_def setCurrentEventAction_def ActionLogEnterOperation_def
        HBAddExplicitArc_def addExplicitArc_def record_arc_def ActionLogAddArc_def addArc_def Let_def
        ActionLogStrictMode_def ActionLogInStrictMode_def new_log_data_def new_ActionLog_def startEventAction_def
        setEventActionType_def checked_def action_at_def store_action_def hb_arcs_def)
  with happens_before_acyclic [OF _ s(1)] show ?thesis by auto
qed

text \<open>Ids are handed out in increasing order: no operation lowers the next one.\<close>

lemma record_arc_next: "record_arc a b d s = Inr s' \<Longrightarrow> hb_nextEventActionId s' = hb_nextEventActionId s"
  by (auto simp: record_arc_def split: if_splits)

lemma enter_next: "HBEnterEventAction i t s = Inr s' \<Longrightarrow> hb_nextEventActionId s' = hb_nextEventActionId s"
  by (auto simp: HBEnterEventAction_def setCurrentEventAction_def Let_def split: if_splits
      dest!: addExplicitArc_record dest: record_arc_next)

lemma exit_next: "HBExitEventAction c s = Inr s' \<Longrightarrow> hb_nextEventActionId s' = hb_nextEventActionId s"
  by (auto simp: HBExitEventAction_def setCurrentEventActionInvalid_def)

lemma hb_step_next: "hb_step H c s = Inr s' \<Longrightarrow> hb_nextEventActionId s \<le> hb_nextEventActionId s'"
  by (cases c) (auto simp: HBAllocateEventActionId_def allocateEventActionId_def HBAddExplicitArc_def HBAddTimedArc_def
      addTimedArc_def split: if_splits dest!: addExplicitArc_record dest: record_arc_next enter_next exit_next)

section \<open>User interface actions\<close>

fun ui_enter :: "hb_call \<Rightarrow> int list" where
  "ui_enter (HB_enter i t) = (if t = EA_USER_INTERFACE then [i] else [])"
| "ui_enter _ = []"

definition chain_inv :: "int list \<Rightarrow> hb_state \<Rightarrow> bool" where
  "chain_inv us s = (hb_strict_inv s \<and> successively (\<lambda>a b. (a, b) \<in> set (hb_arcs s)) us
     \<and> hb_lastUIEventAction s = (if us = [] then 0 else last us) \<and> 0 \<notin> set us)"

lemma chain_inv_fields [simp]:
  "chain_inv us (s\<lparr>hb_currentEventActionId := x\<rparr>) = chain_inv us s"
  "chain_inv us (s\<lparr>hb_nextEventActionId := x\<rparr>) = chain_inv us s"
  "chain_inv us (s\<lparr>hb_lastEventAction := x\<rparr>) = chain_inv us s"
  by (simp_all add: chain_inv_def)

lemma chain_inv_mono:
  assumes "chain_inv us s" "hb_strict_inv s'" "set (hb_arcs s) \<subseteq> set (hb_arcs s')"
    "hb_lastUIEventAction s' = hb_lastUIEventAction s"
  shows "chain_inv us s'"
  using assms by (auto simp: chain_inv_def elim: successively_mono)

lemma record_arc_chain:
  assumes "chain_inv us s" "record_arc a b d s = Inr s'"
  shows "chain_inv us s'"
proof (rule chain_inv_mono [OF assms(1)])
  have "hb_strict_inv s" using assms(1) by (simp add: chain_inv_def)
  from record_arc_strict [OF this assms(2)]
  show "hb_strict_inv s'" "set (hb_arcs s) \<subseteq> set (hb_arcs s')" by auto
  show "hb_lastUIEventAction s' = hb_lastUIEventAction s"
    using assms(2) by (auto simp: record_arc_def split: if_splits)
qed

lemma chain_log_step:
  assumes "chain_inv us s" "same_arcs (hb_log s) l"
  shows "chain_inv us (s\<lparr>hb_log := l\<rparr>)"
  using assms hb_inv_frame [OF assms(2)] by (simp add: chain_inv_def)

lemma chain_enter:
  assumes "chain_inv us s" "HBEnterEventAction i t s = Inr s'" "i \<noteq> 0"
  shows "chain_inv (us @ ui_enter (HB_enter i t)) s'"
proof -
  obtain l where l: "ActionLogEnterOperation i t (hb_log s) = Inr l"
    using assms(2) by (auto simp: HBEnterEventAction_def setCurrentEventAction_def)
  let ?s1 = "s\<lparr>hb_currentEventActionId := i, hb_log := l\<rparr>"
  have s1: "chain_inv us ?s1"
    using chain_log_step [of us "s\<lparr>hb_currentEventActionId := i\<rparr>" l] enter_same_arcs [OF l] assms(1) by simp
  show ?thesis
  proof (cases "t = EA_USER_INTERFACE")
    case False
    then show ?thesis using s1 assms(2) l by (auto simp: HBEnterEventAction_def setCurrentEventAction_def Let_def)
  next
    case True
    have last: "hb_lastUIEventAction s \<noteq> 0 \<longleftrightarrow> us \<noteq> []" "us \<noteq> [] \<Longrightarrow> hb_lastUIEventAction s = last us"
      using assms(1) last_in_set [of us] unfolding chain_inv_def by (metis, metis)
    from assms(2) l True last obtain s2 where s2: "us = [] \<or> addExplicitArc (last us) i ?s1 = Inr s2"
      "us = [] \<Longrightarrow> s2 = ?s1" "s' = s2\<lparr>hb_lastUIEventAction := i\<rparr>"
      by (cases "us = []") (auto simp: HBEnterEventAction_def setCurrentEventAction_def Let_def)
    have "successively (\<lambda>a b. (a, b) \<in> set (hb_arcs s2)) (us @ [i])"
      using s1 s2 by (intro hb.chain_extend [of ?s1]) (auto simp: chain_inv_def)
    moreover have "hb_strict_inv s2" using s1 s2 hb.add_inv by (cases "us = []") (auto simp: chain_inv_def)
    ultimately show ?thesis using s1 s2(3) True assms(3) by (simp add: chain_inv_def)
  qed
qed

fun entered_ids :: "hb_call \<Rightarrow> int list" where
  "entered_ids (HB_enter i t) = [i]"
| "entered_ids _ = []"

lemma hb_step_chain:
  assumes "chain_inv us s" "is_strict_call c" "0 \<notin> set (entered_ids c)" "hb_step H c s = Inr s'"
  shows "chain_inv (us @ ui_enter c) s'"
proof (cases c)
  case (HB_enter i t)
  then show ?thesis using assms chain_enter by auto
next
  case (HB_exit b)
  then obtain l where l: "ActionLogExitOperation (hb_log s) = Inr l"
    using assms(4) by (auto simp: HBExitEventAction_def setCurrentEventActionInvalid_def)
  from chain_log_step [OF assms(1) exit_same_arcs [OF l]] assms(4) l HB_exit show ?thesis
    by (auto simp: HBExitEventAction_def setCurrentEventActionInvalid_def)
next
  case (HB_log r)
  then obtain l where l: "report_step H r (hb_log s) = Inr l" "s' = s\<lparr>hb_log := l\<rparr>" using assms(4) by auto
  with chain_log_step [OF assms(1) report_step_same_arcs [OF l(1)]] assms(2) HB_log show ?thesis by simp
next
  case (HB_strict b)
  then show ?thesis using assms by (auto simp: chain_inv_def)
qed (use assms in \<open>auto simp: HBAllocateEventActionId_def allocateEventActionId_def HBAddExplicitArc_def
      HBAddTimedArc_def addTimedArc_def split: if_splits dest!: addExplicitArc_record intro: record_arc_chain\<close>)

lemma hb_calls_chain:
  "chain_inv us s \<Longrightarrow> \<forall>c \<in> set cs. is_strict_call c \<and> 0 \<notin> set (entered_ids c) \<Longrightarrow> hb_calls H cs s = Inr s' \<Longrightarrow>
     chain_inv (us @ concat (map ui_enter cs)) s'"
proof (induction cs arbitrary: us s)
  case (Cons c cs)
  then obtain s1 where s1: "hb_step H c s = Inr s1" "hb_calls H cs s1 = Inr s'" by auto
  from Cons.IH [OF hb_step_chain [OF Cons.prems(1) _ _ s1(1)] _ s1(2)] Cons.prems(2) show ?case by simp
qed simp

text \<open>
  C24: in strict mode the user interface actions are totally ordered by happens-before in the order
  in which they are entered, whatever other event actions run and whatever else is recorded in
  between.
\<close>

theorem ui_actions_ordered:
  assumes "\<forall>c \<in> set cs. is_strict_call c \<and> 0 \<notin> set (entered_ids c)" "hb_calls H cs new_hb_state = Inr s"
    and "i < j" "j < length (concat (map ui_enter cs))"
  shows "(concat (map ui_enter cs) ! i, concat (map ui_enter cs) ! j) \<in> (set (hb_arcs s))\<^sup>+"
proof -
  have "chain_inv [] new_hb_state" using hb_inv_new(2) by (simp add: chain_inv_def new_hb_state_def)
  from hb_calls_chain [OF this assms(1,2)] show ?thesis
    using assms(3,4) by (intro hb.chain_ordered) (simp_all add: chain_inv_def)
qed

theorem ui_actions_ordered_witness:
  "\<exists>s. hb_calls (\<lambda>s. 0) [HB_enter 1 EA_USER_INTERFACE, HB_exit True, HB_enter 2 EA_TIMER, HB_exit True,
        HB_enter 3 EA_USER_INTERFACE, HB_exit True, HB_enter 4 EA_USER_INTERFACE] new_hb_state = Inr s
     \<and> (1, 4) \<in> (set (hb_arcs s))\<^sup>+"
proof -
  let ?cs = "[HB_enter 1 EA_USER_INTERFACE, HB_exit True, HB_enter 2 EA_TIMER, HB_exit True,
        HB_enter 3 EA_USER_INTERFACE, HB_exit True, HB_enter 4 EA_USER_INTERFACE]"
  have ok: "\<exists>s. hb_calls (\<lambda>s. 0) ?cs new_hb_state = Inr s"
    by (simp add: new_hb_state_def HBEnterEventAction_def setCurrentEventAction_def ActionLogEnterOperation_def
        HBExitEventAction_def setCurrentEventActionInvalid_def ActionLogExitOperation_def endEventAction_def
        addExplicitArc_def record_arc_def ActionLogAddArc_def addArc_def Let_def
        ActionLogInStrictMode_def new_log_data_def new_ActionLog_def startEventAction_def
        setEventActionType_def checked_def action_at_def store_action_def new_EventAction_def)
  then obtain s where "hb_calls (\<lambda>s. 0) ?cs new_hb_state = Inr s" ..
  moreover from ui_actions_ordered [OF _ this, of 0 2] have "(1, 4) \<in> (set (hb_arcs s))\<^sup>+"
    by (simp add: numeral_2_eq_2)
  ultimately show ?thesis by blast
qed

section \<open>Joins\<close>

lemma join_arcs_recorded:
  "hb_strict_inv s \<Longrightarrow> join_arcs is j s = Inr s' \<Longrightarrow>
     hb_strict_inv s' \<and> set (hb_arcs s') = set (hb_arcs s) \<union> {(i, j) | i. i \<in> set is \<and> i \<noteq> j}"
proof (induction "is" arbitrary: s)
  case (Cons i "is")
  then obtain s1 where s1: "(if i \<noteq> j then addExplicitArc i j s else Inr s) = Inr s1" "join_arcs is j s1 = Inr s'"
    by auto
  have "hb_strict_inv s1" "set (hb_arcs s1) = set (hb_arcs s) \<union> (if i \<noteq> j then {(i, j)} else {})"
    using s1(1) Cons.prems(1) hb.add_inv [of s i j s1] hb.add_arcs [of s i j s1] by (auto split: if_splits)
  with Cons.IH [OF _ s1(2)] show ?case by auto
qed simp

lemma addExplicitArc_result:
  assumes "hb_strict_inv s" "0 < a" "0 < b" "a \<noteq> b"
  shows "if a < b then \<exists>s'. addExplicitArc a b s = Inr s' else addExplicitArc a b s = Inl CRASH"
proof -
  have "(a, b) \<notin> set (hb_hbarcs_unique s)" if "\<not> a < b"
    using that assms(1) by (auto simp: hb_strict_inv_def hb_inv_def)
  then show ?thesis
    using assms by (auto simp: addExplicitArc_def record_arc_def ActionLogAddArc_def hb_strict_inv_def)
qed

lemma join_arcs_result:
  assumes "hb_strict_inv s" "\<forall>i \<in> set is. 0 < i" "0 < j"
  shows "if \<forall>i \<in> set is. i \<le> j then \<exists>s'. join_arcs is j s = Inr s' else join_arcs is j s = Inl CRASH"
  using assms
proof (induction "is" arbitrary: s)
  case (Cons i "is")
  show ?case
  proof (cases "i \<le> j")
    case True
    then obtain s1 where s1: "(if i \<noteq> j then addExplicitArc i j s else Inr s) = Inr s1"
      using addExplicitArc_result [of s i j] Cons.prems by (cases "i = j") auto
    then have "hb_strict_inv s1" using Cons.prems(1) hb.add_inv by (auto split: if_splits)
    with Cons True s1 show ?thesis by simp
  next
    case False
    then show ?thesis using addExplicitArc_result [of s i j] Cons.prems by auto
  qed
qed simp

text \<open>
  a join in strict mode in event action \<open>j\<close> records an arc to \<open>j\<close> from every event action that
  reported the end of a thread (except from \<open>j\<close> itself) and no other arc; when one of the threads
  ended in an event action with a larger id, the join is a crash.
\<close>

theorem join_records_all:
  assumes "hb_strict_inv s" "m_endThreads J \<noteq> []" "\<forall>i \<in> set (m_endThreads J). 0 < i" "hb_currentEventActionId s = j" "0 < j"
  shows "if \<forall>i \<in> set (m_endThreads J). i \<le> j
     then \<exists>J' s'. joinAction J s = Inr (J', s') \<and> m_joined J' \<and> m_endThreads J' = m_endThreads J
       \<and> set (hb_arcs s') = set (hb_arcs s) \<union> {(i, j) | i. i \<in> set (m_endThreads J) \<and> i \<noteq> j}
     else joinAction J s = Inl CRASH"
proof -
  have cur: "checkInValidEventAction s = Inr ()" "get_currentEventAction s = Inr j"
    using assms(4,5) by (simp_all add: checkInValidEventAction_def get_currentEventAction_def)
  show ?thesis
    using join_arcs_result [OF assms(1,3,5)] join_arcs_recorded [OF assms(1), of "m_endThreads J" j] assms(2) cur
    by (auto simp: joinAction_def Let_def)
qed

theorem join_records_all_witness:
  "\<exists>J' s'. joinAction (new_MultiJoin\<lparr>m_endThreads := [3, 5, 2]\<rparr>) (new_hb_state\<lparr>hb_currentEventActionId := 5\<rparr>) = Inr (J', s')
     \<and> set (hb_arcs s') = {(3, 5), (2, 5)}"
proof -
  let ?s = "new_hb_state\<lparr>hb_currentEventActionId := 5\<rparr>"
  have "hb_strict_inv ?s" using hb_inv_new(2) by simp
  moreover have "hb_arcs ?s = []"
    by (simp add: hb_arcs_def new_hb_state_def new_log_data_def new_ActionLog_def)
  ultimately show ?thesis
    using join_records_all [of ?s "new_MultiJoin\<lparr>m_endThreads := [3, 5, 2]\<rparr>" 5] by auto
qed

end
