(* ===== verification/Event_Register.thy ===== *)
theory Event_Register
  imports Descriptor Happens_Before
begin

text \<open>
  The event action register (\<open>Source/WebCore/platform/schedule/EventActionRegister\<close>): providers by
  type and queues of one-shot handlers by descriptor text, the dispatching of an event action
  inside the happens-before recorder and the action log, the history of what was dispatched and
  the map from recorded to replayed ids. Handler functions belong to the engine: what one does is the
  parameter \<open>run\<close>, which gives its result and the calls it makes. \<open>ASSERT\<close> and \<open>assert\<close> are both
  checked (a debug build). The locale \<open>action_runner\<close> is the contract schedulers rely on.
\<close>

section \<open>Data\<close>

record EventActionHandler =
  h_object :: int
  h_function :: int

record EventActionRegister =
  m_typeToProvider :: "(string, EventActionHandler list) smap"
  m_descriptorToHandler :: "(string, EventActionHandler list) smap"
  m_currentDescriptors :: "string list"
  m_isDispatching :: bool
  m_dispatchHistory :: EventActionSchedule
  m_originalToNewEventActionIdMap :: "(int, int) smap"

definition new_EventActionRegister :: EventActionRegister where
  "new_EventActionRegister = \<lparr>m_typeToProvider = [], m_descriptorToHandler = [], m_currentDescriptors = [],
     m_isDispatching = False, m_dispatchHistory = [], m_originalToNewEventActionIdMap = []\<rparr>"

text \<open>
  What an event action can change: the register, the thread's happens-before recorder and log, and the rest of the
  page, of which the register knows nothing. \<open>w_removed\<close> lists the descriptors whose handlers were removed:
  a removal also tells the scheduler (\<open>ThreadTimers::deregisterEventActionHandler\<close>).
\<close>

record 'm world =
  w_reg :: EventActionRegister
  w_hb :: hb_state
  w_removed :: "EventActionDescriptor list"
  w_page :: 'm

definition new_world :: "'m \<Rightarrow> 'm world" where
  "new_world page = \<lparr>w_reg = new_EventActionRegister, w_hb = new_hb_state, w_removed = [], w_page = page\<rparr>"

section \<open>Registration\<close>

definition at_key :: "string \<Rightarrow> (string, EventActionHandler list) smap \<Rightarrow> EventActionHandler list" where
  "at_key k m = (case smap_lookup m k of None \<Rightarrow> [] | Some l \<Rightarrow> l)"

definition registerEventActionProvider :: "string \<Rightarrow> EventActionHandler \<Rightarrow> EventActionRegister \<Rightarrow> EventActionRegister" where
  "registerEventActionProvider ty target R =
     R\<lparr>m_typeToProvider := smap_store ty (at_key ty (m_typeToProvider R) @ [target]) (m_typeToProvider R)\<rparr>"

definition registerEventActionHandler :: "EventActionDescriptor \<Rightarrow> EventActionHandler \<Rightarrow> EventActionRegister \<Rightarrow> EventActionRegister" where
  "registerEventActionHandler descriptor target R =
     (let key = fst (toString descriptor) in
      R\<lparr>m_descriptorToHandler := smap_store key (at_key key (m_descriptorToHandler R) @ [target]) (m_descriptorToHandler R),
        m_currentDescriptors := sset_insert key (m_currentDescriptors R)\<rparr>)"

definition deregisterEventActionHandler :: "EventActionDescriptor \<Rightarrow> EventActionRegister \<Rightarrow> EventActionRegister result" where
  "deregisterEventActionHandler descriptor R =
     (if m_isNull descriptor then Inl ASSERT_FAILED
      else (let key = fst (toString descriptor) in
        Inr (R\<lparr>m_descriptorToHandler := smap_erase key (m_descriptorToHandler R),
               m_currentDescriptors := sset_erase key (m_currentDescriptors R)\<rparr>)))"

definition getWaitingNames :: "EventActionRegister \<Rightarrow> string list" where
  "getWaitingNames R = m_currentDescriptors R"

definition translateOldIdToNew :: "int \<Rightarrow> EventActionRegister \<Rightarrow> int" where
  "translateOldIdToNew oldId R =
     (case smap_lookup (m_originalToNewEventActionIdMap R) oldId of None \<Rightarrow> oldId | Some n \<Rightarrow> n)"

definition debugPrintNames :: "EventActionRegister \<Rightarrow> string" where
  "debugPrintNames R =
     ''Handlers ::'' @ [newline] @ concat (map (\<lambda>e. fst e @ [newline]) (m_descriptorToHandler R))
       @ ''Providers ::'' @ [newline] @ concat (map (\<lambda>e. fst e @ [newline]) (m_typeToProvider R))
       @ ''--'' @ [newline]"

text \<open>A category without a name fails \<open>ASSERT_NOT_REACHED\<close>.\<close>

fun toActionLogType :: "EventActionCategory \<Rightarrow> EventActionType result" where
  "toActionLogType WTF_OTHER = Inr EA_UNKNOWN"
| "toActionLogType WTF_PARSING = Inr EA_UNKNOWN"
| "toActionLogType WTF_TIMER = Inr EA_TIMER"
| "toActionLogType WTF_USER_INTERFACE = Inr EA_USER_INTERFACE"
| "toActionLogType WTF_NETWORK = Inr EA_NETWORK"
| "toActionLogType (WTF_Unnamed i) = Inl ASSERT_FAILED"

definition currentEventActionDispatching :: "EventActionRegister \<Rightarrow> EventActionDescriptor" where
  "currentEventActionDispatching R =
     (if m_isDispatching R
      then (if m_dispatchHistory R = [] then null_descriptor else snd (last (m_dispatchHistory R)))
      else null_descriptor)"

definition eventActionDispatchStart :: "int \<Rightarrow> int \<Rightarrow> EventActionDescriptor \<Rightarrow> EventActionRegister \<Rightarrow> EventActionRegister result" where
  "eventActionDispatchStart i originalId descriptor R =
     (if m_isDispatching R then Inl ASSERT_FAILED
      else Inr (R\<lparr>m_originalToNewEventActionIdMap := smap_insert_new originalId i (m_originalToNewEventActionIdMap R),
                  m_dispatchHistory := m_dispatchHistory R @ [(i, descriptor)],
                  m_isDispatching := True\<rparr>))"

definition eventActionDispatchEnd :: "bool \<Rightarrow> int \<Rightarrow> EventActionRegister \<Rightarrow> EventActionRegister result" where
  "eventActionDispatchEnd commit originalId R =
     (if \<not> m_isDispatching R then Inl ASSERT_FAILED
      else (let R1 = R\<lparr>m_isDispatching := False\<rparr> in
        Inr (if \<not> commit
             then R1\<lparr>m_originalToNewEventActionIdMap := smap_erase originalId (m_originalToNewEventActionIdMap R1),
                     m_dispatchHistory := butlast (m_dispatchHistory R1)\<rparr>
             else R1)))"

section \<open>Dispatching\<close>

text \<open>
  The calls a handler function may make: registering and removing handlers, reports to the recorder and the log, and
  actions of the page, which read everything, change the page, remove handlers and report.
  (Providers are registered when a page is set up, outside of handlers.)
\<close>

datatype 'm world_op =
  Op_register EventActionDescriptor EventActionHandler | Op_deregister EventActionDescriptor | Op_hb hb_call
  | Op_act "'m world \<Rightarrow> ('m \<times> EventActionDescriptor list \<times> hb_call list) result"

type_synonym 'm handler_fun = "EventActionHandler \<Rightarrow> EventActionDescriptor \<Rightarrow> 'm world \<Rightarrow> bool \<times> 'm world_op list"

fun deregister_all :: "EventActionDescriptor list \<Rightarrow> EventActionRegister \<Rightarrow> EventActionRegister result" where
  "deregister_all [] R = Inr R"
| "deregister_all (d # ds) R = bindR (deregisterEventActionHandler d R) (deregister_all ds)"

fun exec_op :: "string_hash \<Rightarrow> 'm world_op \<Rightarrow> 'm world \<Rightarrow> 'm world result" where
  "exec_op H (Op_register d h) w = Inr (w\<lparr>w_reg := registerEventActionHandler d h (w_reg w)\<rparr>)"
| "exec_op H (Op_deregister d) w =
     bindR (deregisterEventActionHandler d (w_reg w)) (\<lambda>R. Inr (w\<lparr>w_reg := R, w_removed := w_removed w @ [d]\<rparr>))"
| "exec_op H (Op_hb c) w = bindR (hb_step H c (w_hb w)) (\<lambda>s. Inr (w\<lparr>w_hb := s\<rparr>))"
| "exec_op H (Op_act f) w =
     bindR (f w) (\<lambda>(page, ds, cs).
     bindR (deregister_all ds (w_reg w)) (\<lambda>R.
     bindR (hb_calls H cs (w_hb w)) (\<lambda>s.
       Inr (w\<lparr>w_reg := R, w_hb := s, w_removed := w_removed w @ ds, w_page := page\<rparr>))))"

fun exec_ops :: "string_hash \<Rightarrow> 'm world_op list \<Rightarrow> 'm world \<Rightarrow> 'm world result" where
  "exec_ops H [] w = Inr w"
| "exec_ops H (p # ps) w = bindR (exec_op H p w) (exec_ops H ps)"

text \<open>What both branches do before the handler function runs.\<close>

definition pre_execution :: "string_hash \<Rightarrow> int \<Rightarrow> int \<Rightarrow> EventActionDescriptor \<Rightarrow> int \<Rightarrow> 'm world \<Rightarrow> 'm world result" where
  "pre_execution H newId originalId d object w =
     (let (i, s) = (if newId = -1 then HBAllocateEventActionId (w_hb w) else (newId, w_hb w)) in
      bindR (eventActionDispatchStart i originalId d (w_reg w)) (\<lambda>R.
      bindR (toActionLogType (m_category d)) (\<lambda>ty.
      bindR (HBEnterEventAction i ty s) (\<lambda>s1.
      bindR (ActionLogEventTriggered object (hb_log s1)) (\<lambda>l.
        Inr (w\<lparr>w_reg := R, w_hb := s1\<lparr>hb_log := l\<rparr>\<rparr>))))))"

definition post_execution :: "bool \<Rightarrow> int \<Rightarrow> 'm world \<Rightarrow> 'm world result" where
  "post_execution commit originalId w =
     bindR (HBExitEventAction commit (w_hb w)) (\<lambda>s.
     bindR (eventActionDispatchEnd commit originalId (w_reg w)) (\<lambda>R.
       Inr (w\<lparr>w_reg := R, w_hb := s\<rparr>)))"

text \<open>
  The providers that are tried: those of the entry found for the type and those of all entries
  behind it in the map. Each comes with the object of the first provider of its entry, which is
  the one reported to the log.
\<close>

definition providers_from :: "string \<Rightarrow> EventActionRegister \<Rightarrow> (int \<times> EventActionHandler) list" where
  "providers_from ty R =
     concat (map (\<lambda>e. map (\<lambda>h. (h_object (hd (snd e)), h)) (snd e)) (smap_find_on ty (m_typeToProvider R)))"

fun try_providers :: "string_hash \<Rightarrow> 'm handler_fun \<Rightarrow> int \<Rightarrow> int \<Rightarrow> EventActionDescriptor \<Rightarrow>
    (int \<times> EventActionHandler) list \<Rightarrow> 'm world \<Rightarrow> (bool \<times> 'm world) result" where
  "try_providers H run newId originalId d [] w = Inr (False, w)"
| "try_providers H run newId originalId d ((object, h) # ps) w =
     bindR (pre_execution H newId originalId d object w) (\<lambda>w1.
     case run h d w1 of (found, ops) \<Rightarrow>
     bindR (exec_ops H ops w1) (\<lambda>w2.
     bindR (post_execution found originalId w2) (\<lambda>w3.
       if found then Inr (True, w3) else try_providers H run newId originalId d ps w3)))"

text \<open>Whether the queue that is being run was removed meanwhile.\<close>

definition removes_key :: "string \<Rightarrow> 'm world \<Rightarrow> 'm world \<Rightarrow> bool" where
  "removes_key key w w' = (\<exists>d \<in> set (drop (length (w_removed w)) (w_removed w')). fst (toString d) = key)"

definition pop_handler :: "string \<Rightarrow> EventActionRegister \<Rightarrow> EventActionRegister" where
  "pop_handler key R =
     (let l = tl (at_key key (m_descriptorToHandler R)) in
      if l = []
      then R\<lparr>m_descriptorToHandler := smap_erase key (m_descriptorToHandler R),
             m_currentDescriptors := sset_erase key (m_currentDescriptors R)\<rparr>
      else R\<lparr>m_descriptorToHandler := smap_store key l (m_descriptorToHandler R)\<rparr>)"

text \<open>
  The handler branch. It keeps a reference to the queue while the handler function runs; when the
  function removes that queue, using the reference afterwards is undefined.
\<close>

definition run_handler :: "string_hash \<Rightarrow> 'm handler_fun \<Rightarrow> int \<Rightarrow> int \<Rightarrow> EventActionDescriptor \<Rightarrow> string \<Rightarrow>
    EventActionHandler list \<Rightarrow> 'm world \<Rightarrow> 'm world result" where
  "run_handler H run newId originalId d key l w =
     (if l = [] then Inl ASSERT_FAILED
      else bindR (pre_execution H newId originalId d (h_object (hd l)) w) (\<lambda>w1.
        case run (hd l) d w1 of (done, ops) \<Rightarrow>
        bindR (exec_ops H ops w1) (\<lambda>w2.
          if \<not> done then Inl ASSERT_FAILED
          else if removes_key key w1 w2 then Inl UNDEFINED
          else post_execution True originalId (w2\<lparr>w_reg := pop_handler key (w_reg w2)\<rparr>))))"

definition runEventAction :: "string_hash \<Rightarrow> 'm handler_fun \<Rightarrow> int \<Rightarrow> int \<Rightarrow> EventActionDescriptor \<Rightarrow> 'm world \<Rightarrow>
    (bool \<times> 'm world) result" where
  "runEventAction H run newEventActionId originalEventActionId descriptor w =
     (let (descriptorString, d) = toString descriptor in
      bindR (try_providers H run newEventActionId originalEventActionId d (providers_from (m_type d) (w_reg w)) w) (\<lambda>(found, w1).
        if found then Inr (True, w1)
        else (case smap_lookup (m_descriptorToHandler (w_reg w1)) descriptorString of
                None \<Rightarrow> Inr (False, w1)
              | Some l \<Rightarrow>
                  bindR (run_handler H run newEventActionId originalEventActionId d descriptorString l w1) (\<lambda>w2.
                    Inr (True, w2)))))"

text \<open>
  The overload with one argument has no return statement: the value its callers see is not
  determined by the source. The parameter \<open>rv\<close> stands for it.
\<close>

definition runEventAction_unnumbered :: "(bool \<Rightarrow> bool) \<Rightarrow> string_hash \<Rightarrow> 'm handler_fun \<Rightarrow> EventActionDescriptor \<Rightarrow> 'm world \<Rightarrow>
    (bool \<times> 'm world) result" where
  "runEventAction_unnumbered rv H run descriptor w =
     bindR (runEventAction H run (-1) (-1) descriptor w) (\<lambda>(b, w'). Inr (rv b, w'))"

definition enterGhostEventAction :: "int \<Rightarrow> EventActionType \<Rightarrow> 'm world \<Rightarrow> 'm world result" where
  "enterGhostEventAction i ty w =
     (let s = (w_hb w)\<lparr>hb_log := ActionLogStrictMode False (hb_log (w_hb w))\<rparr> in
      bindR (HBEnterEventAction i EA_UNKNOWN s) (\<lambda>s'. Inr (w\<lparr>w_hb := s'\<rparr>)))"

definition exitGhostEventAction :: "'m world \<Rightarrow> 'm world result" where
  "exitGhostEventAction w =
     (let s = (w_hb w)\<lparr>hb_log := ActionLogStrictMode True (hb_log (w_hb w))\<rparr> in
      bindR (HBExitEventAction True s) (\<lambda>s'. Inr (w\<lparr>w_hb := s'\<rparr>)))"

definition enterImmediateEventAction :: "EventActionType \<Rightarrow> EventActionDescriptor \<Rightarrow> 'm world \<Rightarrow> 'm world result" where
  "enterImmediateEventAction ty descriptor w =
     (let (i, s) = HBAllocateEventActionId (w_hb w) in
      bindR (eventActionDispatchStart i (-1) descriptor (w_reg w)) (\<lambda>R.
      bindR (HBEnterEventAction i ty s) (\<lambda>s'. Inr (w\<lparr>w_reg := R, w_hb := s'\<rparr>))))"

definition exitImmediateEventAction :: "'m world \<Rightarrow> 'm world result" where
  "exitImmediateEventAction w = post_execution True (-1) w"

section \<open>The invariant\<close>

text \<open>The set of waiting names holds exactly the keys of the handler map, and no queue is empty.\<close>

definition reg_inv :: "EventActionRegister \<Rightarrow> bool" where
  "reg_inv R =
     (smap_inv (m_descriptorToHandler R) \<and> smap_inv (m_typeToProvider R) \<and> sset_inv (m_currentDescriptors R)
      \<and> smap_inv (m_originalToNewEventActionIdMap R)
      \<and> (\<forall>k. k \<in> set (m_currentDescriptors R) \<longleftrightarrow> smap_lookup (m_descriptorToHandler R) k \<noteq> None)
      \<and> (\<forall>k. smap_lookup (m_descriptorToHandler R) k \<noteq> Some []))"

lemma reg_inv_new [r4_inv]: "reg_inv new_EventActionRegister"
  by (simp add: reg_inv_def new_EventActionRegister_def)

lemma reg_inv_provider [r4_inv]: "reg_inv R \<Longrightarrow> reg_inv (registerEventActionProvider ty h R)"
  by (simp add: reg_inv_def registerEventActionProvider_def)

lemma reg_inv_register [r4_inv]: "reg_inv R \<Longrightarrow> reg_inv (registerEventActionHandler d h R)"
  by (auto simp: reg_inv_def registerEventActionHandler_def Let_def)

lemma reg_inv_deregister [r4_inv]: "reg_inv R \<Longrightarrow> deregisterEventActionHandler d R = Inr R' \<Longrightarrow> reg_inv R'"
  by (auto simp: reg_inv_def deregisterEventActionHandler_def Let_def split: if_splits)

lemma reg_inv_start [r4_inv]: "reg_inv R \<Longrightarrow> eventActionDispatchStart i k d R = Inr R' \<Longrightarrow> reg_inv R'"
  by (auto simp: reg_inv_def eventActionDispatchStart_def split: if_splits)

lemma reg_inv_end [r4_inv]: "reg_inv R \<Longrightarrow> eventActionDispatchEnd c k R = Inr R' \<Longrightarrow> reg_inv R'"
  by (auto simp: reg_inv_def eventActionDispatchEnd_def Let_def split: if_splits)

lemma reg_inv_pop [r4_inv]:
  "reg_inv R \<Longrightarrow> smap_lookup (m_descriptorToHandler R) key = Some l \<Longrightarrow> reg_inv (pop_handler key R)"
  by (auto simp: reg_inv_def pop_handler_def Let_def at_key_def split: if_splits)

lemmas reg_invs = reg_inv_provider reg_inv_register reg_inv_deregister reg_inv_start reg_inv_end reg_inv_pop

lemma deregister_all_inv: "reg_inv R \<Longrightarrow> deregister_all ds R = Inr R' \<Longrightarrow> reg_inv R'"
  by (induction ds arbitrary: R) (auto dest: reg_inv_deregister)

lemma exec_op_inv: "reg_inv (w_reg w) \<Longrightarrow> exec_op H p w = Inr w' \<Longrightarrow> reg_inv (w_reg w')"
  by (cases p) (auto intro: reg_invs deregister_all_inv)

lemma exec_ops_inv: "reg_inv (w_reg w) \<Longrightarrow> exec_ops H ps w = Inr w' \<Longrightarrow> reg_inv (w_reg w')"
  by (induction ps arbitrary: w) (auto dest: exec_op_inv)

lemma pre_execution_reg:
  assumes "pre_execution H n k d ob w = Inr w'"
  shows "eventActionDispatchStart (if n = -1 then hb_nextEventActionId (w_hb w) else n) k d (w_reg w) = Inr (w_reg w')"
  using assms by (auto simp: pre_execution_def HBAllocateEventActionId_def allocateEventActionId_def split: if_splits)

lemma post_execution_reg: "post_execution c k w = Inr w' \<Longrightarrow> eventActionDispatchEnd c k (w_reg w) = Inr (w_reg w')"
  by (auto simp: post_execution_def)

lemma dispatch_startD:
  "eventActionDispatchStart i k d R = Inr R' \<Longrightarrow> \<not> m_isDispatching R
     \<and> R' = R\<lparr>m_originalToNewEventActionIdMap := smap_insert_new k i (m_originalToNewEventActionIdMap R),
               m_dispatchHistory := m_dispatchHistory R @ [(i, d)], m_isDispatching := True\<rparr>"
  by (simp add: eventActionDispatchStart_def split: if_splits)

lemma dispatch_endD:
  "eventActionDispatchEnd c k R = Inr R' \<Longrightarrow> m_isDispatching R
     \<and> R' = (if c then R\<lparr>m_isDispatching := False\<rparr>
             else R\<lparr>m_isDispatching := False,
                    m_originalToNewEventActionIdMap := smap_erase k (m_originalToNewEventActionIdMap R),
                    m_dispatchHistory := butlast (m_dispatchHistory R)\<rparr>)"
  by (auto simp: eventActionDispatchEnd_def Let_def split: if_splits)

lemma try_providers_inv:
  "reg_inv (w_reg w) \<Longrightarrow> try_providers H run n k d ps w = Inr (b, w') \<Longrightarrow> reg_inv (w_reg w')"
proof (induction ps arbitrary: w)
  case (Cons p ps)
  obtain ob h where p: "p = (ob, h)" by fastforce
  then obtain w1 w2 w3 where w: "pre_execution H n k d ob w = Inr w1" "exec_ops H (snd (run h d w1)) w1 = Inr w2"
    "post_execution (fst (run h d w1)) k w2 = Inr w3"
    "(if fst (run h d w1) then Inr (True, w3) else try_providers H run n k d ps w3) = Inr (b, w')"
    using Cons.prems(2) by (auto simp: case_prod_unfold)
  have "reg_inv (w_reg w3)"
    using Cons.prems(1) w pre_execution_reg [OF w(1)] post_execution_reg [OF w(3)] exec_ops_inv [OF _ w(2)]
    by (auto intro: reg_invs)
  then show ?case using Cons.IH w(4) by (auto split: if_splits)
qed simp

section \<open>What a dispatch changes\<close>

text \<open>The calls of a handler function leave the dispatching fields alone and only append to the running queue.\<close>

definition same_dispatch :: "EventActionRegister \<Rightarrow> EventActionRegister \<Rightarrow> bool" where
  "same_dispatch R R' = (m_dispatchHistory R' = m_dispatchHistory R \<and> m_isDispatching R' = m_isDispatching R
     \<and> m_originalToNewEventActionIdMap R' = m_originalToNewEventActionIdMap R
     \<and> m_typeToProvider R' = m_typeToProvider R)"

lemma same_dispatch_refl [simp]: "same_dispatch R R"
  by (simp add: same_dispatch_def)

lemma same_dispatch_trans: "same_dispatch R R1 \<Longrightarrow> same_dispatch R1 R2 \<Longrightarrow> same_dispatch R R2"
  by (simp add: same_dispatch_def)

lemma deregister_dispatch: "deregisterEventActionHandler d R = Inr R' \<Longrightarrow> same_dispatch R R'"
  by (auto simp: same_dispatch_def deregisterEventActionHandler_def Let_def split: if_splits)

lemma deregister_all_dispatch: "deregister_all ds R = Inr R' \<Longrightarrow> same_dispatch R R'"
  by (induction ds arbitrary: R) (auto dest: deregister_dispatch intro: same_dispatch_trans)

lemma exec_op_dispatch: "exec_op H p w = Inr w' \<Longrightarrow> same_dispatch (w_reg w) (w_reg w')"
  by (cases p) (auto simp: registerEventActionHandler_def same_dispatch_def [of "w_reg w" "w_reg w \<lparr>m_descriptorToHandler := _, m_currentDescriptors := _\<rparr>"]
      Let_def dest: deregister_dispatch deregister_all_dispatch)

lemma exec_ops_dispatch: "exec_ops H ps w = Inr w' \<Longrightarrow> same_dispatch (w_reg w) (w_reg w')"
  by (induction ps arbitrary: w) (auto dest: exec_op_dispatch intro: same_dispatch_trans)

text \<open>The handlers that the calls register for a key.\<close>

definition registered_for :: "string \<Rightarrow> 'm world_op list \<Rightarrow> EventActionHandler list" where
  "registered_for key ops = concat (map (\<lambda>p. case p of Op_register d h \<Rightarrow> if fst (toString d) = key then [h] else [] | _ \<Rightarrow> []) ops)"

lemma exec_op_removed: "exec_op H p w = Inr w' \<Longrightarrow> \<exists>ds. w_removed w' = w_removed w @ ds"
  by (cases p) auto

lemma exec_ops_removed: "exec_ops H ps w = Inr w' \<Longrightarrow> \<exists>ds. w_removed w' = w_removed w @ ds"
  by (induction ps arbitrary: w) (fastforce dest: exec_op_removed)+

lemma removes_key_append: "w_removed w' = w_removed w @ ds \<Longrightarrow> removes_key key w w' = (\<exists>d \<in> set ds. fst (toString d) = key)"
  by (simp add: removes_key_def)

lemma deregister_all_queue:
  "reg_inv R \<Longrightarrow> deregister_all ds R = Inr R' \<Longrightarrow> \<forall>d \<in> set ds. fst (toString d) \<noteq> key \<Longrightarrow>
     smap_lookup (m_descriptorToHandler R') key = smap_lookup (m_descriptorToHandler R) key"
proof (induction ds arbitrary: R)
  case (Cons d ds)
  then obtain R1 where R1: "deregisterEventActionHandler d R = Inr R1" "deregister_all ds R1 = Inr R'" by auto
  have "smap_lookup (m_descriptorToHandler R1) key = smap_lookup (m_descriptorToHandler R) key"
    using R1(1) Cons.prems(3) by (auto simp: deregisterEventActionHandler_def Let_def split: if_splits)
  then show ?case using Cons.IH [OF reg_inv_deregister [OF Cons.prems(1) R1(1)] R1(2)] Cons.prems(3) by simp
qed simp

lemma exec_op_queue:
  assumes "reg_inv (w_reg w)" "exec_op H p w = Inr w'" "\<not> removes_key key w w'"
    and "smap_lookup (m_descriptorToHandler (w_reg w)) key = Some l"
  shows "smap_lookup (m_descriptorToHandler (w_reg w')) key = Some (l @ registered_for key [p])"
proof (cases p)
  case (Op_act f)
  then obtain page ds cs where f: "f w = Inr (page, ds, cs)" "deregister_all ds (w_reg w) = Inr (w_reg w')"
    "w_removed w' = w_removed w @ ds" using assms(2) by auto
  have "\<forall>d \<in> set ds. fst (toString d) \<noteq> key" using assms(3) removes_key_append [OF f(3)] by simp
  from deregister_all_queue [OF assms(1) f(2) this] show ?thesis using assms(4) Op_act by (simp add: registered_for_def)
next
  case (Op_deregister d)
  then have "deregister_all [d] (w_reg w) = Inr (w_reg w')" "\<forall>d \<in> set [d]. fst (toString d) \<noteq> key"
    using assms(2,3) by (auto simp: removes_key_def)
  from deregister_all_queue [OF assms(1) this] show ?thesis using assms(4) Op_deregister by (simp add: registered_for_def)
next
  case (Op_register d h)
  then show ?thesis using assms(1,2,4)
    by (auto simp: registered_for_def registerEventActionHandler_def at_key_def reg_inv_def Let_def)
qed (use assms in \<open>auto simp: registered_for_def\<close>)

lemma exec_ops_queue:
  "reg_inv (w_reg w) \<Longrightarrow> exec_ops H ops w = Inr w' \<Longrightarrow> \<not> removes_key key w w' \<Longrightarrow>
     smap_lookup (m_descriptorToHandler (w_reg w)) key = Some l \<Longrightarrow>
     smap_lookup (m_descriptorToHandler (w_reg w')) key = Some (l @ registered_for key ops)"
proof (induction ops arbitrary: w l)
  case (Cons p ops)
  then obtain w1 where w1: "exec_op H p w = Inr w1" "exec_ops H ops w1 = Inr w'" by auto
  obtain ds es where r: "w_removed w1 = w_removed w @ ds" "w_removed w' = w_removed w1 @ es"
    using exec_op_removed [OF w1(1)] exec_ops_removed [OF w1(2)] by blast
  have nr: "\<not> removes_key key w w1" "\<not> removes_key key w1 w'" using Cons.prems(3) r by (auto simp: removes_key_def)
  from Cons.IH [OF exec_op_inv [OF Cons.prems(1) w1(1)] w1(2) nr(2) exec_op_queue [OF Cons.prems(1) w1(1) nr(1) Cons.prems(4)]]
  show ?case by (simp add: registered_for_def)
qed (simp add: registered_for_def)

lemma pop_handler_fields [simp]:
  "m_dispatchHistory (pop_handler key R) = m_dispatchHistory R"
  "m_originalToNewEventActionIdMap (pop_handler key R) = m_originalToNewEventActionIdMap R"
  by (simp_all add: pop_handler_def Let_def)

lemma run_handler_result:
  assumes inv: "reg_inv (w_reg w)" and run: "run_handler H run n k d key l w = Inr w'"
    and l: "smap_lookup (m_descriptorToHandler (w_reg w)) key = Some l"
  shows "reg_inv (w_reg w')"
    "m_dispatchHistory (w_reg w') = m_dispatchHistory (w_reg w) @ [(if n = -1 then hb_nextEventActionId (w_hb w) else n, d)]"
    "\<not> m_isDispatching (w_reg w')"
    "\<exists>w1. smap_lookup (m_descriptorToHandler (w_reg w')) key =
       (let q = tl l @ registered_for key (snd (run (hd l) d w1)) in if q = [] then None else Some q)"
    "smap_lookup (m_originalToNewEventActionIdMap (w_reg w')) k \<noteq> None"
    "smap_lookup (m_originalToNewEventActionIdMap (w_reg w)) k = None \<Longrightarrow>
       smap_lookup (m_originalToNewEventActionIdMap (w_reg w')) k = Some (if n = -1 then hb_nextEventActionId (w_hb w) else n)"
proof -
  have ne: "l \<noteq> []" using inv l by (auto simp: reg_inv_def)
  from run ne obtain w1 w2 where w: "pre_execution H n k d (h_object (hd l)) w = Inr w1"
    "exec_ops H (snd (run (hd l) d w1)) w1 = Inr w2" "\<not> removes_key key w1 w2"
    "post_execution True k (w2\<lparr>w_reg := pop_handler key (w_reg w2)\<rparr>) = Inr w'"
    by (auto simp: run_handler_def case_prod_unfold split: if_splits)
  note start = pre_execution_reg [OF w(1)] and fin = post_execution_reg [OF w(4)]
  have inv1: "reg_inv (w_reg w1)" and l1: "smap_lookup (m_descriptorToHandler (w_reg w1)) key = Some l"
    using start inv l dispatch_startD [OF start] by (auto intro: reg_invs)
  have inv2: "reg_inv (w_reg w2)" by (rule exec_ops_inv [OF inv1 w(2)])
  have l2: "smap_lookup (m_descriptorToHandler (w_reg w2)) key = Some (l @ registered_for key (snd (run (hd l) d w1)))"
    by (rule exec_ops_queue [OF inv1 w(2,3) l1])
  show "reg_inv (w_reg w')" using fin reg_inv_pop [OF inv2 l2] by (auto intro: reg_invs)
  have disp: "same_dispatch (w_reg w1) (w_reg w2)" by (rule exec_ops_dispatch [OF w(2)])
  have "smap_inv (m_originalToNewEventActionIdMap (w_reg w))" using inv by (simp add: reg_inv_def)
  then show "m_dispatchHistory (w_reg w') = m_dispatchHistory (w_reg w) @ [(if n = -1 then hb_nextEventActionId (w_hb w) else n, d)]"
    "\<not> m_isDispatching (w_reg w')" "smap_lookup (m_originalToNewEventActionIdMap (w_reg w')) k \<noteq> None"
    "smap_lookup (m_originalToNewEventActionIdMap (w_reg w)) k = None \<Longrightarrow>
       smap_lookup (m_originalToNewEventActionIdMap (w_reg w')) k = Some (if n = -1 then hb_nextEventActionId (w_hb w) else n)"
    using dispatch_startD [OF start] dispatch_endD [OF fin] disp
    by (auto simp: same_dispatch_def smap_lookup_insert_new split: option.splits)
  show "\<exists>w1. smap_lookup (m_descriptorToHandler (w_reg w')) key =
       (let q = tl l @ registered_for key (snd (run (hd l) d w1)) in if q = [] then None else Some q)"
    using dispatch_endD [OF fin] l2 ne inv2
    by (intro exI [of _ w1]) (auto simp: pop_handler_def at_key_def Let_def reg_inv_def)
qed

text \<open>A provider that takes the event action appends to the history; one that refuses leaves no trace in it.\<close>

lemma try_providers_history:
  "try_providers H run n k d ps w = Inr (b, w') \<Longrightarrow> n \<noteq> -1 \<Longrightarrow>
     m_dispatchHistory (w_reg w') = m_dispatchHistory (w_reg w) @ (if b then [(n, d)] else [])
     \<and> (\<not> m_isDispatching (w_reg w) \<longrightarrow> \<not> m_isDispatching (w_reg w'))"
proof (induction ps arbitrary: w)
  case (Cons p ps)
  obtain ob h where p: "p = (ob, h)" by fastforce
  then obtain w1 w2 w3 where w: "pre_execution H n k d ob w = Inr w1" "exec_ops H (snd (run h d w1)) w1 = Inr w2"
    "post_execution (fst (run h d w1)) k w2 = Inr w3"
    "(if fst (run h d w1) then Inr (True, w3) else try_providers H run n k d ps w3) = Inr (b, w')"
    using Cons.prems(1) by (auto simp: case_prod_unfold)
  have "m_dispatchHistory (w_reg w3) = m_dispatchHistory (w_reg w) @ (if fst (run h d w1) then [(n, d)] else [])"
    "\<not> m_isDispatching (w_reg w3)"
    using dispatch_startD [OF pre_execution_reg [OF w(1)]] dispatch_endD [OF post_execution_reg [OF w(3)]]
      exec_ops_dispatch [OF w(2)] Cons.prems(2)
    by (auto simp: same_dispatch_def)
  with Cons.IH [of w3] Cons.prems(2) w(4) show ?case by (auto split: if_splits)
qed simp

lemma runEventAction_inv:
  assumes "reg_inv (w_reg w)" "runEventAction H run n k d w = Inr (b, w')"
  shows "reg_inv (w_reg w')"
proof -
  obtain found w1 where w1: "try_providers H run n k (snd (toString d)) (providers_from (m_type (snd (toString d))) (w_reg w)) w = Inr (found, w1)"
    using assms(2) by (auto simp: runEventAction_def case_prod_unfold Let_def)
  have inv1: "reg_inv (w_reg w1)" by (rule try_providers_inv [OF assms(1) w1])
  then show ?thesis
    using assms(2) w1 run_handler_result(1) [OF inv1]
    by (auto simp: runEventAction_def case_prod_unfold Let_def split: if_splits option.splits)
qed

lemma runEventAction_history:
  assumes "reg_inv (w_reg w)" "runEventAction H run n k d w = Inr (b, w')" "n \<noteq> -1"
  shows "m_dispatchHistory (w_reg w') = m_dispatchHistory (w_reg w) @ (if b then [(n, snd (toString d))] else [])"
proof -
  let ?d = "snd (toString d)"
  obtain found w1 where w1: "try_providers H run n k ?d (providers_from (m_type ?d) (w_reg w)) w = Inr (found, w1)"
    using assms(2) by (auto simp: runEventAction_def case_prod_unfold Let_def)
  have inv1: "reg_inv (w_reg w1)" by (rule try_providers_inv [OF assms(1) w1])
  have hist: "m_dispatchHistory (w_reg w1) = m_dispatchHistory (w_reg w) @ (if found then [(n, ?d)] else [])"
    using try_providers_history [OF w1 assms(3)] by simp
  show ?thesis
  proof (cases found)
    case True
    then show ?thesis using assms(2) w1 hist by (auto simp: runEventAction_def case_prod_unfold Let_def)
  next
    case False
    then show ?thesis
      using assms(2,3) w1 hist run_handler_result(2) [OF inv1, of H run n k ?d "fst (toString d)"]
      by (auto simp: runEventAction_def case_prod_unfold Let_def split: option.splits)
  qed
qed

text \<open>Dispatching only moves the next free id forward.\<close>

abbreviation next_id :: "'m world \<Rightarrow> int" where
  "next_id w \<equiv> hb_nextEventActionId (w_hb w)"

lemma hb_calls_next: "hb_calls H cs s = Inr s' \<Longrightarrow> hb_nextEventActionId s \<le> hb_nextEventActionId s'"
  by (induction cs arbitrary: s) (fastforce dest: hb_step_next)+

lemma exec_op_next: "exec_op H p w = Inr w' \<Longrightarrow> next_id w \<le> next_id w'"
  by (cases p) (auto dest: hb_step_next hb_calls_next)

lemma exec_ops_next: "exec_ops H ps w = Inr w' \<Longrightarrow> next_id w \<le> next_id w'"
  by (induction ps arbitrary: w) (fastforce dest: exec_op_next)+

lemma pre_execution_next: "pre_execution H n k d ob w = Inr w' \<Longrightarrow> next_id w \<le> next_id w'"
  by (auto simp: pre_execution_def HBAllocateEventActionId_def allocateEventActionId_def split: if_splits dest!: enter_next)

lemma post_execution_next: "post_execution c k w = Inr w' \<Longrightarrow> next_id w' = next_id w"
  by (auto simp: post_execution_def dest: exit_next)

lemma try_providers_next: "try_providers H run n k d ps w = Inr (b, w') \<Longrightarrow> next_id w \<le> next_id w'"
proof (induction ps arbitrary: w)
  case (Cons p ps)
  obtain ob h where p: "p = (ob, h)" by fastforce
  then obtain w1 w2 w3 where w: "pre_execution H n k d ob w = Inr w1" "exec_ops H (snd (run h d w1)) w1 = Inr w2"
    "post_execution (fst (run h d w1)) k w2 = Inr w3"
    "(if fst (run h d w1) then Inr (True, w3) else try_providers H run n k d ps w3) = Inr (b, w')"
    using Cons.prems by (auto simp: case_prod_unfold)
  have "next_id w \<le> next_id w3"
    using pre_execution_next [OF w(1)] exec_ops_next [OF w(2)] post_execution_next [OF w(3)] by simp
  then show ?case using w(4) Cons.IH [of w3] by (auto split: if_splits)
qed simp

lemma run_handler_next: "run_handler H run n k d key l w = Inr w' \<Longrightarrow> next_id w \<le> next_id w'"
  by (auto simp: run_handler_def case_prod_unfold split: if_splits
      dest!: pre_execution_next exec_ops_next post_execution_next)

lemma runEventAction_next: "runEventAction H run n k d w = Inr (b, w') \<Longrightarrow> next_id w \<le> next_id w'"
  by (auto simp: runEventAction_def case_prod_unfold Let_def split: if_splits option.splits
      dest!: try_providers_next run_handler_next)

section \<open>The contract schedulers rely on\<close>

text \<open>
  A runner executes numbered event actions in a world that keeps the history of what was executed:
  a successful run appends the event action under its number, a failed one appends nothing.
\<close>

locale action_runner =
  fixes run_a :: "int \<Rightarrow> int \<Rightarrow> EventActionDescriptor \<Rightarrow> 'w \<Rightarrow> (bool \<times> 'w) result"
    and history_a :: "'w \<Rightarrow> EventActionSchedule"
    and inv_r :: "'w \<Rightarrow> bool"
  assumes run_keeps: "inv_r w \<Longrightarrow> run_a n k d w = Inr (b, w') \<Longrightarrow> inv_r w'"
    and run_appends: "inv_r w \<Longrightarrow> run_a n k d w = Inr (b, w') \<Longrightarrow> n \<noteq> -1 \<Longrightarrow>
           history_a w' = history_a w @ (if b then [(n, snd (toString d))] else [])"
begin

lemma run_prefix: "inv_r w \<Longrightarrow> run_a n k d w = Inr (b, w') \<Longrightarrow> n \<noteq> -1 \<Longrightarrow> take (length (history_a w)) (history_a w') = history_a w"
  by (simp add: run_appends)

text \<open>Numbers that grow from run to run stay sorted in the history.\<close>

lemma run_sorted:
  assumes "inv_r w" "run_a n k d w = Inr (b, w')" "n \<noteq> -1"
    and "sorted_wrt (<) (map fst (history_a w))" "\<forall>i \<in> fst ` set (history_a w). i < n"
  shows "sorted_wrt (<) (map fst (history_a w'))" "\<forall>i \<in> fst ` set (history_a w'). i \<le> n"
  using assms(4,5) run_appends [OF assms(1-3)] by (auto simp: sorted_wrt_append intro: less_imp_le)

end

interpretation er: action_runner "runEventAction H run" "\<lambda>w. m_dispatchHistory (w_reg w)" "\<lambda>w. reg_inv (w_reg w)"
  for H run
  by unfold_locales (blast intro: runEventAction_inv, rule runEventAction_history)

section \<open>Sequences of calls\<close>

datatype 'm world_call =
  W_provider string EventActionHandler | W_op "'m world_op" | W_run int int EventActionDescriptor
  | W_enterGhost int EventActionType | W_exitGhost | W_enterImmediate EventActionType EventActionDescriptor | W_exitImmediate

fun world_step :: "string_hash \<Rightarrow> 'm handler_fun \<Rightarrow> 'm world_call \<Rightarrow> 'm world \<Rightarrow> 'm world result" where
  "world_step H run (W_provider t h) w = Inr (w\<lparr>w_reg := registerEventActionProvider t h (w_reg w)\<rparr>)"
| "world_step H run (W_op p) w = exec_op H p w"
| "world_step H run (W_run n k d) w = bindR (runEventAction H run n k d w) (\<lambda>r. Inr (snd r))"
| "world_step H run (W_enterGhost i t) w = enterGhostEventAction i t w"
| "world_step H run W_exitGhost w = exitGhostEventAction w"
| "world_step H run (W_enterImmediate t d) w = enterImmediateEventAction t d w"
| "world_step H run W_exitImmediate w = exitImmediateEventAction w"

fun world_calls :: "string_hash \<Rightarrow> 'm handler_fun \<Rightarrow> 'm world_call list \<Rightarrow> 'm world \<Rightarrow> 'm world result" where
  "world_calls H run [] w = Inr w"
| "world_calls H run (c # cs) w = bindR (world_step H run c w) (world_calls H run cs)"

lemma world_step_inv:
  assumes "reg_inv (w_reg w)" "world_step H run c w = Inr w'"
  shows "reg_inv (w_reg w')"
proof (cases c)
  case (W_run n k d)
  then show ?thesis using assms runEventAction_inv by fastforce
next
  case (W_enterImmediate t d)
  then show ?thesis using assms
    by (auto simp: enterImmediateEventAction_def case_prod_unfold Let_def intro: reg_invs)
next
  case W_exitImmediate
  then show ?thesis using assms post_execution_reg [of True "-1" w w']
    by (auto simp: exitImmediateEventAction_def intro: reg_invs)
qed (use assms exec_op_inv in \<open>auto simp: enterGhostEventAction_def exitGhostEventAction_def Let_def intro: reg_invs\<close>)

lemma world_calls_inv: "reg_inv (w_reg w) \<Longrightarrow> world_calls H run cs w = Inr w' \<Longrightarrow> reg_inv (w_reg w')"
  by (induction cs arbitrary: w) (auto dest: world_step_inv)

text \<open>
  C8: whatever sequence of registrations, removals, reports and dispatches is executed and whatever
  the handler functions do, the waiting names are exactly the descriptors that have a handler,
  and every one of them has a handler in its queue, so the assertion that guards the dispatch
  against an empty queue never fails.
\<close>

theorem register_consistent:
  assumes "world_calls H run cs (new_world page) = Inr w"
  shows "(\<forall>key. key \<in> set (getWaitingNames (w_reg w)) \<longleftrightarrow> smap_lookup (m_descriptorToHandler (w_reg w)) key \<noteq> None)
     \<and> (\<forall>key l. smap_lookup (m_descriptorToHandler (w_reg w)) key = Some l \<longrightarrow> l \<noteq> [])"
  using world_calls_inv [OF _ assms] reg_inv_new by (auto simp: reg_inv_def getWaitingNames_def new_world_def)

theorem register_consistent_witness:
  "\<exists>w. world_calls (\<lambda>s. 0) (\<lambda>h d w. (True, [Op_register (mk_descriptor WTF_TIMER ''t'' ''2'') h]))
        [W_op (Op_register (mk_descriptor WTF_TIMER ''t'' ''1'') \<lparr>h_object = 1, h_function = 1\<rparr>),
         W_run (-1) (-1) (mk_descriptor WTF_TIMER ''t'' ''1'')] (new_world ()) = Inr w
     \<and> ''1-t(2)'' \<in> set (getWaitingNames (w_reg w)) \<and> ''1-t(1)'' \<notin> set (getWaitingNames (w_reg w))
     \<and> smap_lookup (m_descriptorToHandler (w_reg w)) ''1-t(2)'' \<noteq> Some []"
proof -
  let ?run = "\<lambda>h d w. (True, [Op_register (mk_descriptor WTF_TIMER ''t'' ''2'') h])"
    and ?cs = "[W_op (Op_register (mk_descriptor WTF_TIMER ''t'' ''1'') \<lparr>h_object = 1, h_function = 1\<rparr>),
         W_run (-1) (-1) (mk_descriptor WTF_TIMER ''t'' ''1'')]"
  have "ok (world_calls (\<lambda>s. 0) ?run ?cs (new_world ())) (\<lambda>w. ''1-t(2)'' \<in> set (getWaitingNames (w_reg w))
     \<and> ''1-t(1)'' \<notin> set (getWaitingNames (w_reg w)))"
    by code_simp
  then obtain w where w: "world_calls (\<lambda>s. 0) ?run ?cs (new_world ()) = Inr w" "''1-t(2)'' \<in> set (getWaitingNames (w_reg w))"
    "''1-t(1)'' \<notin> set (getWaitingNames (w_reg w))" by (auto simp: ok_iff)
  with register_consistent [OF w(1)] show ?thesis by blast
qed



end
