(* ===== verification/Data_Log.thy ===== *)
theory Data_Log
  imports Event_Register Warning_Collector
begin

text \<open>
  The logs of time and random values (\<open>R4/clients/BaseClient/basedatalog\<close>, \<open>Record/datalog\<close>,
  \<open>Replay/datalog\<close>): while recording, every value that a script obtains is stored under the
  descriptor of the event action that asked for it; while replaying, the values are handed out
  again per descriptor. The type of doubles is a type variable, the real clock and random
  generator are arguments. A \<open>QHash\<close> written to and read from a \<open>QDataStream\<close> is the same hash. The
  locale \<open>value_log\<close> is the contract that makes a replay return what was recorded.
\<close>

section \<open>Modes\<close>

datatype ReplayMode = STRICT | BEST_EFFORT | BEST_EFFORT_NOND | STOP

type_synonym 'v value_hash = "string \<rightharpoonup> 'v list"

section \<open>Recording\<close>

text \<open>The three logging functions share their body; \<open>append_value\<close> is their hash update.\<close>

definition append_value :: "string \<Rightarrow> 'v \<Rightarrow> 'v value_hash \<Rightarrow> 'v value_hash" where
  "append_value ident v m = (case m ident of None \<Rightarrow> m(ident \<mapsto> [v]) | Some entries \<Rightarrow> m(ident \<mapsto> entries @ [v]))"

record 'd TimeProvider =
  t_log :: "'d value_hash"

record 'd RandomProvider =
  r_double_log :: "'d value_hash"
  r_unsigned_log :: "32 word value_hash"

text \<open>\<open>R\<close> is the register whose current event action the access belongs to.\<close>

definition logTimeAccess :: "EventActionRegister \<Rightarrow> 'd \<Rightarrow> ('d, 'z) TimeProvider_scheme \<Rightarrow> ('d, 'z) TimeProvider_scheme" where
  "logTimeAccess R time p =
     (let descriptor = currentEventActionDispatching R in
      if m_isNull descriptor then p
      else p\<lparr>t_log := append_value (fst (toString descriptor)) time (t_log p)\<rparr>)"

definition logRandomAccess :: "EventActionRegister \<Rightarrow> 'd \<Rightarrow> ('d, 'z) RandomProvider_scheme \<Rightarrow> ('d, 'z) RandomProvider_scheme" where
  "logRandomAccess R random p =
     (let descriptor = currentEventActionDispatching R in
      if m_isNull descriptor then p
      else p\<lparr>r_double_log := append_value (fst (toString descriptor)) random (r_double_log p)\<rparr>)"

definition logRandomAccessUint32 :: "EventActionRegister \<Rightarrow> 32 word \<Rightarrow> ('d, 'z) RandomProvider_scheme \<Rightarrow> ('d, 'z) RandomProvider_scheme" where
  "logRandomAccessUint32 R random p =
     (let descriptor = currentEventActionDispatching R in
      if m_isNull descriptor then p
      else p\<lparr>r_unsigned_log := append_value (fst (toString descriptor)) random (r_unsigned_log p)\<rparr>)"

definition time_writeLogFile :: "('d, 'z) TimeProvider_scheme \<Rightarrow> 'd value_hash" where
  "time_writeLogFile p = t_log p"

definition random_writeLogFile :: "('d, 'z) RandomProvider_scheme \<Rightarrow> 'd value_hash \<times> 32 word value_hash" where
  "random_writeLogFile p = (r_double_log p, r_unsigned_log p)"

text \<open>The recording providers hand out the real value and log it.\<close>

definition record_currentTime :: "EventActionRegister \<Rightarrow> 'd \<Rightarrow> ('d, 'z) TimeProvider_scheme \<Rightarrow> 'd \<times> ('d, 'z) TimeProvider_scheme" where
  "record_currentTime R time p = (time, logTimeAccess R time p)"

definition record_get :: "EventActionRegister \<Rightarrow> 'd \<Rightarrow> ('d, 'z) RandomProvider_scheme \<Rightarrow> 'd \<times> ('d, 'z) RandomProvider_scheme" where
  "record_get R random p = (random, logRandomAccess R random p)"

definition record_getUint32 :: "EventActionRegister \<Rightarrow> 32 word \<Rightarrow> ('d, 'z) RandomProvider_scheme \<Rightarrow> 32 word \<times> ('d, 'z) RandomProvider_scheme" where
  "record_getUint32 R random p = (random, logRandomAccessUint32 R random p)"

section \<open>Replaying\<close>

text \<open>A null \<open>QString\<close> is \<open>None\<close>. The warnings a provider reports are kept with it.\<close>

record 'd TimeProviderReplay = "'d TimeProvider" +
  t_in_log :: "'d value_hash"
  t_mode :: ReplayMode
  t_currentDescriptorString :: "string option"
  t_warnings :: warning_state

record 'd RandomProviderReplay = "'d RandomProvider" +
  r_in_double_log :: "'d value_hash"
  r_in_unsigned_log :: "32 word value_hash"
  r_mode :: ReplayMode
  r_currentDescriptorString :: "string option"
  r_warnings :: warning_state

definition new_TimeProviderReplay :: "'d value_hash \<Rightarrow> warning_state \<Rightarrow> 'd TimeProviderReplay" where
  "new_TimeProviderReplay file ws =
     \<lparr>t_log = Map.empty, t_in_log = file, t_mode = STRICT, t_currentDescriptorString = None, t_warnings = ws\<rparr>"

definition new_RandomProviderReplay :: "'d value_hash \<times> 32 word value_hash \<Rightarrow> warning_state \<Rightarrow> 'd RandomProviderReplay" where
  "new_RandomProviderReplay file ws =
     \<lparr>r_double_log = Map.empty, r_unsigned_log = Map.empty, r_in_double_log = fst file, r_in_unsigned_log = snd file,
      r_mode = STRICT, r_currentDescriptorString = None, r_warnings = ws\<rparr>"

definition time_setCurrentDescriptorString :: "string \<Rightarrow> 'd TimeProviderReplay \<Rightarrow> 'd TimeProviderReplay" where
  "time_setCurrentDescriptorString ident p = p\<lparr>t_currentDescriptorString := Some ident\<rparr>"

definition time_unsetCurrentDescriptorString :: "'d TimeProviderReplay \<Rightarrow> 'd TimeProviderReplay" where
  "time_unsetCurrentDescriptorString p = p\<lparr>t_currentDescriptorString := None\<rparr>"

definition time_setMode :: "ReplayMode \<Rightarrow> 'd TimeProviderReplay \<Rightarrow> 'd TimeProviderReplay" where
  "time_setMode m p = p\<lparr>t_mode := m\<rparr>"

definition random_setCurrentDescriptorString :: "string \<Rightarrow> 'd RandomProviderReplay \<Rightarrow> 'd RandomProviderReplay" where
  "random_setCurrentDescriptorString ident p = p\<lparr>r_currentDescriptorString := Some ident\<rparr>"

definition random_unsetCurrentDescriptorString :: "'d RandomProviderReplay \<Rightarrow> 'd RandomProviderReplay" where
  "random_unsetCurrentDescriptorString p = p\<lparr>r_currentDescriptorString := None\<rparr>"

definition random_setMode :: "ReplayMode \<Rightarrow> 'd RandomProviderReplay \<Rightarrow> 'd RandomProviderReplay" where
  "random_setMode m p = p\<lparr>r_mode := m\<rparr>"

text \<open>\<open>find\<close> and \<open>takeFirst\<close>: \<open>None\<close> when the key is missing or its list is empty.\<close>

definition take_value :: "string \<Rightarrow> 'v value_hash \<Rightarrow> ('v \<times> 'v value_hash) option" where
  "take_value ident m = (case m ident of None \<Rightarrow> None | Some [] \<Rightarrow> None | Some (v # vs) \<Rightarrow> Some (v, m(ident \<mapsto> vs)))"

definition replay_currentTime :: "EventActionRegister \<Rightarrow> 'd \<Rightarrow> 'd TimeProviderReplay \<Rightarrow> ('d \<times> 'd TimeProviderReplay) result" where
  "replay_currentTime R time p =
     (if t_mode p = STOP then Inr (time, logTimeAccess R time p)
      else (case t_currentDescriptorString p of
          None \<Rightarrow> Inl (EXIT 1)
        | Some ident \<Rightarrow>
            (case take_value ident (t_in_log p) of
               None \<Rightarrow>
                 (if t_mode p = BEST_EFFORT \<or> t_mode p = BEST_EFFORT_NOND
                  then Inr (time, logTimeAccess R time (p\<lparr>t_warnings :=
                         WarningCollectorReport ''WEBERA_TIME_DATA'' ''New access to the time API in best effort mode.'' [] (t_warnings p)\<rparr>))
                  else Inl (EXIT 1))
             | Some (v, m) \<Rightarrow> Inr (v, logTimeAccess R v (p\<lparr>t_in_log := m\<rparr>)))))"

definition replay_get :: "EventActionRegister \<Rightarrow> 'd \<Rightarrow> 'd RandomProviderReplay \<Rightarrow> ('d \<times> 'd RandomProviderReplay) result" where
  "replay_get R random p =
     (if r_mode p = STOP then Inr (random, logRandomAccess R random p)
      else (case r_currentDescriptorString p of
          None \<Rightarrow> Inl (EXIT 1)
        | Some ident \<Rightarrow>
            (case take_value ident (r_in_double_log p) of
               None \<Rightarrow>
                 (if r_mode p = BEST_EFFORT \<or> r_mode p = BEST_EFFORT_NOND
                  then Inr (random, logRandomAccess R random (p\<lparr>r_warnings :=
                         WarningCollectorReport ''WEBERA_RANDOM_DATA'' ''New access to the random API in best effort mode.'' [] (r_warnings p)\<rparr>))
                  else Inl (EXIT 1))
             | Some (v, m) \<Rightarrow> Inr (v, logRandomAccess R v (p\<lparr>r_in_double_log := m\<rparr>)))))"

definition replay_getUint32 :: "EventActionRegister \<Rightarrow> 32 word \<Rightarrow> 'd RandomProviderReplay \<Rightarrow> (32 word \<times> 'd RandomProviderReplay) result" where
  "replay_getUint32 R random p =
     (if r_mode p = STOP then Inr (random, logRandomAccessUint32 R random p)
      else (case r_currentDescriptorString p of
          None \<Rightarrow> Inl (EXIT 1)
        | Some ident \<Rightarrow>
            (case take_value ident (r_in_unsigned_log p) of
               None \<Rightarrow>
                 (if r_mode p = BEST_EFFORT \<or> r_mode p = BEST_EFFORT_NOND
                  then Inr (random, logRandomAccessUint32 R random (p\<lparr>r_warnings :=
                         WarningCollectorReport ''WEBERA_RANDOM_DATA'' ''New access to the random API in best effort mode.'' [] (r_warnings p)\<rparr>))
                  else Inl (EXIT 1))
             | Some (v, m) \<Rightarrow> Inr (v, logRandomAccessUint32 R v (p\<lparr>r_in_unsigned_log := m\<rparr>)))))"

section \<open>The contract of a value log\<close>

text \<open>
  Recorded values come back per key in the order in which they were recorded, whatever the order
  in which the keys are replayed. \<open>left\<close> gives the values that are still there.
\<close>

locale value_log =
  fixes add_v :: "string \<Rightarrow> 'v \<Rightarrow> 'l \<Rightarrow> 'l"
    and take_v :: "string \<Rightarrow> 'm \<Rightarrow> ('v \<times> 'm) option"
    and written :: "'l \<Rightarrow> string \<Rightarrow> 'v list"
    and left :: "'m \<Rightarrow> string \<Rightarrow> 'v list"
  assumes written_add: "written (add_v k v l) k' = (if k' = k then written l k @ [v] else written l k')"
    and take_empty: "left m k = [] \<Longrightarrow> take_v k m = None"
    and take_first: "left m k = v # vs \<Longrightarrow> \<exists>m'. take_v k m = Some (v, m') \<and> left m' k = vs
           \<and> (\<forall>k'. k' \<noteq> k \<longrightarrow> left m' k' = left m k')"
begin

lemma written_adds:
  "written (fold (\<lambda>(k, v). add_v k v) rs l) k = written l k @ map snd (filter (\<lambda>r. fst r = k) rs)"
  by (induction rs arbitrary: l) (auto simp: written_add split: prod.splits)

lemma take_cases:
  "case take_v k m of None \<Rightarrow> left m k = [] | Some (v, m') \<Rightarrow> left m k = v # left m' k \<and> (\<forall>k'. k' \<noteq> k \<longrightarrow> left m' k' = left m k')"
proof (cases "left m k")
  case (Cons v vs)
  then show ?thesis using take_first [OF Cons] by auto
qed (simp add: take_empty)

end

definition values_of :: "'v value_hash \<Rightarrow> string \<Rightarrow> 'v list" where
  "values_of m k = (case m k of None \<Rightarrow> [] | Some l \<Rightarrow> l)"

lemma take_value_cases:
  "take_value k m = (case values_of m k of [] \<Rightarrow> None | v # vs \<Rightarrow> Some (v, m(k \<mapsto> vs)))"
  by (simp add: take_value_def values_of_def split: option.split)

lemma values_of_upd [simp]: "values_of (m(k \<mapsto> vs)) k' = (if k' = k then vs else values_of m k')"
  by (simp add: values_of_def)

lemma append_value_upd: "append_value k v m = m(k \<mapsto> values_of m k @ [v])"
  by (simp add: append_value_def values_of_def split: option.split)

interpretation vh: value_log append_value take_value values_of values_of
proof
  fix k k' :: string and v :: 'v and l :: "'v value_hash"
  show "values_of (append_value k v l) k' = (if k' = k then values_of l k @ [v] else values_of l k')"
    by (simp add: append_value_upd)
next
  fix m :: "'v value_hash" and k
  show "values_of m k = [] \<Longrightarrow> take_value k m = None" by (simp add: take_value_cases)
next
  fix m :: "'v value_hash" and k v vs
  show "values_of m k = v # vs \<Longrightarrow> \<exists>m'. take_value k m = Some (v, m') \<and> values_of m' k = vs
      \<and> (\<forall>k'. k' \<noteq> k \<longrightarrow> values_of m' k' = values_of m k')"
    by (simp add: take_value_cases)
qed

section \<open>A replay returns what was recorded\<close>

text \<open>
  A session of the time provider: each access names the register state (which event action is
  dispatching) and the value of the real clock.
\<close>

fun record_times :: "(EventActionRegister \<times> 'd) list \<Rightarrow> 'd TimeProvider \<Rightarrow> 'd list \<times> 'd TimeProvider" where
  "record_times [] p = ([], p)"
| "record_times ((R, now) # as) p =
     (let (v, p1) = record_currentTime R now p; (vs, p2) = record_times as p1 in (v # vs, p2))"

text \<open>In a replay the scheduler names the descriptor before the access and removes it afterwards.\<close>

fun replay_times :: "(string \<times> EventActionRegister \<times> 'd) list \<Rightarrow> 'd TimeProviderReplay \<Rightarrow> ('d list \<times> 'd TimeProviderReplay) result" where
  "replay_times [] p = Inr ([], p)"
| "replay_times ((ident, R, now) # as) p =
     bindR (replay_currentTime R now (time_setCurrentDescriptorString ident p)) (\<lambda>(v, p1).
     bindR (replay_times as (time_unsetCurrentDescriptorString p1)) (\<lambda>(vs, p2). Inr (v # vs, p2)))"

definition access_key :: "EventActionRegister \<Rightarrow> string" where
  "access_key R = fst (toString (currentEventActionDispatching R))"

lemma record_times_log:
  assumes "\<forall>a \<in> set as. \<not> m_isNull (currentEventActionDispatching (fst a))"
  shows "fst (record_times as p) = map snd as
     \<and> t_log (snd (record_times as p)) = fold (\<lambda>(k, v). append_value k v) (map (\<lambda>(R, v). (access_key R, v)) as) (t_log p)"
  using assms
proof (induction as arbitrary: p)
  case (Cons a as)
  obtain R v where a: "a = (R, v)" by fastforce
  then have "t_log (logTimeAccess R v p) = append_value (access_key R) v (t_log p)"
    using Cons.prems by (simp add: logTimeAccess_def access_key_def Let_def)
  with Cons a show ?case by (simp add: record_currentTime_def case_prod_unfold Let_def)
qed simp

lemma logTimeAccess_frame [simp]:
  "t_in_log (logTimeAccess R v p) = t_in_log p" "t_mode (logTimeAccess R v p) = t_mode p"
  by (simp_all add: logTimeAccess_def Let_def)

lemma setters_frame [simp]:
  "t_in_log (time_setCurrentDescriptorString i p) = t_in_log p" "t_mode (time_setCurrentDescriptorString i p) = t_mode p"
  "t_in_log (time_unsetCurrentDescriptorString p) = t_in_log p" "t_mode (time_unsetCurrentDescriptorString p) = t_mode p"
  "t_currentDescriptorString (time_setCurrentDescriptorString i p) = Some i"
  by (simp_all add: time_setCurrentDescriptorString_def time_unsetCurrentDescriptorString_def)

text \<open>The value the \<open>i\<close>-th access has to return: the next value recorded under its key.\<close>

fun expected :: "(string \<Rightarrow> 'v list) \<Rightarrow> string list \<Rightarrow> 'v list option" where
  "expected f [] = Some []"
| "expected f (k # ks) = (case f k of [] \<Rightarrow> None | v # vs \<Rightarrow> map_option ((#) v) (expected (f(k := vs)) ks))"

lemma replay_times_expected:
  assumes "t_mode p = STRICT"
  shows "case expected (values_of (t_in_log p)) (map fst as) of
     None \<Rightarrow> replay_times as p = Inl (EXIT 1)
   | Some vs \<Rightarrow> \<exists>p'. replay_times as p = Inr (vs, p')"
  using assms
proof (induction as arbitrary: p)
  case (Cons a as)
  obtain k R now where a: "a = (k, R, now)" by (cases a) auto
  let ?q = "time_setCurrentDescriptorString k p"
  show ?case
  proof (cases "take_value k (t_in_log p)")
    case None
    then have "values_of (t_in_log p) k = []" using vh.take_cases [where k = k and m = "t_in_log p"] by simp
    with None a Cons.prems show ?thesis by (simp add: replay_currentTime_def)
  next
    case (Some r)
    obtain v m where r: "r = (v, m)" by fastforce
    have m: "values_of (t_in_log p) k = v # values_of m k" "\<forall>k'. k' \<noteq> k \<longrightarrow> values_of m k' = values_of (t_in_log p) k'"
      using vh.take_cases [where k = k and m = "t_in_log p"] Some r by auto
    then have upd: "(values_of (t_in_log p))(k := values_of m k) = values_of m" by (auto simp: fun_eq_iff)
    let ?p1 = "time_unsetCurrentDescriptorString (logTimeAccess R v (?q\<lparr>t_in_log := m\<rparr>))"
    have "replay_currentTime R now ?q = Inr (v, logTimeAccess R v (?q\<lparr>t_in_log := m\<rparr>))"
      using Some r Cons.prems by (simp add: replay_currentTime_def)
    moreover have "t_in_log ?p1 = m" "t_mode ?p1 = STRICT" using Cons.prems by (simp_all)
    ultimately show ?thesis
      using Cons.IH [of ?p1] m(1) upd a by (auto split: option.splits)
  qed
qed simp

lemma expected_in_order:
  "(\<And>k. f k = map snd (filter (\<lambda>r. fst r = k) rs)) \<Longrightarrow> expected f (map fst rs) = Some (map snd rs)"
proof (induction rs arbitrary: f)
  case (Cons r rs)
  obtain k v where r: "r = (k, v)" by fastforce
  have "f k = v # map snd (filter (\<lambda>r. fst r = k) rs)" using Cons.prems [of k] r by simp
  moreover have "expected (f(k := map snd (filter (\<lambda>r. fst r = k) rs))) (map fst rs) = Some (map snd rs)"
    using Cons.prems r by (intro Cons.IH) auto
  ultimately show ?case using r by simp
qed simp

text \<open>
  C20: the time values that a script obtained while recording are the values it obtains in a strict
  replay that makes the same accesses from the same event actions, whatever the real clock
  shows during the replay. (The random values use the same functions on their own logs.)
\<close>

theorem replay_returns_recorded:
  assumes "\<forall>a \<in> set as. \<not> m_isNull (currentEventActionDispatching (fst a))"
    and "map fst bs = map (\<lambda>a. access_key (fst a)) as"
  shows "\<exists>p'. replay_times bs (new_TimeProviderReplay
       (time_writeLogFile (snd (record_times as \<lparr>t_log = Map.empty\<rparr>))) ws) = Inr (fst (record_times as \<lparr>t_log = Map.empty\<rparr>), p')"
proof -
  let ?rs = "map (\<lambda>(R, v). (access_key R, v)) as"
    and ?p = "new_TimeProviderReplay (time_writeLogFile (snd (record_times as \<lparr>t_log = Map.empty\<rparr>))) ws"
  note rec = record_times_log [OF assms(1), of "\<lparr>t_log = Map.empty\<rparr>"]
  have "values_of (t_in_log ?p) k = map snd (filter (\<lambda>r. fst r = k) ?rs)" for k
    using rec vh.written_adds [of ?rs Map.empty k] by (simp add: new_TimeProviderReplay_def time_writeLogFile_def values_of_def)
  then have "expected (values_of (t_in_log ?p)) (map fst ?rs) = Some (map snd ?rs)" by (rule expected_in_order)
  moreover have "map fst ?rs = map fst bs" "map snd ?rs = map snd as"
    using assms(2) by (simp_all add: case_prod_unfold comp_def)
  ultimately have exp: "expected (values_of (t_in_log ?p)) (map fst bs) = Some (map snd as)" by metis
  have mode: "t_mode ?p = STRICT" by (simp add: new_TimeProviderReplay_def)
  show ?thesis
    using replay_times_expected [OF mode, of bs] unfolding exp option.case by (simp only: rec [THEN conjunct1])
qed

theorem replay_returns_recorded_witness:
  "\<exists>p'. replay_times [(''1-t(1)'', new_EventActionRegister, 99), (''1-t(1)'', new_EventActionRegister, 98)]
      (new_TimeProviderReplay (time_writeLogFile (snd (record_times
         [(new_EventActionRegister\<lparr>m_isDispatching := True, m_dispatchHistory := [(1, mk_descriptor WTF_TIMER ''t'' ''1'')]\<rparr>, 5),
          (new_EventActionRegister\<lparr>m_isDispatching := True, m_dispatchHistory := [(1, mk_descriptor WTF_TIMER ''t'' ''1'')]\<rparr>, 6 :: int)]
         \<lparr>t_log = Map.empty\<rparr>))) \<lparr>warningCollector = [], currentEventAction = 0\<rparr>) = Inr ([5, 6], p')"
proof -
  let ?R = "new_EventActionRegister\<lparr>m_isDispatching := True, m_dispatchHistory := [(1, mk_descriptor WTF_TIMER ''t'' ''1'')]\<rparr>"
  have key: "access_key ?R = ''1-t(1)''" by code_simp
  have "\<forall>a \<in> set [(?R, 5), (?R, 6 :: int)]. \<not> m_isNull (currentEventActionDispatching (fst a))"
    by (simp add: currentEventActionDispatching_def mk_descriptor_def)
  moreover have "map fst [(''1-t(1)'', new_EventActionRegister, 99), (''1-t(1)'', new_EventActionRegister, 98 :: int)]
      = map (\<lambda>a. access_key (fst a)) [(?R, 5), (?R, 6 :: int)]" by (simp add: key)
  ultimately show ?thesis
    using replay_returns_recorded [of "[(?R, 5), (?R, 6 :: int)]"
        "[(''1-t(1)'', new_EventActionRegister, 99), (''1-t(1)'', new_EventActionRegister, 98)]"]
    by (simp add: record_currentTime_def case_prod_unfold Let_def)
qed

text \<open>
  in strict mode the time provider serves each event action independently of the others: the
  accesses are answered with the recorded values of their own descriptor in order, in whatever
  order the event actions are replayed, and the replay ends with an error exactly when
  some descriptor is asked for more values than were recorded for it.
\<close>

theorem replay_per_descriptor:
  assumes "t_mode p = STRICT"
  shows "case expected (values_of (t_in_log p)) (map fst as) of
     None \<Rightarrow> replay_times as p = Inl (EXIT 1)
   | Some vs \<Rightarrow> \<exists>p'. replay_times as p = Inr (vs, p')"
  by (rule replay_times_expected [OF assms])

theorem replay_per_descriptor_witness:
  "\<exists>p'. replay_times [(''b'', new_EventActionRegister, 0), (''a'', new_EventActionRegister, 0), (''b'', new_EventActionRegister, 0)]
     (new_TimeProviderReplay [''a'' \<mapsto> [1], ''b'' \<mapsto> [2, 3 :: int]] \<lparr>warningCollector = [], currentEventAction = 0\<rparr>) = Inr ([2, 1, 3], p')"
  using replay_per_descriptor [of "new_TimeProviderReplay [''a'' \<mapsto> [1], ''b'' \<mapsto> [2, 3 :: int]] \<lparr>warningCollector = [], currentEventAction = 0\<rparr>"
      "[(''b'', new_EventActionRegister, 0), (''a'', new_EventActionRegister, 0), (''b'', new_EventActionRegister, 0)]"]
  by (simp add: new_TimeProviderReplay_def values_of_def)

end
