(* ===== verification/Fuzzy_Url.thy ===== *)
theory Fuzzy_Url
  imports Prelude
begin

text \<open>
  Fuzzy matching of URLs (\<open>R4/clients/Replay/fuzzyurl\<close>), by which a relaxed replay finds a recorded
  network reply or a waiting event action for a URL that changed. The accessors of \<open>QUrl\<close> are
  fields of a record of functions; the score is an \<open>unsigned int\<close>. The loops that search for the
  candidate with the best score, in the scheduler and in the network factory, share the lemmas
  on \<open>best_loop\<close>.
\<close>

section \<open>Scores\<close>

record 'u qurl =
  q_eq :: "'u \<Rightarrow> 'u \<Rightarrow> bool"
  q_host :: "'u \<Rightarrow> string"
  q_path :: "'u \<Rightarrow> string"
  q_hasQuery :: "'u \<Rightarrow> bool"
  q_queryItems :: "'u \<Rightarrow> (string \<times> string) list"
  q_hasFragment :: "'u \<Rightarrow> bool"
  q_hasQueryItem :: "'u \<Rightarrow> string \<Rightarrow> bool"
  q_queryItemValue :: "'u \<Rightarrow> string \<Rightarrow> string"

abbreviation MATCH :: "32 word" where "MATCH \<equiv> - 1"
abbreviation MISMATCH :: "32 word" where "MISMATCH \<equiv> 0"

text \<open>\<open>QString::split\<close> with one character: the pieces between its occurrences, empty ones kept.\<close>

fun split_at :: "char \<Rightarrow> string \<Rightarrow> string list" where
  "split_at c [] = [[]]"
| "split_at c (x # xs) = (if x = c then [] # split_at c xs
     else (case split_at c xs of [] \<Rightarrow> [[x]] | p # ps \<Rightarrow> (x # p) # ps))"

text \<open>The loop over the query items: \<open>None\<close> is the return with a mismatch.\<close>

fun query_score :: "'u qurl \<Rightarrow> 'u \<Rightarrow> (string \<times> string) list \<Rightarrow> 32 word \<Rightarrow> 32 word option" where
  "query_score Q other [] score = Some score"
| "query_score Q other ((k, v) # items) score =
     (if \<not> q_hasQueryItem Q other k then None
      else query_score Q other items (if v = q_queryItemValue Q other k then score + 1 else score))"

text \<open>The loop over the path fragments; \<open>takeFirst\<close> on an empty list would be undefined.\<close>

fun path_score :: "string list \<Rightarrow> string list \<Rightarrow> 32 word \<Rightarrow> 32 word \<Rightarrow> 32 word result" where
  "path_score [] os scorePath score = Inr score"
| "path_score (f # fs) [] scorePath score = Inl UNDEFINED"
| "path_score (f # fs) (h # os) scorePath score =
     path_score fs os scorePath (if f = h then score + scorePath else score)"

definition url_score :: "'u qurl \<Rightarrow> 'u \<Rightarrow> 'u \<Rightarrow> 32 word result" where
  "url_score Q m_url other =
     (if q_eq Q m_url other then Inr MATCH
      else if q_host Q m_url \<noteq> q_host Q other then Inr MISMATCH
      else
        (let pathFragments = split_at (CHR ''/'') (q_path Q m_url);
             otherPathFragments = split_at (CHR ''/'') (q_path Q other)
         in
           if length pathFragments \<noteq> length otherPathFragments then Inr MISMATCH
           else if q_hasQuery Q m_url \<noteq> q_hasQuery Q other then Inr MISMATCH
           else if length (q_queryItems Q m_url) \<noteq> length (q_queryItems Q other) then Inr MISMATCH
           else if q_hasFragment Q m_url \<noteq> q_hasFragment Q other then Inr MISMATCH
           else (case query_score Q other (q_queryItems Q m_url) 1 of
                   None \<Rightarrow> Inr MISMATCH
                 | Some score \<Rightarrow>
                     path_score pathFragments otherPathFragments (of_nat (length (q_queryItems Q m_url)) + 1) score)))"

section \<open>What the score means\<close>

definition comparable :: "'u qurl \<Rightarrow> 'u \<Rightarrow> 'u \<Rightarrow> bool" where
  "comparable Q a b =
     (q_host Q a = q_host Q b
      \<and> length (split_at (CHR ''/'') (q_path Q a)) = length (split_at (CHR ''/'') (q_path Q b))
      \<and> q_hasQuery Q a = q_hasQuery Q b \<and> length (q_queryItems Q a) = length (q_queryItems Q b)
      \<and> q_hasFragment Q a = q_hasFragment Q b
      \<and> (\<forall>item \<in> set (q_queryItems Q a). q_hasQueryItem Q b (fst item)))"

definition query_matches :: "'u qurl \<Rightarrow> 'u \<Rightarrow> 'u \<Rightarrow> nat" where
  "query_matches Q a b = length (filter (\<lambda>(k, v). v = q_queryItemValue Q b k) (q_queryItems Q a))"

definition path_matches :: "'u qurl \<Rightarrow> 'u \<Rightarrow> 'u \<Rightarrow> nat" where
  "path_matches Q a b =
     length (filter (\<lambda>(f, h). f = h) (zip (split_at (CHR ''/'') (q_path Q a)) (split_at (CHR ''/'') (q_path Q b))))"

lemma query_score_value:
  "query_score Q other items s =
     (if \<forall>item \<in> set items. q_hasQueryItem Q other (fst item)
      then Some (s + of_nat (length (filter (\<lambda>(k, v). v = q_queryItemValue Q other k) items))) else None)"
  by (induction Q other items s rule: query_score.induct) auto

lemma path_score_value:
  "length fs = length os \<Longrightarrow>
     path_score fs os sp s = Inr (s + sp * of_nat (length (filter (\<lambda>(f, h). f = h) (zip fs os))))"
  by (induction fs os sp s rule: path_score.induct) (auto simp: algebra_simps)

lemma url_score_value:
  "url_score Q a b =
     Inr (if q_eq Q a b then MATCH
          else if comparable Q a b
          then 1 + of_nat (query_matches Q a b) + (of_nat (length (q_queryItems Q a)) + 1) * of_nat (path_matches Q a b)
          else MISMATCH)"
  by (auto simp: url_score_def Let_def comparable_def query_score_value path_score_value query_matches_def path_matches_def)

text \<open>With a URL of ordinary size the sum does not wrap.\<close>

definition url_small :: "'u qurl \<Rightarrow> 'u \<Rightarrow> bool" where
  "url_small Q a = ((length (q_queryItems Q a) + 1) * (length (split_at (CHR ''/'') (q_path Q a)) + 1) < 2 ^ 32 - 1)"

lemma query_matches_le: "query_matches Q a b \<le> length (q_queryItems Q a)"
  by (simp add: query_matches_def)

lemma path_matches_le: "path_matches Q a b \<le> length (split_at (CHR ''/'') (q_path Q a))"
proof -
  have "path_matches Q a b \<le> length (zip (split_at (CHR ''/'') (q_path Q a)) (split_at (CHR ''/'') (q_path Q b)))"
    unfolding path_matches_def by (rule length_filter_le)
  then show ?thesis by simp
qed

lemma score_bound:
  "1 + query_matches Q a b + (length (q_queryItems Q a) + 1) * path_matches Q a b
     \<le> (length (q_queryItems Q a) + 1) * (length (split_at (CHR ''/'') (q_path Q a)) + 1)"
proof -
  have "(length (q_queryItems Q a) + 1) * path_matches Q a b
      \<le> (length (q_queryItems Q a) + 1) * length (split_at (CHR ''/'') (q_path Q a))"
    by (rule mult_left_mono [OF path_matches_le]) simp
  then show ?thesis using query_matches_le [of Q a b] by simp
qed

lemma url_score_unat:
  assumes "url_small Q a" "\<not> q_eq Q a b" "comparable Q a b"
  obtains s where "url_score Q a b = Inr s"
    "unat s = 1 + query_matches Q a b + (length (q_queryItems Q a) + 1) * path_matches Q a b" "unat s < 2 ^ 32 - 1"
proof -
  let ?n = "1 + query_matches Q a b + (length (q_queryItems Q a) + 1) * path_matches Q a b"
  have n: "?n < 2 ^ 32 - 1" using assms(1) score_bound [of Q a b] by (simp add: url_small_def)
  have "url_score Q a b = Inr (of_nat ?n)" using assms(2,3) by (simp add: url_score_value distrib_right)
  moreover have "unat (of_nat m :: 32 word) = m" if "m < 2 ^ 32 - 1" for m
    using that by (simp add: unat_of_nat take_bit_eq_mod)
  from this [OF n] have "unat (of_nat ?n :: 32 word) = ?n" .
  ultimately show ?thesis using n that by presburger
qed

text \<open>
  C25: for two different candidates of the same shape as the wanted URL, the candidate that agrees in
  more path fragments gets the higher score whatever the query values, candidates that agree in
  equally many are ordered by the number of equal query values, and both score strictly
  between a mismatch and an exact match (the 32-bit sum does not wrap for a URL of ordinary size).
\<close>

theorem score_path_before_query:
  assumes "url_small Q u" "comparable Q u a" "comparable Q u b" "\<not> q_eq Q u a" "\<not> q_eq Q u b"
  shows "\<exists>sa sb. url_score Q u a = Inr sa \<and> url_score Q u b = Inr sb
     \<and> (sa < sb \<longleftrightarrow> path_matches Q u a < path_matches Q u b
          \<or> path_matches Q u a = path_matches Q u b \<and> query_matches Q u a < query_matches Q u b)
     \<and> MISMATCH < sa \<and> sa < MATCH"
proof -
  let ?n = "length (q_queryItems Q u)"
  obtain sa where sa: "url_score Q u a = Inr sa"
    "unat sa = 1 + query_matches Q u a + (?n + 1) * path_matches Q u a" "unat sa < 2 ^ 32 - 1"
    using url_score_unat [OF assms(1,4,2)] by metis
  obtain sb where sb: "url_score Q u b = Inr sb"
    "unat sb = 1 + query_matches Q u b + (?n + 1) * path_matches Q u b"
    using url_score_unat [OF assms(1,5,3)] by metis
  have lex: "q1 + (m + 1) * p1 < q2 + (m + 1) * p2 \<longleftrightarrow> p1 < p2 \<or> p1 = p2 \<and> q1 < q2"
    if "q1 \<le> m" "q2 \<le> m" for q1 q2 p1 p2 m :: nat
  proof -
    have less: "q1 + (m + 1) * p1 < q2 + (m + 1) * p2" if "p1 < p2" "q1 \<le> m" for p1 p2 q1 q2 :: nat
    proof -
      have "(m + 1) * Suc p1 \<le> (m + 1) * p2" using that by (intro mult_left_mono) auto
      then show ?thesis using that by simp
    qed
    show ?thesis
      using less [of p1 p2 q1 q2] less [of p2 p1 q2 q1] that by (cases p1 p2 rule: linorder_cases) auto
  qed
  have "unat sa < unat sb \<longleftrightarrow> path_matches Q u a < path_matches Q u b
      \<or> path_matches Q u a = path_matches Q u b \<and> query_matches Q u a < query_matches Q u b"
    using lex [OF query_matches_le [of Q u a] query_matches_le [of Q u b]] sa(2) sb(2) by simp
  moreover have "0 < unat sa" "unat sa < unat (- 1 :: 32 word)"
    using sa(2,3) by (simp_all add: unsigned_minus_1_eq_mask mask_eq_exp_minus_1)
  ultimately show ?thesis using sa(1) sb(1) by (auto simp: word_less_nat_alt)
qed

text \<open>URLs as triples of host, path and query items, for an example.\<close>

definition triple_url :: "(string \<times> string \<times> (string \<times> string) list) qurl" where
  "triple_url =
     \<lparr>q_eq = (=), q_host = fst, q_path = (\<lambda>u. fst (snd u)), q_hasQuery = (\<lambda>u. snd (snd u) \<noteq> []),
      q_queryItems = (\<lambda>u. snd (snd u)), q_hasFragment = (\<lambda>u. False),
      q_hasQueryItem = (\<lambda>u k. k \<in> fst ` set (snd (snd u))),
      q_queryItemValue = (\<lambda>u k. case map_of (snd (snd u)) k of None \<Rightarrow> [] | Some v \<Rightarrow> v)\<rparr>"

theorem score_path_before_query_witness:
  "\<exists>sa sb. url_score triple_url (''h'', ''/a/b'', [(''t'', ''1'')]) (''h'', ''/x/b'', [(''t'', ''1'')]) = Inr sa
     \<and> url_score triple_url (''h'', ''/a/b'', [(''t'', ''1'')]) (''h'', ''/a/b'', [(''t'', ''2'')]) = Inr sb \<and> sa < sb"
  using score_path_before_query [of triple_url "(''h'', ''/a/b'', [(''t'', ''1'')])" "(''h'', ''/x/b'', [(''t'', ''1'')])"
      "(''h'', ''/a/b'', [(''t'', ''2'')])"]
  by (auto simp: triple_url_def url_small_def comparable_def path_matches_def)

section \<open>The search for the best candidate\<close>

text \<open>
  Both search loops start with score 0 and replace the best candidate when a score is strictly
  greater; \<open>None\<close> is the initial state.
\<close>

fun best_loop :: "('c \<Rightarrow> 32 word) \<Rightarrow> 'c list \<Rightarrow> 32 word \<times> 'c option \<Rightarrow> 32 word \<times> 'c option" where
  "best_loop f [] best = best"
| "best_loop f (c # cs) best = best_loop f cs (if f c > fst best then (f c, Some c) else best)"

lemma best_loop_max:
  "case best_loop f cs (s, b) of (s', b') \<Rightarrow> s \<le> s' \<and> (\<forall>c \<in> set cs. f c \<le> s')
     \<and> (s' = s \<and> b' = b \<or> s < s' \<and> (\<exists>c \<in> set cs. b' = Some c \<and> f c = s'))"
proof (induction cs arbitrary: s b)
  case (Cons c cs)
  show ?case
  proof (cases "f c > s")
    case True
    with Cons.IH [of "f c" "Some c"] show ?thesis by (auto split: prod.splits)
  next
    case False
    with Cons.IH [of s b] show ?thesis by (auto split: prod.splits)
  qed
qed simp

end
