(* ===== verification/Std_Heap.thy ===== *)
theory Std_Heap
  imports Main "HOL-Library.Multiset"
begin

text \<open>
  \<open>std::push_heap\<close> and \<open>std::pop_heap\<close> as the C++ library implements them, over any storage
  with an element access and an element assignment, as the templates are (\<open>Source/WebCore/platform/Timer.cpp\<close>
  instantiates them with an assignment that also stores the index of the element). The locale \<open>heap_order\<close>
  is the contract of the comparison; its lemmas show, for the storage that is a list, that
  the algorithms permute the elements and establish the heap property.
\<close>

section \<open>The algorithms\<close>

abbreviation parent :: "nat \<Rightarrow> nat" where
  "parent i \<equiv> (i - 1) div 2"

text \<open>\<open>__push_heap\<close>: the hole moves up as long as its parent compares less than the value.\<close>

fun push_loop :: "('s \<Rightarrow> nat \<Rightarrow> 'e) \<Rightarrow> (nat \<Rightarrow> 'e \<Rightarrow> 's \<Rightarrow> 's) \<Rightarrow> ('e \<Rightarrow> 'e \<Rightarrow> bool) \<Rightarrow> nat \<Rightarrow> 'e \<Rightarrow> 's \<Rightarrow> 's" where
  "push_loop get put cmp hole v s =
     (if 0 < hole \<and> cmp (get s (parent hole)) v
      then push_loop get put cmp (parent hole) v (put hole (get s (parent hole)) s)
      else put hole v s)"

declare push_loop.simps [simp del]

definition push_heap :: "('s \<Rightarrow> nat \<Rightarrow> 'e) \<Rightarrow> (nat \<Rightarrow> 'e \<Rightarrow> 's \<Rightarrow> 's) \<Rightarrow> ('e \<Rightarrow> 'e \<Rightarrow> bool) \<Rightarrow> nat \<Rightarrow> 's \<Rightarrow> 's" where
  "push_heap get put cmp n s = push_loop get put cmp (n - 1) (get s (n - 1)) s"

text \<open>The first loop of \<open>__adjust_heap\<close>: the hole moves down, each time to the child that compares greater.\<close>

function adjust_loop :: "('s \<Rightarrow> nat \<Rightarrow> 'e) \<Rightarrow> (nat \<Rightarrow> 'e \<Rightarrow> 's \<Rightarrow> 's) \<Rightarrow> ('e \<Rightarrow> 'e \<Rightarrow> bool) \<Rightarrow> nat \<Rightarrow> nat \<Rightarrow> 's \<Rightarrow> nat \<times> 's" where
  "adjust_loop get put cmp len hole s =
     (if hole < (len - 1) div 2
      then (let second = 2 * (hole + 1);
                child = (if cmp (get s second) (get s (second - 1)) then second - 1 else second)
            in adjust_loop get put cmp len child (put hole (get s child) s))
      else (hole, s))"
  by pat_completeness auto
termination
  by (relation "measure (\<lambda>(get, put, cmp, len, hole, s). len - hole)") (auto split: if_splits)

declare adjust_loop.simps [simp del]

definition adjust_heap :: "('s \<Rightarrow> nat \<Rightarrow> 'e) \<Rightarrow> (nat \<Rightarrow> 'e \<Rightarrow> 's \<Rightarrow> 's) \<Rightarrow> ('e \<Rightarrow> 'e \<Rightarrow> bool) \<Rightarrow> nat \<Rightarrow> 'e \<Rightarrow> 's \<Rightarrow> 's" where
  "adjust_heap get put cmp len v s =
     (let (hole, s1) = adjust_loop get put cmp len 0 s in
      if even len \<and> hole = (len - 2) div 2
      then (let child = 2 * (hole + 1) - 1 in push_loop get put cmp child v (put hole (get s1 child) s1))
      else push_loop get put cmp hole v s1)"

definition pop_heap :: "('s \<Rightarrow> nat \<Rightarrow> 'e) \<Rightarrow> (nat \<Rightarrow> 'e \<Rightarrow> 's \<Rightarrow> 's) \<Rightarrow> ('e \<Rightarrow> 'e \<Rightarrow> bool) \<Rightarrow> nat \<Rightarrow> 's \<Rightarrow> 's" where
  "pop_heap get put cmp n s =
     (if n \<le> 1 then s
      else (let v = get s (n - 1) in adjust_heap get put cmp (n - 1) v (put (n - 1) (get s 0) s)))"

section \<open>Lists as storage\<close>

abbreviation lput :: "nat \<Rightarrow> 'e \<Rightarrow> 'e list \<Rightarrow> 'e list" where
  "lput i v xs \<equiv> xs[i := v]"

text \<open>A storage that behaves like the list it stands for runs the algorithms like the list.\<close>

lemma push_loop_abs:
  assumes "\<And>s i. alpha s ! i = get s i" "\<And>i v s. alpha (put i v s) = (alpha s)[i := v]"
  shows "alpha (push_loop get put cmp hole v s) = push_loop (!) lput cmp hole v (alpha s)"
  using assms
proof (induction get put cmp hole v s rule: push_loop.induct)
  case (1 get put cmp hole v s)
  then show ?case by (subst (1 2) push_loop.simps) simp
qed

lemma adjust_loop_abs:
  assumes "\<And>s i. alpha s ! i = get s i" "\<And>i v s. alpha (put i v s) = (alpha s)[i := v]"
  shows "(fst (adjust_loop get put cmp len hole s), alpha (snd (adjust_loop get put cmp len hole s)))
    = adjust_loop (!) lput cmp len hole (alpha s)"
  using assms
proof (induction get put cmp len hole s rule: adjust_loop.induct)
  case (1 get put cmp len hole s)
  then show ?case by (subst (1 2 3) adjust_loop.simps) (simp add: Let_def)
qed

lemma adjust_heap_abs:
  assumes "\<And>s i. alpha s ! i = get s i" "\<And>i v s. alpha (put i v s) = (alpha s)[i := v]"
  shows "alpha (adjust_heap get put cmp len v s) = adjust_heap (!) lput cmp len v (alpha s)"
  using adjust_loop_abs [where alpha = alpha, OF assms, of cmp len 0 s, symmetric] push_loop_abs [where alpha = alpha, OF assms]
  by (simp add: adjust_heap_def case_prod_unfold Let_def assms)

lemma pop_heap_abs:
  assumes "\<And>s i. alpha s ! i = get s i" "\<And>i v s. alpha (put i v s) = (alpha s)[i := v]"
  shows "alpha (pop_heap get put cmp n s) = pop_heap (!) lput cmp n (alpha s)"
  using adjust_heap_abs [where alpha = alpha, OF assms] by (simp add: pop_heap_def Let_def assms)

lemma push_heap_abs:
  assumes "\<And>s i. alpha s ! i = get s i" "\<And>i v s. alpha (put i v s) = (alpha s)[i := v]"
  shows "alpha (push_heap get put cmp n s) = push_heap (!) lput cmp n (alpha s)"
  using push_loop_abs [where alpha = alpha, OF assms] by (simp add: push_heap_def assms)

text \<open>The algorithms permute.\<close>

lemma mset_swap_hole:
  assumes "i < length xs" "j < length xs" "i \<noteq> j"
  shows "mset (xs[i := xs ! j, j := v]) = mset (xs[i := v])"
proof -
  have "xs[i := xs ! j, j := v] = (xs[i := v])[i := (xs[i := v]) ! j, j := (xs[i := v]) ! i]"
    using assms by (simp add: list_update_swap)
  also have "mset \<dots> = mset (xs[i := v])" using assms by (intro mset_swap) simp_all
  finally show ?thesis .
qed

lemma push_loop_up:
  "0 < hole \<Longrightarrow> cmp (xs ! parent hole) v \<Longrightarrow>
     push_loop (!) lput cmp hole v xs = push_loop (!) lput cmp (parent hole) v (xs[hole := xs ! parent hole])"
  by (subst push_loop.simps) simp

lemma push_loop_stop:
  "\<not> (0 < hole \<and> cmp (xs ! parent hole) v) \<Longrightarrow> push_loop (!) lput cmp hole v xs = xs[hole := v]"
  by (subst push_loop.simps) auto

lemma parent_less: "0 < i \<Longrightarrow> parent i < i"
  by auto

lemma set_lput: "set xs \<subseteq> D \<Longrightarrow> v \<in> D \<Longrightarrow> set (xs[i := v]) \<subseteq> D"
  using set_update_subset_insert [of xs i v] by blast

lemma nth_in: "set xs \<subseteq> D \<Longrightarrow> i < length xs \<Longrightarrow> xs ! i \<in> D"
  by (meson nth_mem subsetD)

lemma push_loop_mset:
  "hole < length xs \<Longrightarrow> mset (push_loop (!) lput cmp hole v xs) = mset (xs[hole := v])
     \<and> length (push_loop (!) lput cmp hole v xs) = length xs"
proof (induction hole arbitrary: xs rule: less_induct)
  case (less hole)
  show ?case
  proof (cases "0 < hole \<and> cmp (xs ! parent hole) v")
    case True
    note up = push_loop_up [of hole cmp xs v] and lt = parent_less [of hole]
    show ?thesis
      using less.IH [OF lt, of "xs[hole := xs ! parent hole]"] True less.prems mset_swap_hole [of hole xs "parent hole" v] lt up
      by simp
  qed (simp add: push_loop_stop)
qed

lemma push_loop_above: "hole < k \<Longrightarrow> push_loop (!) lput cmp hole v xs ! k = xs ! k"
proof (induction hole arbitrary: xs rule: less_induct)
  case (less hole)
  show ?case
  proof (cases "0 < hole \<and> cmp (xs ! parent hole) v")
    case True
    note up = push_loop_up [of hole cmp xs v] and lt = parent_less [of hole]
    show ?thesis using less.IH [OF lt, of "xs[hole := xs ! parent hole]"] True less.prems lt up by simp
  qed (use less.prems in \<open>simp add: push_loop_stop\<close>)
qed

section \<open>The contract of the comparison\<close>

text \<open>
  \<open>lt s a b\<close> says that \<open>a\<close> has to come after \<open>b\<close>. On the elements of a valid set it is a strict total order between different
  elements; what it says of an element and itself does not matter, because the algorithms never ask.
\<close>

locale heap_order =
  fixes lt :: "'s \<Rightarrow> 'e \<Rightarrow> 'e \<Rightarrow> bool"
    and valid_h :: "'s \<Rightarrow> 'e set \<Rightarrow> bool"
  assumes lt_asym: "valid_h s D \<Longrightarrow> a \<in> D \<Longrightarrow> b \<in> D \<Longrightarrow> a \<noteq> b \<Longrightarrow> lt s a b \<longleftrightarrow> \<not> lt s b a"
    and lt_trans: "valid_h s D \<Longrightarrow> a \<in> D \<Longrightarrow> b \<in> D \<Longrightarrow> c \<in> D \<Longrightarrow> a \<noteq> b \<Longrightarrow> b \<noteq> c \<Longrightarrow> a \<noteq> c \<Longrightarrow>
        lt s a b \<Longrightarrow> lt s b c \<Longrightarrow> lt s a c"
begin

text \<open>The order of the elements: the first element of a heap is the least of them.\<close>

definition before :: "'s \<Rightarrow> 'e \<Rightarrow> 'e \<Rightarrow> bool" where
  "before s a b = (a = b \<or> lt s b a)"

lemma before_refl [simp]: "before s a a"
  by (simp add: before_def)

lemma before_trans:
  "valid_h s D \<Longrightarrow> {a, b, c} \<subseteq> D \<Longrightarrow> before s a b \<Longrightarrow> before s b c \<Longrightarrow> before s a c"
  using lt_trans [of s D c b a] lt_asym [of s D a b] by (auto simp: before_def)

lemma not_lt_before: "valid_h s D \<Longrightarrow> {a, b} \<subseteq> D \<Longrightarrow> \<not> lt s a b \<Longrightarrow> before s a b"
  using lt_asym [of s D a b] by (auto simp: before_def)

lemma lt_before: "lt s a b \<Longrightarrow> before s b a"
  by (simp add: before_def)

definition is_heap :: "'s \<Rightarrow> nat \<Rightarrow> 'e list \<Rightarrow> bool" where
  "is_heap s n xs = (\<forall>i. 0 < i \<and> i < n \<longrightarrow> before s (xs ! parent i) (xs ! i))"

text \<open>The heap property when the element at \<open>h\<close> is disregarded.\<close>

definition hole_heap :: "'s \<Rightarrow> nat \<Rightarrow> nat \<Rightarrow> 'e list \<Rightarrow> bool" where
  "hole_heap s n h xs =
     ((\<forall>i. 0 < i \<and> i < n \<and> i \<noteq> h \<and> parent i \<noteq> h \<longrightarrow> before s (xs ! parent i) (xs ! i))
      \<and> (\<forall>i. 0 < i \<and> i < n \<and> parent i = h \<and> 0 < h \<longrightarrow> before s (xs ! parent h) (xs ! i)))"

lemma heap_hole:
  assumes "valid_h s D" "set xs \<subseteq> D" "n \<le> length xs" "is_heap s n xs" "h < n"
  shows "hole_heap s n h xs"
proof -
  have "before s (xs ! parent h) (xs ! i)" if "0 < i" "i < n" "parent i = h" "0 < h" for i
  proof -
    have "before s (xs ! h) (xs ! i)" "before s (xs ! parent h) (xs ! h)"
      using assms(4,5) that unfolding is_heap_def by blast+
    moreover have "{xs ! parent h, xs ! h, xs ! i} \<subseteq> D"
      using assms(2,3,5) that parent_less [of h] by (auto intro!: subsetD [OF assms(2)] nth_mem)
    ultimately show ?thesis using before_trans [OF assms(1)] by blast
  qed
  then show ?thesis using assms(4) by (simp add: hole_heap_def is_heap_def)
qed

text \<open>What \<open>__push_heap\<close> needs: the value may come before its parent, but not after its children.\<close>

lemma push_loop_heap:
  assumes "valid_h s D" "insert v (set xs) \<subseteq> D" "n \<le> length xs" "h < n"
    and "hole_heap s n h xs" "\<forall>i. 0 < i \<and> i < n \<and> parent i = h \<longrightarrow> before s v (xs ! i)"
  shows "is_heap s n (push_loop (!) lput (lt s) h v xs)"
  using assms
proof (induction h arbitrary: xs rule: less_induct)
  case (less h)
  have parents: "parent i < n" "parent i < length xs" "i < length xs" if "i < n" for i using that less.prems(3) by auto
  show ?case
  proof (cases "0 < h \<and> lt s (xs ! parent h) v")
    case True
    let ?p = "parent h" and ?xs = "xs[h := xs ! parent h]"
    have ph: "?p < h" "?p < n" using True less.prems(4) by auto
    have inD: "xs ! i \<in> D" if "i < n" for i using that less.prems(2,3) by (auto intro!: subsetD [OF less.prems(2)])
    have hole: "hole_heap s n ?p ?xs"
      unfolding hole_heap_def
    proof (intro conjI allI impI)
      fix i assume "0 < i \<and> i < n \<and> i \<noteq> ?p \<and> parent i \<noteq> ?p"
      then show "before s (?xs ! parent i) (?xs ! i)"
        using less.prems(3-5) True parents [of i] ph by (auto simp: hole_heap_def nth_list_update)
    next
      fix i assume i: "0 < i \<and> i < n \<and> parent i = ?p \<and> 0 < ?p"
      have up: "before s (xs ! parent ?p) (xs ! ?p)" if "0 < ?p"
        using less.prems(5) that ph by (auto simp: hole_heap_def)
      have sib: "before s (xs ! ?p) (xs ! i)" if "i \<noteq> h" using less.prems(5) i that ph by (auto simp: hole_heap_def)
      have "before s (xs ! parent ?p) (xs ! i)" if "i \<noteq> h"
        using before_trans [OF less.prems(1) _ up sib] i that inD ph parents [of "parent h"] by auto
      then show "before s (?xs ! parent ?p) (?xs ! i)"
        using up i less.prems(3,4) ph by (cases "i = h") (auto simp: nth_list_update)
    qed
    have below: "\<forall>i. 0 < i \<and> i < n \<and> parent i = ?p \<longrightarrow> before s v (?xs ! i)"
    proof (intro allI impI)
      fix i assume i: "0 < i \<and> i < n \<and> parent i = ?p"
      have vp: "before s v (xs ! ?p)" using True by (simp add: lt_before)
      show "before s v (?xs ! i)"
      proof (cases "i = h")
        case False
        then have "before s (xs ! ?p) (xs ! i)" using less.prems(5) i ph by (auto simp: hole_heap_def)
        then show ?thesis using before_trans [OF less.prems(1) _ vp] False inD i ph less.prems(2) by auto
      qed (use vp less.prems(3,4) in simp)
    qed
    have "insert v (set ?xs) \<subseteq> D" using less.prems(2) inD [OF ph(2)] set_update_subset_insert [of xs h "xs ! ?p"] by blast
    from less.IH [OF ph(1) less.prems(1) this _ ph(2) hole below] show ?thesis
      using True less.prems(3) by (simp add: push_loop_up)
  next
    case False
    have "before s (xs ! parent h) v" if "0 < h"
      using not_lt_before [OF less.prems(1), of "xs ! parent h" v] False that less.prems(2) parents [of h] less.prems(4)
        nth_in [of xs D "parent h"]
      by auto
    then show ?thesis
      unfolding push_loop_stop [of h "lt s" xs v, OF False] is_heap_def using less.prems(3-6) parents
      by (auto simp: hole_heap_def nth_list_update)
  qed
qed

text \<open>The hole that moves down leaves a heap with a hole at a leaf, and permutes what it passes.\<close>

lemma hole_down:
  assumes "valid_h s D" "set xs \<subseteq> D" "n \<le> length xs" "hole_heap s n h xs" "h < n" "c < n" "0 < c" "parent c = h"
    and "\<forall>i. 0 < i \<and> i < n \<and> parent i = h \<and> i \<noteq> c \<longrightarrow> before s (xs ! c) (xs ! i)"
  shows "hole_heap s n c (xs[h := xs ! c])"
  unfolding hole_heap_def
proof (intro conjI allI impI)
  fix i assume i: "0 < i \<and> i < n \<and> i \<noteq> c \<and> parent i \<noteq> c"
  have "c \<noteq> h" "parent i < n" using assms(5-8) i by auto
  then show "before s (xs[h := xs ! c] ! parent i) (xs[h := xs ! c] ! i)"
    using assms(3-9) i by (cases "i = h") (auto simp: hole_heap_def nth_list_update)
next
  fix i assume i: "0 < i \<and> i < n \<and> parent i = c \<and> 0 < c"
  have "before s (xs ! c) (xs ! i)" using assms(4,7,8) i by (auto simp: hole_heap_def)
  moreover have "i \<noteq> h" using i assms(7,8) by auto
  ultimately show "before s (xs[h := xs ! c] ! parent c) (xs[h := xs ! c] ! i)"
    using assms(3,5,8) by (simp add: nth_list_update)
qed

definition hole_state :: "'s \<Rightarrow> 'e set \<Rightarrow> nat \<Rightarrow> nat \<Rightarrow> 'e list \<Rightarrow> bool" where
  "hole_state s D n h xs = (set xs \<subseteq> D \<and> n \<le> length xs \<and> h < n \<and> hole_heap s n h xs)"

lemma hole_state_down:
  assumes "valid_h s D" "hole_state s D n h xs" "c < n" "0 < c" "parent c = h"
    and "\<forall>i. 0 < i \<and> i < n \<and> parent i = h \<and> i \<noteq> c \<longrightarrow> before s (xs ! c) (xs ! i)"
  shows "hole_state s D n c (xs[h := xs ! c])" "mset (xs[h := xs ! c, c := v]) = mset (xs[h := v])"
proof -
  have "set (xs[h := xs ! c]) \<subseteq> D"
    using assms(2,3) by (intro set_lput nth_in) (auto simp: hole_state_def)
  then show "hole_state s D n c (xs[h := xs ! c])"
    using hole_down [OF assms(1) _ _ _ _ assms(3-6)] assms(2,3) by (simp add: hole_state_def)
  show "mset (xs[h := xs ! c, c := v]) = mset (xs[h := v])"
    using assms(2-5) by (intro mset_swap_hole) (auto simp: hole_state_def)
qed

lemma adjust_loop_hole:
  assumes "valid_h s D" "hole_state s D n h xs" "adjust_loop (!) lput (lt s) n h xs = (h', xs')"
  shows "hole_state s D n h' xs' \<and> \<not> h' < (n - 1) div 2 \<and> length xs' = length xs \<and> mset (xs'[h' := v]) = mset (xs[h := v])
     \<and> (\<forall>k \<ge> n. xs' ! k = xs ! k)"
  using assms
proof (induction "n - h" arbitrary: h xs rule: less_induct)
  case less
  show ?case
  proof (cases "h < (n - 1) div 2")
    case True
    let ?r = "2 * (h + 1)"
    define c where "c = (if lt s (xs ! ?r) (xs ! (?r - 1)) then ?r - 1 else ?r)"
    have c: "c < n" "0 < c" "parent c = h" "h < c" using True by (auto simp: c_def)
    have "before s (xs ! c) (xs ! i)" if i: "0 < i \<and> i < n \<and> parent i = h \<and> i \<noteq> c" for i
    proof -
      have "i = ?r \<or> i = ?r - 1" using i by auto
      moreover have "{xs ! ?r, xs ! (?r - 1)} \<subseteq> D" using True less.prems(2) by (auto simp: hole_state_def intro!: subsetD [of "set xs" D])
      ultimately show ?thesis
        using i not_lt_before [OF less.prems(1), of "xs ! ?r" "xs ! (?r - 1)"] by (auto simp: c_def lt_before split: if_splits)
    qed
    then have down: "hole_state s D n c (xs[h := xs ! c])" "mset (xs[h := xs ! c, c := v]) = mset (xs[h := v])"
      using hole_state_down [OF less.prems(1,2) c(1-3)] by blast+
    have run: "adjust_loop (!) lput (lt s) n c (xs[h := xs ! c]) = (h', xs')"
      using less.prems(3) True unfolding c_def by (subst (asm) adjust_loop.simps) (simp only: Let_def if_True)
    have "n - c < n - h" using c by simp
    from less.hyps [OF this less.prems(1) down(1) run] show ?thesis using down(2) less.prems(2) by (simp add: hole_state_def)
  next
    case False
    with less.prems show ?thesis by (subst (asm) adjust_loop.simps) simp
  qed
qed

lemma adjust_heap_result:
  assumes "valid_h s D" "hole_state s D n 0 xs" "v \<in> D"
  shows "is_heap s n (adjust_heap (!) lput (lt s) n v xs)" "mset (adjust_heap (!) lput (lt s) n v xs) = mset (xs[0 := v])"
    "length (adjust_heap (!) lput (lt s) n v xs) = length xs"
    "\<forall>k \<ge> n. adjust_heap (!) lput (lt s) n v xs ! k = xs ! k"
proof -
  obtain h xs1 where a: "adjust_loop (!) lput (lt s) n 0 xs = (h, xs1)" by fastforce
  note l = adjust_loop_hole [OF assms(1,2) a, of v]
  define h2 xs2 where "h2 = (if even n \<and> h = (n - 2) div 2 then 2 * (h + 1) - 1 else h)"
    and "xs2 = (if even n \<and> h = (n - 2) div 2 then xs1[h := xs1 ! (2 * (h + 1) - 1)] else xs1)"
  have run: "adjust_heap (!) lput (lt s) n v xs = push_loop (!) lput (lt s) h2 v xs2"
    by (simp add: adjust_heap_def a h2_def xs2_def Let_def)
  have st: "hole_state s D n h2 xs2 \<and> mset (xs2[h2 := v]) = mset (xs[0 := v]) \<and> length xs2 = length xs \<and> (\<forall>k \<ge> n. xs2 ! k = xs ! k)
      \<and> \<not> (\<exists>i. 0 < i \<and> i < n \<and> parent i = h2)"
  proof (cases "even n \<and> h = (n - 2) div 2")
    case True
    have n: "0 < n" using assms(2) by (simp add: hole_state_def)
    with True have c: "2 * (h + 1) - 1 < n" "parent (2 * (h + 1) - 1) = h" "h < n" by (auto elim!: evenE)
    have only: "i = 2 * (h + 1) - 1" if "0 < i" "i < n" "parent i = h" for i 
    proof -
      obtain b where "n = 2 * Suc b" using True n by (metis evenE nat_0_less_mult_iff not0_implies_Suc less_numeral_extra(3))
      then show ?thesis using that True by auto
    qed
    have down: "hole_state s D n (2 * (h + 1) - 1) (xs1[h := xs1 ! (2 * (h + 1) - 1)])"
      "mset (xs1[h := xs1 ! (2 * (h + 1) - 1), 2 * (h + 1) - 1 := v]) = mset (xs1[h := v])"
      using hole_state_down [OF assms(1) conjunct1 [OF l] c(1) _ c(2)] only by auto
    have "\<not> (\<exists>i. 0 < i \<and> i < n \<and> parent i = 2 * (h + 1) - 1)" using True n by (auto elim!: evenE)
    then show ?thesis using down l c(3) True by (simp add: h2_def xs2_def)
  next
    case False
    have "\<not> (\<exists>i. 0 < i \<and> i < n \<and> parent i = h)"
    proof
      assume "\<exists>i. 0 < i \<and> i < n \<and> parent i = h"
      then obtain i where i: "0 < i" "i < n" "parent i = h" by blast
      from l have "(n - 1) div 2 \<le> h" by simp
      with i have "2 * h + 2 = n" by auto
      with False show False by auto
    qed
    moreover have "h2 = h" "xs2 = xs1" using False unfolding h2_def xs2_def by (simp_all only: if_False)
    ultimately show ?thesis using l by simp
  qed
  then have pre: "insert v (set xs2) \<subseteq> D" "n \<le> length xs2" "h2 < n" "hole_heap s n h2 xs2"
    using assms(3) by (auto simp: hole_state_def)
  show "is_heap s n (adjust_heap (!) lput (lt s) n v xs)" unfolding run
    by (rule push_loop_heap [OF assms(1) pre]) (use st in blast)
  show "mset (adjust_heap (!) lput (lt s) n v xs) = mset (xs[0 := v])" "length (adjust_heap (!) lput (lt s) n v xs) = length xs"
    unfolding run using push_loop_mset [of h2 xs2] st pre by auto
  show "\<forall>k \<ge> n. adjust_heap (!) lput (lt s) n v xs ! k = xs ! k"
    unfolding run using st pre by (auto simp: push_loop_above)
qed

text \<open>\<open>std::pop_heap\<close> puts the first element last and leaves a heap of the others before it.\<close>

lemma pop_heap_result:
  assumes "valid_h s D" "set xs \<subseteq> D" "is_heap s (length xs) xs" "xs \<noteq> []"
  shows "is_heap s (length xs - 1) (pop_heap (!) lput (lt s) (length xs) xs)"
    "mset (pop_heap (!) lput (lt s) (length xs) xs) = mset xs" "last (pop_heap (!) lput (lt s) (length xs) xs) = xs ! 0"
proof -
  let ?n = "length xs" and ?r = "pop_heap (!) lput (lt s) (length xs) xs"
  have "is_heap s (?n - 1) ?r \<and> mset ?r = mset xs \<and> last ?r = xs ! 0"
  proof (cases "?n \<le> 1")
    case True
    then show ?thesis using assms(4) by (cases xs) (auto simp: pop_heap_def is_heap_def)
  next
    case False
    let ?v = "xs ! (?n - 1)" and ?xs = "xs[?n - 1 := xs ! 0]"
    have run: "?r = adjust_heap (!) lput (lt s) (?n - 1) ?v ?xs" using False by (simp add: pop_heap_def Let_def)
    have "set ?xs \<subseteq> D" using assms(2) False by (intro set_lput nth_in) auto
    moreover have "hole_heap s (?n - 1) 0 ?xs" using assms(3) by (auto simp: hole_heap_def is_heap_def nth_list_update)
    ultimately have st: "hole_state s D (?n - 1) 0 ?xs" using False by (simp add: hole_state_def)
    have v: "?v \<in> D" using assms(2) False by (auto intro!: subsetD [OF assms(2)] nth_mem)
    note res = adjust_heap_result [OF assms(1) st v]
    have "mset (?xs[0 := ?v]) = mset xs"
      using mset_swap [of 0 xs "?n - 1"] False assms(4) by (simp add: list_update_swap)
    moreover have len: "length ?r = ?n" unfolding run using res(3) by simp
    moreover have "last ?r = ?r ! (?n - 1)" using len False by (subst last_conv_nth) auto
    ultimately show ?thesis using res run False by simp
  qed
  then show "is_heap s (?n - 1) ?r" "mset ?r = mset xs" "last ?r = xs ! 0" by blast+
qed

text \<open>The first element of a heap comes before all others.\<close>

lemma heap_first:
  assumes "valid_h s D" "set xs \<subseteq> D" "is_heap s (length xs) xs" "i < length xs"
  shows "before s (xs ! 0) (xs ! i)"
  using assms(4)
proof (induction i rule: less_induct)
  case (less i)
  show ?case
  proof (cases "i = 0")
    case False
    then have p: "parent i < i" "parent i < length xs" using less.prems by auto
    have "before s (xs ! parent i) (xs ! i)" using assms(3) False less.prems by (simp add: is_heap_def)
    moreover have "{xs ! 0, xs ! parent i, xs ! i} \<subseteq> D" using p less.prems by (auto intro!: subsetD [OF assms(2)] nth_mem)
    ultimately show ?thesis using before_trans [OF assms(1)] less.IH [OF p] by blast
  qed simp
qed

end

end
