(* ===== verification/Timer_Heap.thy ===== *)
theory Timer_Heap
  imports Descriptor Std_Heap
begin

text \<open>
  The timers of a thread and their heap (\<open>Source/WebCore/platform/Timer\<close>): every timer knows its
  index in the heap, the heap is kept by \<open>std::push_heap\<close> and \<open>std::pop_heap\<close>, and timers
  with the same fire time are ordered by a 32-bit insertion counter that may wrap. Timers are
  identified by their addresses. Times are whole microseconds instead of \<open>double\<close> seconds.
\<close>

section \<open>Fire times\<close>

text \<open>\<open>heapPop\<close> uses minus infinity as the time that is before all others.\<close>

datatype fire_time = Neg_Infinity | At int

instantiation fire_time :: linorder
begin

fun less_eq_fire_time :: "fire_time \<Rightarrow> fire_time \<Rightarrow> bool" where
  "less_eq_fire_time Neg_Infinity t = True"
| "less_eq_fire_time (At a) Neg_Infinity = False"
| "less_eq_fire_time (At a) (At b) = (a \<le> b)"

definition less_fire_time :: "fire_time \<Rightarrow> fire_time \<Rightarrow> bool" where
  "less_fire_time s t = (s \<le> t \<and> \<not> t \<le> s)"

instance
proof
  fix s t u :: fire_time
  show "s < t \<longleftrightarrow> s \<le> t \<and> \<not> t \<le> s" by (rule less_fire_time_def)
  show "s \<le> s" by (cases s) auto
  show "s \<le> t \<or> t \<le> s" by (cases s; cases t) auto
  show "s = t" if "s \<le> t" "t \<le> s" using that by (cases s; cases t) auto
  show "s \<le> u" if "s \<le> t" "t \<le> u" using that by (cases s; cases t; cases u) auto
qed

end

lemma Neg_Infinity_least [simp]: "Neg_Infinity < At a" "t \<noteq> Neg_Infinity \<Longrightarrow> Neg_Infinity < t"
  by (simp add: less_fire_time_def, cases t) (simp_all add: less_fire_time_def)

lemma At_less [simp]: "At a < At b \<longleftrightarrow> a < b"
  by (auto simp: less_fire_time_def)

section \<open>State\<close>

text \<open>
  The constructor leaves \<open>m_heapInsertionOrder\<close> and \<open>m_nextFireInterval\<close> uninitialised; they are
  written before they are read, and 0 here.
\<close>

record TimerBase =
  m_nextFireTime :: fire_time
  m_repeatInterval :: int
  m_heapIndex :: int
  m_heapInsertionOrder :: "32 word"
  m_lastFireEventAction :: int
  m_starterEventAction :: int
  m_nextFireInterval :: int
  m_ignoreFireIntervalForHappensBefore :: bool
  m_disableImplicitHappensBeforeRelations :: bool
  m_eventActionDescriptor :: EventActionDescriptor
  m_inEventActionRegister :: bool

definition new_TimerBase :: TimerBase where
  "new_TimerBase = \<lparr>m_nextFireTime = At 0, m_repeatInterval = 0, m_heapIndex = -1, m_heapInsertionOrder = 0,
     m_lastFireEventAction = 0, m_starterEventAction = 0, m_nextFireInterval = 0,
     m_ignoreFireIntervalForHappensBefore = False, m_disableImplicitHappensBeforeRelations = False,
     m_eventActionDescriptor = null_descriptor, m_inEventActionRegister = False\<rparr>"

record timer_heap =
  timers :: "nat \<Rightarrow> TimerBase"
  timerHeap :: "nat list"
  currentHeapInsertionOrder :: "32 word"

definition update_timer :: "nat \<Rightarrow> (TimerBase \<Rightarrow> TimerBase) \<Rightarrow> timer_heap \<Rightarrow> timer_heap" where
  "update_timer t f S = S\<lparr>timers := (timers S)(t := f (timers S t))\<rparr>"

lemma timers_update_timer: "timers (update_timer t f S) x = (if x = t then f (timers S t) else timers S x)"
  by (simp add: update_timer_def)

definition isActive :: "TimerBase \<Rightarrow> bool" where
  "isActive T = (m_nextFireTime T \<noteq> At 0 \<or> m_inEventActionRegister T)"

definition inHeap :: "TimerBase \<Rightarrow> bool" where
  "inHeap T = (m_heapIndex T \<noteq> -1)"

definition nextFireInterval :: "int \<Rightarrow> TimerBase \<Rightarrow> fire_time result" where
  "nextFireInterval current T =
     (if \<not> isActive T then Inl ASSERT_FAILED
      else (case m_nextFireTime T of Neg_Infinity \<Rightarrow> Inr (At 0)
            | At f \<Rightarrow> Inr (At (if f < current then 0 else f - current))))"

section \<open>The heap\<close>

text \<open>
  \<open>TimerHeapLessThanFunction\<close>: later times are smaller, and of equal times the later insertion, by the
  difference of the wrapping counters. A timer compares less than itself.
\<close>

definition TimerHeapLessThan :: "(nat \<Rightarrow> TimerBase) \<Rightarrow> nat \<Rightarrow> nat \<Rightarrow> bool" where
  "TimerHeapLessThan f a b =
     (let aFireTime = m_nextFireTime (f a); bFireTime = m_nextFireTime (f b) in
      if bFireTime \<noteq> aFireTime then bFireTime < aFireTime
      else m_heapInsertionOrder (f a) - m_heapInsertionOrder (f b) < 0xFFFFFFFF div 2)"

text \<open>\<open>TimerHeapReference::operator=\<close>: an assignment to an element of the heap also stores the index in the timer.\<close>

definition heap_assign :: "nat \<Rightarrow> nat \<Rightarrow> timer_heap \<Rightarrow> timer_heap" where
  "heap_assign i t S =
     (let S1 = S\<lparr>timerHeap := (timerHeap S)[i := t]\<rparr> in
      if i < length (timerHeap S) then update_timer t (\<lambda>T. T\<lparr>m_heapIndex := int i\<rparr>) S1 else S1)"

abbreviation heap_at :: "timer_heap \<Rightarrow> nat \<Rightarrow> nat" where
  "heap_at S i \<equiv> timerHeap S ! i"

definition checkHeapIndex :: "nat \<Rightarrow> timer_heap \<Rightarrow> unit result" where
  "checkHeapIndex t S =
     (let i = m_heapIndex (timers S t) in
      if timerHeap S \<noteq> [] \<and> 0 \<le> i \<and> i < int (length (timerHeap S)) \<and> timerHeap S ! nat i = t
      then Inr () else Inl ASSERT_FAILED)"

definition checkConsistency :: "nat \<Rightarrow> timer_heap \<Rightarrow> unit result" where
  "checkConsistency t S =
     (let T = timers S t in
      if inHeap T \<noteq> (m_nextFireTime T \<noteq> At 0) then Inl ASSERT_FAILED
      else if inHeap T then checkHeapIndex t S else Inr ())"

definition heapDecreaseKey :: "nat \<Rightarrow> timer_heap \<Rightarrow> timer_heap result" where
  "heapDecreaseKey t S =
     (if m_nextFireTime (timers S t) = At 0 then Inl ASSERT_FAILED
      else bindR (checkHeapIndex t S) (\<lambda>_.
        let S1 = push_heap heap_at heap_assign (TimerHeapLessThan (timers S)) (nat (m_heapIndex (timers S t)) + 1) S
        in bindR (checkHeapIndex t S1) (\<lambda>_. Inr S1)))"

definition heapPopMin :: "nat \<Rightarrow> timer_heap \<Rightarrow> timer_heap result" where
  "heapPopMin t S =
     (if timerHeap S = [] \<or> t \<noteq> hd (timerHeap S) then Inl ASSERT_FAILED
      else bindR (checkHeapIndex t S) (\<lambda>_.
        let S1 = pop_heap heap_at heap_assign (TimerHeapLessThan (timers S)) (length (timerHeap S)) S
        in bindR (checkHeapIndex t S1) (\<lambda>_. if t \<noteq> last (timerHeap S1) then Inl ASSERT_FAILED else Inr S1)))"

definition heapPop :: "nat \<Rightarrow> timer_heap \<Rightarrow> timer_heap result" where
  "heapPop t S =
     (let fireTime = m_nextFireTime (timers S t) in
      bindR (heapDecreaseKey t (update_timer t (\<lambda>T. T\<lparr>m_nextFireTime := Neg_Infinity\<rparr>) S)) (\<lambda>S1.
      bindR (heapPopMin t S1) (\<lambda>S2.
        Inr (update_timer t (\<lambda>T. T\<lparr>m_nextFireTime := fireTime\<rparr>) S2))))"

definition remove_last :: "nat \<Rightarrow> timer_heap \<Rightarrow> timer_heap" where
  "remove_last t S = update_timer t (\<lambda>T. T\<lparr>m_heapIndex := -1\<rparr>) (S\<lparr>timerHeap := butlast (timerHeap S)\<rparr>)"

definition heapDelete :: "nat \<Rightarrow> timer_heap \<Rightarrow> timer_heap result" where
  "heapDelete t S =
     (if m_nextFireTime (timers S t) \<noteq> At 0 then Inl ASSERT_FAILED
      else bindR (heapPop t S) (\<lambda>S1. Inr (remove_last t S1)))"

definition heapDeleteMin :: "nat \<Rightarrow> timer_heap \<Rightarrow> timer_heap result" where
  "heapDeleteMin t S =
     (if m_nextFireTime (timers S t) \<noteq> At 0 then Inl ASSERT_FAILED
      else bindR (heapPopMin t S) (\<lambda>S1. Inr (remove_last t S1)))"

definition heapIncreaseKey :: "nat \<Rightarrow> timer_heap \<Rightarrow> timer_heap result" where
  "heapIncreaseKey t S =
     (if m_nextFireTime (timers S t) = At 0 then Inl ASSERT_FAILED
      else bindR (heapPop t S) (heapDecreaseKey t))"

definition heapInsert :: "nat \<Rightarrow> timer_heap \<Rightarrow> timer_heap result" where
  "heapInsert t S =
     (if inHeap (timers S t) then Inl ASSERT_FAILED
      else heapDecreaseKey t (update_timer t (\<lambda>T. T\<lparr>m_heapIndex := int (length (timerHeap S))\<rparr>)
             (S\<lparr>timerHeap := timerHeap S @ [t]\<rparr>)))"

text \<open>
  The part of \<open>setNextFireTime\<close> that changes the heap: the new time and insertion order, and the
  heap operation that the change asks for.
\<close>

definition change_key :: "nat \<Rightarrow> int \<Rightarrow> timer_heap \<Rightarrow> timer_heap result" where
  "change_key t newTime S =
     (let oldTime = m_nextFireTime (timers S t);
          S1 = (update_timer t (\<lambda>T. T\<lparr>m_nextFireTime := At newTime, m_heapInsertionOrder := currentHeapInsertionOrder S\<rparr>) S)
                 \<lparr>currentHeapInsertionOrder := currentHeapInsertionOrder S + 1\<rparr>
      in if oldTime = At 0 then heapInsert t S1
         else if newTime = 0 then heapDelete t S1
         else if At newTime < oldTime then heapDecreaseKey t S1
         else heapIncreaseKey t S1)"

section \<open>Storage and comparison\<close>

lemma heap_assign_heap: "timerHeap (heap_assign i t S) = (timerHeap S)[i := t]"
  by (simp add: heap_assign_def update_timer_def Let_def)

lemma heap_assign_keys:
  "m_nextFireTime (timers (heap_assign i t S) x) = m_nextFireTime (timers S x)"
  "m_heapInsertionOrder (timers (heap_assign i t S) x) = m_heapInsertionOrder (timers S x)"
  "currentHeapInsertionOrder (heap_assign i t S) = currentHeapInsertionOrder S"
  by (simp_all add: heap_assign_def update_timer_def Let_def)

lemmas push_heap_list = push_heap_abs [where alpha = timerHeap and get = heap_at and put = heap_assign, OF refl heap_assign_heap]
lemmas pop_heap_list = pop_heap_abs [where alpha = timerHeap and get = heap_at and put = heap_assign, OF refl heap_assign_heap]

text \<open>How long ago a timer was inserted, counted in insertions.\<close>

definition age :: "32 word \<Rightarrow> TimerBase \<Rightarrow> nat" where
  "age c T = unat (c - m_heapInsertionOrder T)"

text \<open>The comparison is an order as long as fewer than \<open>2 ^ 31 - 1\<close> insertions lie between the timers.\<close>

definition window :: "(nat \<Rightarrow> TimerBase) \<Rightarrow> nat set \<Rightarrow> bool" where
  "window f D = (\<exists>c. inj_on (\<lambda>t. age c (f t)) D \<and> (\<forall>t \<in> D. age c (f t) < 2 ^ 31 - 1))"

lemma order_difference:
  assumes "age c A < 2 ^ 31 - 1" "age c B < 2 ^ 31 - 1"
  shows "m_heapInsertionOrder A - m_heapInsertionOrder B < 0xFFFFFFFF div 2 \<longleftrightarrow> age c A \<le> age c B"
proof -
  let ?a = "c - m_heapInsertionOrder A" and ?b = "c - m_heapInsertionOrder B"
  have eq: "m_heapInsertionOrder A - m_heapInsertionOrder B = ?b - ?a" by simp
  have half: "(0xFFFFFFFF div 2 :: 32 word) = 0x7FFFFFFF" by code_simp
  show ?thesis
  proof (cases "age c A \<le> age c B")
    case True
    then have "unat (?b - ?a) = age c B - age c A" unfolding age_def by (subst unat_sub) (auto simp: word_le_nat_alt)
    then show ?thesis using True assms unfolding eq half by (simp add: word_less_nat_alt)
  next
    case False
    then have "unat (?b - ?a) = 2 ^ 32 + age c B - age c A"
      unfolding age_def by (subst unat_sub_if') (auto simp: word_le_nat_alt)
    then show ?thesis using False assms unfolding eq half by (simp add: word_less_nat_alt)
  qed
qed

lemma less_than_key:
  assumes "age c (f a) < 2 ^ 31 - 1" "age c (f b) < 2 ^ 31 - 1"
  shows "TimerHeapLessThan f a b \<longleftrightarrow> m_nextFireTime (f b) < m_nextFireTime (f a)
     \<or> m_nextFireTime (f b) = m_nextFireTime (f a) \<and> age c (f a) \<le> age c (f b)"
  using order_difference [OF assms] by (auto simp: TimerHeapLessThan_def Let_def)

interpretation th: heap_order TimerHeapLessThan window
proof
  fix f D a b assume "window f D" "a \<in> D" "b \<in> D" "a \<noteq> b"
  then obtain c where "age c (f a) < 2 ^ 31 - 1" "age c (f b) < 2 ^ 31 - 1" "age c (f a) \<noteq> age c (f b)"
    by (auto simp: window_def inj_on_def)
  then show "TimerHeapLessThan f a b \<longleftrightarrow> \<not> TimerHeapLessThan f b a"
    using less_than_key [of c f a b] less_than_key [of c f b a]
    by (cases "m_nextFireTime (f a)" "m_nextFireTime (f b)" rule: linorder_cases) (auto dest: less_not_sym)
next
  fix f D a b c assume w: "window f D" "a \<in> D" "b \<in> D" "c \<in> D"
    and lt: "TimerHeapLessThan f a b" "TimerHeapLessThan f b c"
  then obtain k where "age k (f a) < 2 ^ 31 - 1" "age k (f b) < 2 ^ 31 - 1" "age k (f c) < 2 ^ 31 - 1"
    by (auto simp: window_def)
  note keys = less_than_key [OF this(1,2)] less_than_key [OF this(2,3)] less_than_key [OF this(1,3)]
  have lex: "u < s \<or> u = s \<and> x \<le> z" if "t < s \<or> t = s \<and> x \<le> y" "u < t \<or> u = t \<and> y \<le> z"
    for s t u :: fire_time and x y z :: nat
    using that by (auto intro: less_trans)
  show "TimerHeapLessThan f a c" unfolding keys(3) by (rule lex [OF lt [unfolded keys(1,2)]])
qed

section \<open>The index of every timer\<close>

definition all_indexed :: "timer_heap \<Rightarrow> bool" where
  "all_indexed S = (\<forall>j < length (timerHeap S). m_heapIndex (timers S (timerHeap S ! j)) = int j)"

text \<open>All indices are right but for the hole, into which \<open>v\<close> is going to be put.\<close>

definition indexed :: "nat \<Rightarrow> nat \<Rightarrow> timer_heap \<Rightarrow> bool" where
  "indexed h v S = (h < length (timerHeap S)
     \<and> (\<forall>j < length (timerHeap S). j \<noteq> h \<longrightarrow> m_heapIndex (timers S (timerHeap S ! j)) = int j \<and> timerHeap S ! j \<noteq> v))"

lemma all_indexed_distinct: "all_indexed S \<Longrightarrow> distinct (timerHeap S)"
  by (auto simp: all_indexed_def distinct_conv_nth) (metis of_nat_eq_iff)

lemma indexed_put:
  assumes "indexed h v S" "p < length (timerHeap S)" "p \<noteq> h"
  shows "indexed p v (heap_assign h (timerHeap S ! p) S)"
proof -
  have ne: "timerHeap S ! j \<noteq> timerHeap S ! p" if "j < length (timerHeap S)" "j \<noteq> h" "j \<noteq> p" for j
    using assms that unfolding indexed_def by (metis of_nat_eq_iff)
  show ?thesis using assms ne
    by (auto simp: indexed_def heap_assign_def update_timer_def Let_def nth_list_update)
qed

lemma indexed_end: "indexed h v S \<Longrightarrow> all_indexed (heap_assign h v S)"
  by (auto simp: indexed_def all_indexed_def heap_assign_def update_timer_def Let_def nth_list_update)

lemma all_indexed_hole:
  assumes "all_indexed S" "h < length (timerHeap S)"
  shows "indexed h (timerHeap S ! h) S"
  using assms all_indexed_distinct [OF assms(1)] by (auto simp: indexed_def all_indexed_def nth_eq_iff_index_eq)

lemma push_loop_indexed: "indexed h v S \<Longrightarrow> all_indexed (push_loop heap_at heap_assign cmp h v S)"
proof (induction h arbitrary: S rule: less_induct)
  case (less h)
  show ?case
  proof (cases "0 < h \<and> cmp (timerHeap S ! parent h) v")
    case True
    have "indexed (parent h) v (heap_assign h (timerHeap S ! parent h) S)"
      using less.prems True by (intro indexed_put) (auto simp: indexed_def)
    then show ?thesis using less.IH [OF parent_less] True by (subst push_loop.simps) simp
  next
    case False
    then show ?thesis using indexed_end [OF less.prems] by (subst push_loop.simps) auto
  qed
qed

lemma adjust_loop_indexed:
  "indexed h v S \<Longrightarrow> n \<le> length (timerHeap S) \<Longrightarrow> adjust_loop heap_at heap_assign cmp n h S = (h', S') \<Longrightarrow>
     indexed h' v S' \<and> length (timerHeap S') = length (timerHeap S)"
proof (induction "n - h" arbitrary: h S rule: less_induct)
  case less
  show ?case
  proof (cases "h < (n - 1) div 2")
    case True
    define c where "c = (if cmp (timerHeap S ! (2 * (h + 1))) (timerHeap S ! (2 * (h + 1) - 1)) then 2 * (h + 1) - 1 else 2 * (h + 1))"
    have c: "c < n" "h < c" using True by (auto simp: c_def)
    let ?S = "heap_assign h (timerHeap S ! c) S"
    have "indexed c v ?S" using less.prems c by (intro indexed_put) auto
    moreover have "adjust_loop heap_at heap_assign cmp n c ?S = (h', S')"
      using less.prems(3) True unfolding c_def by (subst (asm) adjust_loop.simps) (simp only: Let_def if_True)
    moreover have "n - c < n - h" using c by simp
    ultimately show ?thesis using less.hyps [of c ?S] less.prems(2) by (simp add: heap_assign_heap)
  next
    case False
    with less.prems show ?thesis by (subst (asm) adjust_loop.simps) simp
  qed
qed

lemma adjust_heap_indexed:
  assumes "indexed 0 v S" "n \<le> length (timerHeap S)" "0 < n"
  shows "all_indexed (adjust_heap heap_at heap_assign cmp n v S)"
proof -
  obtain h S1 where a: "adjust_loop heap_at heap_assign cmp n 0 S = (h, S1)" by fastforce
  note l = adjust_loop_indexed [OF assms(1,2) a]
  have "indexed (2 * (h + 1) - 1) v (heap_assign h (timerHeap S1 ! (2 * (h + 1) - 1)) S1)" if "even n" "h = (n - 2) div 2"
    using l that assms(2,3) by (intro indexed_put) (auto elim!: evenE)
  then show ?thesis using l by (auto simp: adjust_heap_def a Let_def intro!: push_loop_indexed)
qed

lemma push_heap_indexed:
  "all_indexed S \<Longrightarrow> i < length (timerHeap S) \<Longrightarrow> all_indexed (push_heap heap_at heap_assign cmp (i + 1) S)"
  by (simp add: push_heap_def push_loop_indexed all_indexed_hole)

lemma pop_heap_indexed:
  assumes "all_indexed S"
  shows "all_indexed (pop_heap heap_at heap_assign cmp (length (timerHeap S)) S)"
proof (cases "length (timerHeap S) \<le> 1")
  case False
  let ?n = "length (timerHeap S)"
  have "indexed 0 (timerHeap S ! (?n - 1)) (heap_assign (?n - 1) (timerHeap S ! 0) S)"
    using all_indexed_hole [OF assms, of "?n - 1"] False by (intro indexed_put) auto
  then show ?thesis using False by (auto simp: pop_heap_def Let_def heap_assign_heap intro!: adjust_heap_indexed)
qed (simp add: pop_heap_def assms)

section \<open>What the heap operations leave alone\<close>

text \<open>Only indices of timers in \<open>X\<close> change.\<close>

definition moved :: "nat set \<Rightarrow> timer_heap \<Rightarrow> timer_heap \<Rightarrow> bool" where
  "moved X S S' = (currentHeapInsertionOrder S' = currentHeapInsertionOrder S
     \<and> (\<forall>x. timers S' x = (timers S x)\<lparr>m_heapIndex := m_heapIndex (timers S' x)\<rparr>)
     \<and> (\<forall>x. x \<notin> X \<longrightarrow> timers S' x = timers S x))"

lemma moved_refl [simp]: "moved X S S"
  by (simp add: moved_def)

lemma moved_trans: "moved X S S1 \<Longrightarrow> moved X S1 S2 \<Longrightarrow> moved X S S2"
proof -
  assume m: "moved X S S1" "moved X S1 S2"
  have "timers S2 x = (timers S x)\<lparr>m_heapIndex := m_heapIndex (timers S2 x)\<rparr>" for x
  proof -
    have "timers S2 x = (timers S1 x)\<lparr>m_heapIndex := m_heapIndex (timers S2 x)\<rparr>"
      "timers S1 x = (timers S x)\<lparr>m_heapIndex := m_heapIndex (timers S1 x)\<rparr>" using m by (simp_all add: moved_def)
    then show ?thesis by (metis TimerBase.surjective TimerBase.update_convs(3))
  qed
  then show ?thesis using m by (simp add: moved_def)
qed

lemma moved_assign: "t \<in> X \<Longrightarrow> moved X S (heap_assign i t S)"
  by (auto simp: moved_def heap_assign_def update_timer_def Let_def)

lemma heap_assign_set: "set (timerHeap S) \<subseteq> X \<Longrightarrow> t \<in> X \<Longrightarrow> set (timerHeap (heap_assign i t S)) \<subseteq> X"
  by (simp add: heap_assign_heap set_lput)

lemma push_loop_moved:
  "set (timerHeap S) \<subseteq> X \<Longrightarrow> v \<in> X \<Longrightarrow> h < length (timerHeap S) \<Longrightarrow> moved X S (push_loop heap_at heap_assign cmp h v S)"
proof (induction h arbitrary: S rule: less_induct)
  case (less h)
  show ?case
  proof (cases "0 < h \<and> cmp (timerHeap S ! parent h) v")
    case True
    let ?p = "timerHeap S ! parent h"
    have p: "?p \<in> X" using less.prems True by (intro nth_in) auto
    have "moved X (heap_assign h ?p S) (push_loop heap_at heap_assign cmp (parent h) v (heap_assign h ?p S))"
      using True less.prems p by (intro less.IH heap_assign_set) (auto simp: heap_assign_heap)
    then show ?thesis using True moved_trans [OF moved_assign [OF p]] by (subst push_loop.simps) simp
  next
    case False
    then show ?thesis using less.prems moved_assign by (subst push_loop.simps) auto
  qed
qed

lemma adjust_loop_moved:
  "set (timerHeap S) \<subseteq> X \<Longrightarrow> n \<le> length (timerHeap S) \<Longrightarrow> adjust_loop heap_at heap_assign cmp n h S = (h', S') \<Longrightarrow>
     moved X S S' \<and> set (timerHeap S') \<subseteq> X"
proof (induction "n - h" arbitrary: h S rule: less_induct)
  case less
  show ?case
  proof (cases "h < (n - 1) div 2")
    case True
    define c where "c = (if cmp (timerHeap S ! (2 * (h + 1))) (timerHeap S ! (2 * (h + 1) - 1)) then 2 * (h + 1) - 1 else 2 * (h + 1))"
    have c: "c < n" "h < c" using True by (auto simp: c_def)
    let ?S = "heap_assign h (timerHeap S ! c) S"
    have x: "timerHeap S ! c \<in> X" using less.prems c by (intro nth_in) auto
    have "adjust_loop heap_at heap_assign cmp n c ?S = (h', S')"
      using less.prems(3) True unfolding c_def by (subst (asm) adjust_loop.simps) (simp only: Let_def if_True)
    moreover have "n - c < n - h" using c by simp
    ultimately have "moved X ?S S' \<and> set (timerHeap S') \<subseteq> X"
      using less.hyps [of c ?S] less.prems(1,2) heap_assign_set [OF _ x] by (simp add: heap_assign_heap)
    then show ?thesis using moved_trans [OF moved_assign [OF x]] by blast
  next
    case False
    with less.prems show ?thesis by (subst (asm) adjust_loop.simps) simp
  qed
qed

lemma adjust_heap_moved:
  assumes "indexed 0 v S" "set (timerHeap S) \<subseteq> X" "v \<in> X" "n \<le> length (timerHeap S)" "0 < n"
  shows "moved X S (adjust_heap heap_at heap_assign cmp n v S)"
proof -
  obtain h S1 where a: "adjust_loop heap_at heap_assign cmp n 0 S = (h, S1)" by fastforce
  note l = adjust_loop_moved [OF assms(2,4) a] and ix = adjust_loop_indexed [OF assms(1,4) a]
  have h: "h < length (timerHeap S1)" using ix by (simp add: indexed_def)
  show ?thesis
  proof (cases "even n \<and> h = (n - 2) div 2")
    case True
    then have c: "2 * (h + 1) - 1 < length (timerHeap S1)" using assms(4,5) ix by (auto elim!: evenE)
    have x: "timerHeap S1 ! (2 * (h + 1) - 1) \<in> X" using l c by (intro nth_in) auto
    let ?S = "heap_assign h (timerHeap S1 ! (2 * (h + 1) - 1)) S1"
    have "moved X ?S (push_loop heap_at heap_assign cmp (2 * (h + 1) - 1) v ?S)"
      using l c x assms(3) by (intro push_loop_moved heap_assign_set) (auto simp: heap_assign_heap)
    then have "moved X S (push_loop heap_at heap_assign cmp (2 * (h + 1) - 1) v ?S)"
      using l moved_trans moved_assign [OF x] by blast
    then show ?thesis using True by (simp add: adjust_heap_def a Let_def)
  next
    case False
    then show ?thesis using l push_loop_moved [OF _ assms(3) h] moved_trans by (auto simp: adjust_heap_def a)
  qed
qed

lemma push_heap_moved:
  "i < length (timerHeap S) \<Longrightarrow> moved (set (timerHeap S)) S (push_heap heap_at heap_assign cmp (i + 1) S)"
  by (simp add: push_heap_def push_loop_moved)

lemma pop_heap_moved:
  assumes "all_indexed S"
  shows "moved (set (timerHeap S)) S (pop_heap heap_at heap_assign cmp (length (timerHeap S)) S)"
proof (cases "length (timerHeap S) \<le> 1")
  case False
  let ?n = "length (timerHeap S)" and ?X = "set (timerHeap S)"
  let ?v = "timerHeap S ! (?n - 1)" and ?S = "heap_assign (?n - 1) (timerHeap S ! 0) S"
  have x: "timerHeap S ! 0 \<in> ?X" "?v \<in> ?X" using False by (auto intro!: nth_mem)
  have "indexed 0 ?v ?S" using all_indexed_hole [OF assms, of "?n - 1"] False by (intro indexed_put) auto
  then have "moved ?X ?S (adjust_heap heap_at heap_assign cmp (?n - 1) ?v ?S)"
    using x False by (intro adjust_heap_moved heap_assign_set) (auto simp: heap_assign_heap)
  then show ?thesis using False moved_trans [OF moved_assign [OF x(1)]] by (simp add: pop_heap_def Let_def)
qed (simp add: pop_heap_def)

text \<open>The order of the timers depends on fire times and insertion orders only.\<close>

definition same_keys :: "nat set \<Rightarrow> (nat \<Rightarrow> TimerBase) \<Rightarrow> (nat \<Rightarrow> TimerBase) \<Rightarrow> bool" where
  "same_keys D f g = (\<forall>x \<in> D. m_nextFireTime (f x) = m_nextFireTime (g x) \<and> m_heapInsertionOrder (f x) = m_heapInsertionOrder (g x))"

lemma moved_keys: "moved X S S' \<Longrightarrow> same_keys D (timers S) (timers S')"
  unfolding moved_def same_keys_def
  by (metis TimerBase.select_convs(1,4) TimerBase.surjective TimerBase.update_convs(3))

lemma same_keys_before: "same_keys D f g \<Longrightarrow> a \<in> D \<Longrightarrow> b \<in> D \<Longrightarrow> th.before f a b = th.before g a b"
  by (simp add: th.before_def TimerHeapLessThan_def same_keys_def Let_def)

lemma same_keys_heap:
  assumes "same_keys D f g" "set (take n xs) \<subseteq> D" "n \<le> length xs"
  shows "th.is_heap f n xs = th.is_heap g n xs"
proof -
  have "xs ! i \<in> D" if "i < n" for i using that assms(2,3) nth_mem [of i "take n xs"] by auto
  then have "th.before f (xs ! parent i) (xs ! i) = th.before g (xs ! parent i) (xs ! i)" if "0 < i" "i < n" for i
    using that by (intro same_keys_before [OF assms(1)]) auto
  then show ?thesis by (auto simp: th.is_heap_def)
qed

lemma same_orders_window: "(\<forall>x \<in> D. m_heapInsertionOrder (f x) = m_heapInsertionOrder (g x)) \<Longrightarrow> window f D = window g D"
  unfolding window_def by (intro ex_cong1 conj_cong inj_on_cong ball_cong) (simp_all add: age_def)

section \<open>The heap operations\<close>

text \<open>A heap whose timers know their index, but where the timer at \<open>h\<close> may be out of order.\<close>

definition heap_except :: "nat \<Rightarrow> timer_heap \<Rightarrow> bool" where
  "heap_except h S = (h < length (timerHeap S) \<and> all_indexed S \<and> window (timers S) (set (timerHeap S))
     \<and> th.hole_heap (timers S) (length (timerHeap S)) h (timerHeap S))"

definition good_heap :: "nat \<Rightarrow> timer_heap \<Rightarrow> bool" where
  "good_heap n S = (n \<le> length (timerHeap S) \<and> all_indexed S \<and> window (timers S) (set (timerHeap S))
     \<and> th.is_heap (timers S) n (timerHeap S))"

lemma checkHeapIndex_ok: "all_indexed S \<Longrightarrow> t \<in> set (timerHeap S) \<Longrightarrow> checkHeapIndex t S = Inr ()"
  by (auto simp: checkHeapIndex_def all_indexed_def in_set_conv_nth)

lemma heapDecreaseKey_ok:
  assumes "heap_except i S" "m_nextFireTime (timers S (timerHeap S ! i)) \<noteq> At 0"
    and "\<forall>j. 0 < j \<and> j < length (timerHeap S) \<and> parent j = i \<longrightarrow> th.before (timers S) (timerHeap S ! i) (timerHeap S ! j)"
  shows "\<exists>S'. heapDecreaseKey (timerHeap S ! i) S = Inr S' \<and> good_heap (length (timerHeap S)) S'
     \<and> mset (timerHeap S') = mset (timerHeap S) \<and> moved (set (timerHeap S)) S S'"
proof -
  let ?t = "timerHeap S ! i" and ?n = "length (timerHeap S)" and ?f = "timers S"
  define S' where "S' = push_heap heap_at heap_assign (TimerHeapLessThan ?f) (i + 1) S"
  have i: "i < ?n" "all_indexed S" "window ?f (set (timerHeap S))" "th.hole_heap ?f ?n i (timerHeap S)"
    using assms(1) by (simp_all add: heap_except_def)
  have list: "timerHeap S' = push_loop (!) lput (TimerHeapLessThan ?f) i ?t (timerHeap S)"
    by (simp add: S'_def push_heap_list) (simp add: push_heap_def)
  have m: "mset (timerHeap S') = mset (timerHeap S)" "length (timerHeap S') = ?n"
    using push_loop_mset [OF i(1), of "TimerHeapLessThan ?f" ?t] by (simp_all add: list)
  have set: "set (timerHeap S') = set (timerHeap S)" using m(1) by (rule mset_eq_setD)
  have mv: "moved (set (timerHeap S)) S S'" unfolding S'_def by (rule push_heap_moved [OF i(1)])
  have ix: "all_indexed S'" unfolding S'_def by (rule push_heap_indexed [OF i(2,1)])
  have "th.is_heap ?f ?n (timerHeap S')"
    unfolding list using i assms(3) by (intro th.push_loop_heap [OF i(3)]) auto
  then have "th.is_heap (timers S') ?n (timerHeap S')" 
    using same_keys_heap [OF moved_keys [OF mv, of UNIV]] m(2) by simp
  moreover have "window (timers S') (set (timerHeap S'))"
    using i(3) same_orders_window [of "set (timerHeap S)" ?f "timers S'"] moved_keys [OF mv, of "set (timerHeap S)"]
    by (simp add: set same_keys_def)
  ultimately have good: "good_heap ?n S'" using ix m(2) by (simp add: good_heap_def)
  have "m_heapIndex (?f ?t) = int i" using i by (simp add: all_indexed_def)
  then have "heapDecreaseKey ?t S = Inr S'"
    using assms(2) checkHeapIndex_ok [OF i(2), of ?t] checkHeapIndex_ok [OF ix, of ?t] i(1) set
    by (simp add: heapDecreaseKey_def S'_def Let_def)
  then show ?thesis using good m(1) mv by blast
qed

lemma heapPopMin_ok:
  assumes "good_heap (length (timerHeap S)) S" "timerHeap S \<noteq> []"
  shows "\<exists>S'. heapPopMin (hd (timerHeap S)) S = Inr S' \<and> good_heap (length (timerHeap S) - 1) S'
     \<and> mset (timerHeap S') = mset (timerHeap S) \<and> last (timerHeap S') = hd (timerHeap S) \<and> moved (set (timerHeap S)) S S'"
proof -
  let ?t = "hd (timerHeap S)" and ?n = "length (timerHeap S)" and ?f = "timers S"
  define S' where "S' = pop_heap heap_at heap_assign (TimerHeapLessThan ?f) ?n S"
  have i: "all_indexed S" "window ?f (set (timerHeap S))" "th.is_heap ?f ?n (timerHeap S)" using assms(1) by (simp_all add: good_heap_def)
  have list: "timerHeap S' = pop_heap (!) lput (TimerHeapLessThan ?f) ?n (timerHeap S)" by (simp add: S'_def pop_heap_list)
  note res = th.pop_heap_result [OF i(2) subset_refl i(3) assms(2), folded list]
  have set: "set (timerHeap S') = set (timerHeap S)" using res(2) by (rule mset_eq_setD)
  have len: "length (timerHeap S') = ?n" using res(2) by (rule mset_eq_length)
  have mv: "moved (set (timerHeap S)) S S'" unfolding S'_def by (rule pop_heap_moved [OF i(1)])
  have ix: "all_indexed S'" unfolding S'_def by (rule pop_heap_indexed [OF i(1)])
  have "th.is_heap (timers S') (?n - 1) (timerHeap S')"
    using res(1) same_keys_heap [OF moved_keys [OF mv, of UNIV]] len by simp
  moreover have "window (timers S') (set (timerHeap S'))"
    using i(2) same_orders_window [of "set (timerHeap S)" ?f "timers S'"] moved_keys [OF mv, of "set (timerHeap S)"]
    by (simp add: set same_keys_def)
  ultimately have good: "good_heap (?n - 1) S'" using ix len by (simp add: good_heap_def)
  have hd: "timerHeap S ! 0 = ?t" using assms(2) by (simp add: hd_conv_nth)
  have "heapPopMin ?t S = Inr S'"
    using assms(2) checkHeapIndex_ok [OF i(1), of ?t] checkHeapIndex_ok [OF ix, of ?t] set res(3) hd
    by (simp add: heapPopMin_def S'_def Let_def)
  then show ?thesis using good res(2,3) hd mv by auto
qed

text \<open>
  \<open>heapPop\<close>: whatever the key of the timer is, it ends up last, and the others form a heap. Only
  indices have changed.
\<close>

lemma update_time_keys: "t \<notin> D \<Longrightarrow> same_keys D (timers S) (timers (update_timer t (\<lambda>T. T\<lparr>m_nextFireTime := x\<rparr>) S))"
  by (auto simp: same_keys_def update_timer_def)

lemma update_time_fields [simp]:
  "timerHeap (update_timer t (\<lambda>T. T\<lparr>m_nextFireTime := x\<rparr>) S) = timerHeap S"
  "all_indexed (update_timer t (\<lambda>T. T\<lparr>m_nextFireTime := x\<rparr>) S) = all_indexed S"
  "window (timers (update_timer t (\<lambda>T. T\<lparr>m_nextFireTime := x\<rparr>) S)) D = window (timers S) D"
  by (auto simp: update_timer_def all_indexed_def intro!: same_orders_window)

lemma hole_heap_cong:
  assumes "same_keys (set xs - {xs ! h}) f g" "distinct xs" "h < length xs" "n \<le> length xs"
  shows "th.hole_heap f n h xs = th.hole_heap g n h xs"
proof -
  have b: "th.before f (xs ! j) (xs ! k) = th.before g (xs ! j) (xs ! k)" if "j < n" "k < n" "j \<noteq> h" "k \<noteq> h" for j k
    using that assms by (intro same_keys_before [OF assms(1)]) (auto simp: nth_eq_iff_index_eq)
  have p: "parent j < n" if "j < n" for j using that by auto
  have 1: "th.before f (xs ! parent j) (xs ! j) = th.before g (xs ! parent j) (xs ! j)"
    if "0 < j \<and> j < n \<and> j \<noteq> h \<and> parent j \<noteq> h" for j using that p [of j] by (intro b) auto
  have 2: "th.before f (xs ! parent h) (xs ! j) = th.before g (xs ! parent h) (xs ! j)"
    if "0 < j \<and> j < n \<and> parent j = h \<and> 0 < h" for j
    using that p [of j] p [of h] parent_less [of j] parent_less [of h] by (intro b) (auto simp del: One_nat_def)
  show ?thesis unfolding th.hole_heap_def using 1 2 by blast
qed

lemma neg_infinity_before:
  "m_nextFireTime (f t) = Neg_Infinity \<Longrightarrow> m_nextFireTime (f x) \<noteq> Neg_Infinity \<Longrightarrow> th.before f t x \<and> \<not> th.before f x t"
  by (auto simp: th.before_def TimerHeapLessThan_def Let_def dest: less_not_sym)

lemma restore_time:
  "A = B\<lparr>m_nextFireTime := x, m_heapIndex := k\<rparr> \<Longrightarrow> A\<lparr>m_nextFireTime := m_nextFireTime B\<rparr> = B\<lparr>m_heapIndex := k\<rparr>"
  for A B :: TimerBase
  by simp

lemma heapPop_ok:
  assumes "heap_except i S" "\<forall>x \<in> set (timerHeap S). m_nextFireTime (timers S x) \<noteq> Neg_Infinity"
  shows "\<exists>S'. heapPop (timerHeap S ! i) S = Inr S' \<and> good_heap (length (timerHeap S) - 1) S'
     \<and> mset (timerHeap S') = mset (timerHeap S) \<and> last (timerHeap S') = timerHeap S ! i \<and> moved (set (timerHeap S)) S S'"
proof -
  let ?t = "timerHeap S ! i" and ?n = "length (timerHeap S)"
  let ?F = "\<lambda>x S. update_timer ?t (\<lambda>T. T\<lparr>m_nextFireTime := x\<rparr>) S"
  let ?S = "?F Neg_Infinity S" and ?old = "m_nextFireTime (timers S ?t)"
  have i: "i < ?n" "?t \<in> set (timerHeap S)" "distinct (timerHeap S)"
    using assms(1) by (simp_all add: heap_except_def all_indexed_distinct)
  have neg: "m_nextFireTime (timers ?S ?t) = Neg_Infinity" by (simp add: update_timer_def)
  have others: "m_nextFireTime (timers ?S x) \<noteq> Neg_Infinity" if "x \<in> set (timerHeap S)" "x \<noteq> ?t" for x
    using assms(2) that by (simp add: update_timer_def)
  have first: "th.before (timers ?S) ?t x" if "x \<in> set (timerHeap S)" for x
    using neg_infinity_before [of "timers ?S" ?t x] neg others [OF that] by (cases "x = ?t") (auto simp: th.before_def)
  have "same_keys (set (timerHeap S) - {?t}) (timers S) (timers ?S)" by (rule update_time_keys) simp
  from hole_heap_cong [OF this i(3,1) le_refl] have "heap_except i ?S" using assms(1) by (simp add: heap_except_def)
  then obtain S1 where S1: "heapDecreaseKey ?t ?S = Inr S1" "good_heap ?n S1" "mset (timerHeap S1) = mset (timerHeap S)"
    "moved (set (timerHeap S)) ?S S1"
    using heapDecreaseKey_ok [of i ?S] neg first by auto
  have S1': "set (timerHeap S1) = set (timerHeap S)" "length (timerHeap S1) = ?n" "timerHeap S1 \<noteq> []"
    using S1(3) mset_eq_setD [OF S1(3)] mset_eq_length [OF S1(3)] i(1) by auto
  have hd: "hd (timerHeap S1) = ?t"
  proof -
    obtain j where j: "j < ?n" "timerHeap S1 ! j = ?t" using i(2) S1' by (metis in_set_conv_nth)
    have "th.before (timers S1) (timerHeap S1 ! 0) ?t"
      using th.heap_first [of "timers S1" "set (timerHeap S1)" "timerHeap S1" j] S1(2) S1'(2) j by (simp add: good_heap_def)
    then have "th.before (timers ?S) (hd (timerHeap S1)) ?t"
      using same_keys_before [OF moved_keys [OF S1(4)], of "hd (timerHeap S1)" UNIV ?t] S1'(3) by (simp add: hd_conv_nth)
    moreover have "hd (timerHeap S1) \<in> set (timerHeap S)" using S1' hd_in_set by metis
    ultimately show ?thesis using neg_infinity_before [of "timers ?S" ?t "hd (timerHeap S1)"] neg others by blast
  qed
  obtain S2 where S2: "heapPopMin ?t S1 = Inr S2" "good_heap (?n - 1) S2" "mset (timerHeap S2) = mset (timerHeap S)"
    "last (timerHeap S2) = ?t" "moved (set (timerHeap S)) S1 S2"
    using heapPopMin_ok [of S1] S1 S1' hd by auto
  have len2: "length (timerHeap S2) = ?n" and ne2: "timerHeap S2 \<noteq> []" using S2(3) mset_eq_length [OF S2(3)] i(1) by auto
  have "distinct (timerHeap S2)" using S2(2) by (simp add: good_heap_def all_indexed_distinct)
  then have "?t \<notin> set (take (?n - 1) (timerHeap S2))"
    using S2(4) len2 ne2 by (metis append_butlast_last_id butlast_conv_take disjoint_insert(1) distinct_append list.simps(15))
  then have "th.is_heap (timers (?F ?old S2)) (?n - 1) (timerHeap S2)"
    using same_keys_heap [OF update_time_keys, of ?t "set (take (?n - 1) (timerHeap S2))" "?n - 1" "timerHeap S2" S2] S2(2) len2
    by (simp add: good_heap_def)
  then have good: "good_heap (?n - 1) (?F ?old S2)" using S2(2) by (simp add: good_heap_def)
  have "moved (set (timerHeap S)) S (?F ?old S2)"
  proof -
    have mv: "moved (set (timerHeap S)) ?S S2" by (rule moved_trans [OF S1(4) S2(5)])
    have "timers (?F ?old S2) x = (timers S x)\<lparr>m_heapIndex := m_heapIndex (timers (?F ?old S2) x)\<rparr>" for x
    proof -
      have "timers S2 x = (timers ?S x)\<lparr>m_heapIndex := m_heapIndex (timers S2 x)\<rparr>" using mv by (simp add: moved_def)
      note eq = this [unfolded timers_update_timer]
      show ?thesis
      proof (cases "x = ?t")
        case True
        with eq have "timers S2 ?t = (timers S ?t)\<lparr>m_nextFireTime := Neg_Infinity, m_heapIndex := m_heapIndex (timers S2 ?t)\<rparr>"
          by (simp only: simp_thms if_True)
        from restore_time [OF this] True show ?thesis by (simp add: timers_update_timer)
      qed (use eq in \<open>simp add: timers_update_timer\<close>)
    qed
    then show ?thesis using mv i(2) by (auto simp: moved_def update_timer_def)
  qed
  then show ?thesis using S1(1) S2 good by (simp add: heapPop_def Let_def)
qed

section \<open>The invariant of the timers\<close>

text \<open>
  A timer is in the heap exactly when it has a fire time, it knows its index, the heap is ordered, and of the
  timers in it the oldest was inserted at most \<open>n\<close> insertions ago.
\<close>

definition ages_ok :: "nat \<Rightarrow> 32 word \<Rightarrow> (nat \<Rightarrow> TimerBase) \<Rightarrow> nat set \<Rightarrow> bool" where
  "ages_ok n c f D = (inj_on (\<lambda>t. age c (f t)) D \<and> (\<forall>t \<in> D. 1 \<le> age c (f t) \<and> age c (f t) \<le> n))"

definition heap_ok :: "nat \<Rightarrow> timer_heap \<Rightarrow> bool" where
  "heap_ok n S = (all_indexed S \<and> th.is_heap (timers S) (length (timerHeap S)) (timerHeap S)
     \<and> (\<forall>t. t \<notin> set (timerHeap S) \<longrightarrow> m_heapIndex (timers S t) = -1)
     \<and> (\<forall>t. t \<in> set (timerHeap S) \<longleftrightarrow> m_nextFireTime (timers S t) \<noteq> At 0)
     \<and> (\<forall>t. m_nextFireTime (timers S t) \<noteq> Neg_Infinity)
     \<and> ages_ok n (currentHeapInsertionOrder S) (timers S) (set (timerHeap S)))"

lemma ages_window: "ages_ok n c f D \<Longrightarrow> n < 2 ^ 31 - 1 \<Longrightarrow> window f D"
  unfolding ages_ok_def window_def by (meson le_less_trans)

lemma age_next:
  assumes "age c T < 2 ^ 31"
  shows "age (c + 1) T = age c T + 1"
proof -
  have "unat (c - m_heapInsertionOrder T + 1) = unat (c - m_heapInsertionOrder T) + 1"
    using assms unat_add_lem [of "c - m_heapInsertionOrder T" 1] by (simp add: age_def)
  then show ?thesis by (simp add: age_def algebra_simps)
qed

lemma ages_next:
  assumes "ages_ok n c f D" "n < 2 ^ 31 - 1" "m_heapInsertionOrder (g t) = c"
    and "\<forall>x \<in> D - {t}. m_heapInsertionOrder (g x) = m_heapInsertionOrder (f x)"
  shows "ages_ok (n + 1) (c + 1) g (insert t D)"
proof -
  have t: "age (c + 1) (g t) = 1" using assms(3) by (simp add: age_def)
  have x: "age (c + 1) (g x) = age c (f x) + 1" "1 \<le> age c (f x)" "age c (f x) \<le> n" if "x \<in> D - {t}" for x
    using that assms age_next [of c "f x"] by (auto simp: ages_ok_def age_def)
  have "inj_on (\<lambda>t. age (c + 1) (g t)) (insert t (D - {t}))"
    using assms(1) t x by (fastforce simp: inj_on_def ages_ok_def)
  then have "inj_on (\<lambda>t. age (c + 1) (g t)) (insert t D)" by (simp only: insert_Diff_single)
  then show ?thesis using t x by (fastforce simp: ages_ok_def)
qed

lemma ages_subset: "ages_ok n c f D \<Longrightarrow> D' \<subseteq> D \<Longrightarrow> ages_ok n c f D'"
  unfolding ages_ok_def by (meson inj_on_subset subsetD)

text \<open>The state after the key of a timer was changed and before the heap was repaired.\<close>

definition keyed :: "nat \<Rightarrow> int \<Rightarrow> timer_heap \<Rightarrow> timer_heap" where
  "keyed t newTime S = (update_timer t (\<lambda>T. T\<lparr>m_nextFireTime := At newTime, m_heapInsertionOrder := currentHeapInsertionOrder S\<rparr>) S)
     \<lparr>currentHeapInsertionOrder := currentHeapInsertionOrder S + 1\<rparr>"

lemma keyed_fields [simp]:
  "timerHeap (keyed t a S) = timerHeap S" "currentHeapInsertionOrder (keyed t a S) = currentHeapInsertionOrder S + 1"
  "all_indexed (keyed t a S) = all_indexed S" "m_heapIndex (timers (keyed t a S) x) = m_heapIndex (timers S x)"
  "m_nextFireTime (timers (keyed t a S) x) = (if x = t then At a else m_nextFireTime (timers S x))"
  "m_heapInsertionOrder (timers (keyed t a S) x) = (if x = t then currentHeapInsertionOrder S else m_heapInsertionOrder (timers S x))"
  by (auto simp: keyed_def update_timer_def all_indexed_def)

lemma keyed_keys: "t \<notin> D \<Longrightarrow> same_keys D (timers S) (timers (keyed t a S))"
  by (auto simp: same_keys_def)

lemma keyed_ages:
  assumes "heap_ok n S" "n < 2 ^ 31 - 1"
  shows "ages_ok (n + 1) (currentHeapInsertionOrder S + 1) (timers (keyed t a S)) (insert t (set (timerHeap S)))"
  using assms by (intro ages_next [where f = "timers S"]) (auto simp: heap_ok_def)

text \<open>A repaired heap is all that is missing for the invariant.\<close>

definition keyed_set :: "nat \<Rightarrow> int \<Rightarrow> timer_heap \<Rightarrow> nat set" where
  "keyed_set t a S = (if a = 0 then set (timerHeap S) - {t} else insert t (set (timerHeap S)))"

lemma heap_ok_repaired:
  assumes "heap_ok n S" "n < 2 ^ 31 - 1" "set (timerHeap S') = keyed_set t a S" "good_heap (length (timerHeap S')) S'"
    and "same_keys UNIV (timers (keyed t a S)) (timers S')" "currentHeapInsertionOrder S' = currentHeapInsertionOrder S + 1"
    and "\<forall>x. x \<notin> keyed_set t a S \<longrightarrow> m_heapIndex (timers S' x) = -1"
  shows "heap_ok (n + 1) S'"
proof -
  have keys: "m_nextFireTime (timers S' x) = (if x = t then At a else m_nextFireTime (timers S x))"
    "m_heapInsertionOrder (timers S' x) = m_heapInsertionOrder (timers (keyed t a S) x)" for x
    using assms(5) by (simp_all add: same_keys_def)
  have sub: "keyed_set t a S \<subseteq> insert t (set (timerHeap S))" by (auto simp: keyed_set_def)
  have "age c (timers S' x) = age c (timers (keyed t a S) x)" for c x using keys(2) by (simp add: age_def)
  then have "ages_ok (n + 1) (currentHeapInsertionOrder S') (timers S') (keyed_set t a S)"
    using ages_subset [OF keyed_ages [OF assms(1,2)] sub] assms(6) by (simp add: ages_ok_def)
  moreover have "m_nextFireTime (timers S' x) \<noteq> Neg_Infinity" for x using assms(1) keys(1) [of x] by (simp add: heap_ok_def)
  moreover have "x \<in> keyed_set t a S \<longleftrightarrow> m_nextFireTime (timers S' x) \<noteq> At 0" for x
  proof -
    have "x \<in> set (timerHeap S) \<longleftrightarrow> m_nextFireTime (timers S x) \<noteq> At 0" using assms(1) by (simp add: heap_ok_def)
    then show ?thesis using keys(1) [of x] by (auto simp: keyed_set_def)
  qed
  ultimately show ?thesis using assms(3,4,7) by (simp add: heap_ok_def good_heap_def)
qed

lemma heap_except_keyed:
  assumes "heap_ok n S" "n + 1 < 2 ^ 31 - 1" "timerHeap S ! i = t" "i < length (timerHeap S)"
  shows "heap_except i (keyed t a S)"
proof -
  let ?xs = "timerHeap S"
  have S: "all_indexed S" "th.is_heap (timers S) (length ?xs) ?xs" "ages_ok n (currentHeapInsertionOrder S) (timers S) (set ?xs)"
    using assms(1) by (simp_all add: heap_ok_def)
  have w: "window (timers S) (set ?xs)" using ages_window [OF S(3)] assms(2) by simp
  have "th.hole_heap (timers S) (length ?xs) i ?xs" by (rule th.heap_hole [OF w subset_refl le_refl S(2) assms(4)])
  then have "th.hole_heap (timers (keyed t a S)) (length ?xs) i ?xs"
    using hole_heap_cong [OF keyed_keys all_indexed_distinct [OF S(1)] assms(4) le_refl, of t S a] assms(3) by simp
  moreover have "window (timers (keyed t a S)) (set ?xs)"
    using ages_window [OF ages_subset [OF keyed_ages [OF assms(1)]], of "set ?xs" t a] assms(2) by auto
  ultimately show ?thesis using S(1) assms(4) by (simp add: heap_except_def)
qed

lemma moved_same_keys: "moved X S S' \<Longrightarrow> same_keys UNIV (timers S) (timers S')"
  by (rule moved_keys)

lemma same_keys_trans: "same_keys D f g \<Longrightarrow> same_keys D g h \<Longrightarrow> same_keys D f h"
  by (simp add: same_keys_def)

lemma last_no_child: "0 < j \<Longrightarrow> j < n \<Longrightarrow> parent j \<noteq> n - 1"
  by auto

lemma hole_at_end:
  assumes "th.is_heap f (length xs - 1) xs"
  shows "th.hole_heap f (length xs) (length xs - 1) xs"
  using assms last_no_child [of _ "length xs"] by (auto simp: th.hole_heap_def th.is_heap_def)

lemma heapInsert_ok:
  assumes "heap_ok n S" "n + 1 < 2 ^ 31 - 1" "m_nextFireTime (timers S t) = At 0" "a \<noteq> 0"
  shows "\<exists>S'. heapInsert t (keyed t a S) = Inr S' \<and> heap_ok (n + 1) S' \<and> set (timerHeap S') = insert t (set (timerHeap S))
     \<and> moved (insert t (set (timerHeap S))) (keyed t a S) S'"
proof -
  let ?xs = "timerHeap S" and ?K = "keyed t a S"
  let ?S = "update_timer t (\<lambda>T. T\<lparr>m_heapIndex := int (length ?xs)\<rparr>) (?K\<lparr>timerHeap := ?xs @ [t]\<rparr>)"
  have S: "all_indexed S" "th.is_heap (timers S) (length ?xs) ?xs" "t \<notin> set ?xs" "m_heapIndex (timers S t) = -1"
    using assms(1,3) by (auto simp: heap_ok_def)
  have list: "timerHeap ?S = ?xs @ [t]" by (simp add: update_timer_def)
  have time: "m_nextFireTime (timers ?S x) = m_nextFireTime (timers ?K x)" "m_heapInsertionOrder (timers ?S x) = m_heapInsertionOrder (timers ?K x)" for x
    by (simp_all add: update_timer_def)
  have "all_indexed ?S" using S(1,3) by (auto simp: all_indexed_def update_timer_def nth_append)
  moreover have "window (timers ?S) (set (?xs @ [t]))"
    using same_orders_window [of "set (?xs @ [t])" "timers ?S" "timers ?K"] time ages_window [OF keyed_ages [OF assms(1)]] assms(2) by simp
  moreover have "th.is_heap (timers ?S) (length ?xs) (?xs @ [t])"
  proof -
    have "same_keys (set ?xs) (timers S) (timers ?S)" using S(3) time by (auto simp: same_keys_def)
    from same_keys_heap [OF this, of "length ?xs" ?xs] S(2) have "th.is_heap (timers ?S) (length ?xs) ?xs" by simp
    moreover have "parent i < length ?xs" if "i < length ?xs" for i using that by auto
    ultimately show ?thesis by (simp add: th.is_heap_def nth_append)
  qed
  ultimately have ex: "heap_except (length ?xs) ?S"
    using hole_at_end [of "timers ?S" "?xs @ [t]"] by (simp add: heap_except_def list)
  have "m_nextFireTime (timers ?S t) \<noteq> At 0" using assms(4) time by simp
  then obtain S' where S': "heapDecreaseKey t ?S = Inr S'" "good_heap (length (?xs @ [t])) S'" "mset (timerHeap S') = mset (?xs @ [t])"
    "moved (set (?xs @ [t])) ?S S'"
    using heapDecreaseKey_ok [OF ex] last_no_child [of _ "length (?xs @ [t])"] unfolding list by auto
  have set': "set (timerHeap S') = insert t (set ?xs)" and len': "length (timerHeap S') = length (?xs @ [t])"
    using mset_eq_setD [OF S'(3)] mset_eq_length [OF S'(3)] by auto
  have mv: "moved (insert t (set ?xs)) ?K S'"
  proof -
    have "moved (insert t (set ?xs)) ?K ?S" by (auto simp: moved_def update_timer_def)
    then show ?thesis using moved_trans S'(4) by simp
  qed
  have ks: "keyed_set t a S = insert t (set ?xs)" using assms(4) by (simp add: keyed_set_def)
  have "heap_ok (n + 1) S'"
  proof (rule heap_ok_repaired [OF assms(1)])
    show "same_keys UNIV (timers ?K) (timers S')" by (rule moved_same_keys [OF mv])
    show "\<forall>x. x \<notin> keyed_set t a S \<longrightarrow> m_heapIndex (timers S' x) = - 1"
      using mv assms(1) by (auto simp: moved_def heap_ok_def ks)
  qed (use assms(2) S' len' mv set' ks in \<open>auto simp: moved_def\<close>)
  then show ?thesis using S'(1) set' mv S(4) by (simp add: heapInsert_def inHeap_def)
qed

text \<open>The other operations start from a timer that is in the heap.\<close>

lemma heapDelete_good:
  assumes "heap_except i K" "timerHeap K ! i = t" "m_nextFireTime (timers K t) = At 0"
    and "\<forall>x \<in> set (timerHeap K). m_nextFireTime (timers K x) \<noteq> Neg_Infinity"
  shows "\<exists>S'. heapDelete t K = Inr S' \<and> good_heap (length (timerHeap S')) S' \<and> set (timerHeap S') = set (timerHeap K) - {t}
     \<and> moved (set (timerHeap K)) K S' \<and> m_heapIndex (timers S' t) = -1"
proof -
  let ?xs = "timerHeap K"
  have i: "i < length ?xs" "t \<in> set ?xs" using assms(1,2) by (auto simp: heap_except_def)
  obtain S1 where S1: "heapPop t K = Inr S1" "good_heap (length ?xs - 1) S1" "mset (timerHeap S1) = mset ?xs"
    "last (timerHeap S1) = t" "moved (set ?xs) K S1"
    using heapPop_ok [OF assms(1,4)] assms(2) by auto
  let ?S = "remove_last t S1"
  have len: "length (timerHeap S1) = length ?xs" and ne: "timerHeap S1 \<noteq> []" using mset_eq_length [OF S1(3)] i(1) by auto
  have split: "timerHeap S1 = timerHeap ?S @ [t]"
    using S1(4) ne append_butlast_last_id [OF ne] by (simp add: remove_last_def update_timer_def)
  have lens: "length (timerHeap ?S) = length ?xs - 1" "length (timerHeap ?S) \<le> length (timerHeap S1)"
    using len split by (metis diff_add_inverse2 length_append_singleton One_nat_def plus_1_eq_Suc add.commute, metis le_add1 length_append)
  have d: "distinct (timerHeap S1)" using S1(2) by (simp add: good_heap_def all_indexed_distinct)
  have t: "t \<notin> set (timerHeap ?S)" using d unfolding split by simp
  have set': "set (timerHeap ?S) = set ?xs - {t}" using mset_eq_setD [OF S1(3)] t unfolding split by auto
  have other: "timers ?S x = timers S1 x" if "x \<noteq> t" for x using that by (simp add: remove_last_def timers_update_timer)
  have "all_indexed ?S"
    unfolding all_indexed_def
  proof (intro allI impI)
    fix j assume j: "j < length (timerHeap ?S)"
    have "m_heapIndex (timers S1 ((timerHeap ?S @ [t]) ! j)) = int j"
      using S1(2) j unfolding good_heap_def all_indexed_def by (simp add: split)
    moreover have "timerHeap ?S ! j \<noteq> t" using t j nth_mem by metis
    ultimately show "m_heapIndex (timers ?S (timerHeap ?S ! j)) = int j" using j by (simp add: other nth_append)
  qed
  moreover have sk: "same_keys UNIV (timers S1) (timers ?S)"
    by (auto simp: same_keys_def remove_last_def timers_update_timer)
  moreover have "th.is_heap (timers ?S) (length (timerHeap ?S)) (timerHeap ?S)"
  proof -
    have "th.is_heap (timers ?S) (length (timerHeap ?S)) (timerHeap S1)"
      using same_keys_heap [OF sk, of "length (timerHeap ?S)" "timerHeap S1"] S1(2) lens unfolding good_heap_def by simp
    moreover have "parent j < length (timerHeap ?S)" if "j < length (timerHeap ?S)" for j using that by auto
    ultimately show ?thesis unfolding split by (simp add: th.is_heap_def nth_append)
  qed
  moreover have "window (timers ?S) (set (timerHeap ?S))"
  proof -
    have "window (timers S1) (set (timerHeap ?S))"
      using S1(2) unfolding good_heap_def window_def split by (metis UnCI inj_on_Un set_append)
    then show ?thesis using same_orders_window [of "set (timerHeap ?S)" "timers S1" "timers ?S"] sk by (simp add: same_keys_def)
  qed
  ultimately have good: "good_heap (length (timerHeap ?S)) ?S" by (simp add: good_heap_def)
  have mv: "moved (set ?xs) K ?S"
    using i(2) by (intro moved_trans [OF S1(5)]) (auto simp: moved_def remove_last_def update_timer_def)
  show ?thesis using S1(1) assms(3) set' mv good by (simp add: heapDelete_def) (simp add: remove_last_def timers_update_timer)
qed

lemma heapDelete_ok:
  assumes "heap_ok n S" "n + 1 < 2 ^ 31 - 1" "timerHeap S ! i = t" "i < length (timerHeap S)"
  shows "\<exists>S'. heapDelete t (keyed t 0 S) = Inr S' \<and> heap_ok (n + 1) S' \<and> set (timerHeap S') = set (timerHeap S) - {t}
     \<and> moved (set (timerHeap S)) (keyed t 0 S) S'"
proof -
  let ?xs = "timerHeap S" and ?K = "keyed t 0 S"
  have "\<forall>x \<in> set ?xs. m_nextFireTime (timers ?K x) \<noteq> Neg_Infinity" using assms(1) by (simp add: heap_ok_def)
  then obtain S' where S': "heapDelete t ?K = Inr S'" "good_heap (length (timerHeap S')) S'" "set (timerHeap S') = set ?xs - {t}"
    "moved (set ?xs) ?K S'" "m_heapIndex (timers S' t) = -1"
    using heapDelete_good [OF heap_except_keyed [OF assms]] assms(3) by auto
  have ks: "keyed_set t 0 S = set ?xs - {t}" by (simp add: keyed_set_def)
  have "heap_ok (n + 1) S'"
  proof (rule heap_ok_repaired [OF assms(1) _ _ S'(2)])
    show "same_keys UNIV (timers ?K) (timers S')" by (rule moved_same_keys [OF S'(4)])
    show "\<forall>x. x \<notin> keyed_set t 0 S \<longrightarrow> m_heapIndex (timers S' x) = - 1"
    proof (intro allI impI)
      fix x assume x: "x \<notin> keyed_set t 0 S"
      show "m_heapIndex (timers S' x) = - 1"
      proof (cases "x = t")
        case False
        then have "timers S' x = timers ?K x" using S'(4) x ks unfolding moved_def by blast
        then show ?thesis using assms(1) x ks False by (simp add: heap_ok_def)
      qed (simp add: S'(5))
    qed
  qed (use assms(2) S' ks in \<open>auto simp: moved_def\<close>)
  then show ?thesis using S' by blast
qed

text \<open>The timer that is about to fire is taken out of the heap without a new insertion order.\<close>

lemma heapDelete_first:
  assumes "heap_ok n S" "n < 2 ^ 31 - 1" "timerHeap S = t # ts"
  shows "\<exists>S'. heapDelete t (update_timer t (\<lambda>T. T\<lparr>m_nextFireTime := At 0\<rparr>) S) = Inr S' \<and> heap_ok n S'
     \<and> set (timerHeap S') = set (timerHeap S) - {t}
     \<and> moved (set (timerHeap S)) (update_timer t (\<lambda>T. T\<lparr>m_nextFireTime := At 0\<rparr>) S) S'"
proof -
  let ?xs = "timerHeap S" and ?K = "update_timer t (\<lambda>T. T\<lparr>m_nextFireTime := At 0\<rparr>) S"
  have S: "all_indexed S" "th.is_heap (timers S) (length ?xs) ?xs" "ages_ok n (currentHeapInsertionOrder S) (timers S) (set ?xs)"
    using assms(1) by (simp_all add: heap_ok_def)
  have w: "window (timers S) (set ?xs)" using ages_window [OF S(3) assms(2)] .
  have z: "0 < length ?xs" "?xs ! 0 = t" using assms(3) by simp_all
  have "same_keys (set ?xs - {?xs ! 0}) (timers S) (timers ?K)" using z by (intro update_time_keys) simp
  from hole_heap_cong [OF this all_indexed_distinct [OF S(1)] z(1) le_refl]
  have ex: "heap_except 0 ?K" using th.heap_hole [OF w subset_refl le_refl S(2) z(1)] S(1) w z(1) by (simp add: heap_except_def)
  have time: "m_nextFireTime (timers ?K x) = (if x = t then At 0 else m_nextFireTime (timers S x))" for x
    by (simp add: timers_update_timer)
  have "\<forall>x \<in> set (timerHeap ?K). m_nextFireTime (timers ?K x) \<noteq> Neg_Infinity" using assms(1) time by (simp add: heap_ok_def)
  then obtain S' where S': "heapDelete t ?K = Inr S'" "good_heap (length (timerHeap S')) S'" "set (timerHeap S') = set ?xs - {t}"
    "moved (set ?xs) ?K S'" "m_heapIndex (timers S' t) = -1"
    using heapDelete_good [OF ex, of t] z(2) time [of t] by auto
  have keys: "m_nextFireTime (timers S' x) = m_nextFireTime (timers ?K x)" "m_heapInsertionOrder (timers S' x) = m_heapInsertionOrder (timers S x)" for x
    using moved_keys [OF S'(4), of "{x}"] by (simp_all add: same_keys_def timers_update_timer split: if_splits)
  have "ages_ok n (currentHeapInsertionOrder S') (timers S') (set ?xs - {t})"
    using ages_subset [OF S(3), of "set ?xs - {t}"] S'(4) keys(2)
    by (simp add: ages_ok_def age_def moved_def update_timer_def)
  moreover have "m_heapIndex (timers S' x) = -1" if "x \<notin> set ?xs - {t}" for x
  proof (cases "x = t")
    case False
    then have "timers S' x = timers ?K x" using S'(4) that unfolding moved_def by blast
    then show ?thesis using assms(1) that False by (simp add: heap_ok_def timers_update_timer)
  qed (simp add: S'(5))
  moreover have "x \<in> set ?xs - {t} \<longleftrightarrow> m_nextFireTime (timers S' x) \<noteq> At 0" for x
    using assms(1) keys(1) [of x] time [of x] by (auto simp: heap_ok_def)
  moreover have "m_nextFireTime (timers S' x) \<noteq> Neg_Infinity" for x
    using assms(1) keys(1) [of x] time [of x] by (simp add: heap_ok_def)
  ultimately have "heap_ok n S'" using S'(2) unfolding heap_ok_def good_heap_def S'(3) by blast
  then show ?thesis using S' by blast
qed

lemma decreased_before_child:
  assumes "heap_ok n S" "n + 1 < 2 ^ 31 - 1" "timerHeap S ! i = t" "i < length (timerHeap S)" "At a < m_nextFireTime (timers S t)"
    and "0 < j" "j < length (timerHeap S)" "parent j = i"
  shows "th.before (timers (keyed t a S)) t (timerHeap S ! j)"
proof -
  have "th.before (timers S) t (timerHeap S ! j)" using assms(1,3,6-8) by (auto simp: heap_ok_def th.is_heap_def)
  then have "m_nextFireTime (timers S t) \<le> m_nextFireTime (timers S (timerHeap S ! j))"
    by (auto simp: th.before_def TimerHeapLessThan_def Let_def split: if_splits)
  then have "At a < m_nextFireTime (timers S (timerHeap S ! j))" using assms(5) by (rule less_le_trans [rotated])
  then show ?thesis by (auto simp: th.before_def TimerHeapLessThan_def Let_def)
qed

lemma decrease_repairs:
  assumes "heap_ok n S" "n + 1 < 2 ^ 31 - 1" "t \<in> set (timerHeap S)" "a \<noteq> 0" "heap_except i S1" "timerHeap S1 ! i = t"
    and "mset (timerHeap S1) = mset (timerHeap S)" "moved (set (timerHeap S)) (keyed t a S) S1"
    and "\<forall>j. 0 < j \<and> j < length (timerHeap S1) \<and> parent j = i \<longrightarrow> th.before (timers S1) t (timerHeap S1 ! j)"
  shows "\<exists>S'. heapDecreaseKey t S1 = Inr S' \<and> heap_ok (n + 1) S' \<and> set (timerHeap S') = set (timerHeap S)
     \<and> moved (set (timerHeap S)) (keyed t a S) S'"
proof -
  have time: "m_nextFireTime (timers S1 t) = At a" using moved_keys [OF assms(8), of "{t}"] by (simp add: same_keys_def)
  have eq: "set (timerHeap S1) = set (timerHeap S)" using assms(7) by (rule mset_eq_setD)
  obtain S' where S': "heapDecreaseKey t S1 = Inr S'" "good_heap (length (timerHeap S1)) S'" "mset (timerHeap S') = mset (timerHeap S1)"
    "moved (set (timerHeap S1)) S1 S'"
    using heapDecreaseKey_ok [OF assms(5)] assms(4,6,9) time by auto
  have set': "set (timerHeap S') = set (timerHeap S)" using mset_eq_setD [OF S'(3)] eq by simp
  have mv: "moved (set (timerHeap S)) (keyed t a S) S'" using moved_trans [OF assms(8)] S'(4) eq by simp
  have ks: "keyed_set t a S = set (timerHeap S)" using assms(3,4) by (auto simp: keyed_set_def)
  have "heap_ok (n + 1) S'"
  proof (rule heap_ok_repaired [OF assms(1)])
    show "same_keys UNIV (timers (keyed t a S)) (timers S')" by (rule moved_same_keys [OF mv])
    show "\<forall>x. x \<notin> keyed_set t a S \<longrightarrow> m_heapIndex (timers S' x) = - 1"
      using mv assms(1) by (auto simp: moved_def heap_ok_def ks)
  qed (use assms(2) S' mset_eq_length [OF S'(3)] mv set' ks in \<open>auto simp: moved_def\<close>)
  then show ?thesis using S'(1) set' mv by blast
qed

lemma heapDecreaseKey_keyed:
  assumes "heap_ok n S" "n + 1 < 2 ^ 31 - 1" "timerHeap S ! i = t" "i < length (timerHeap S)" "At a < m_nextFireTime (timers S t)" "a \<noteq> 0"
  shows "\<exists>S'. heapDecreaseKey t (keyed t a S) = Inr S' \<and> heap_ok (n + 1) S' \<and> set (timerHeap S') = set (timerHeap S)
     \<and> moved (set (timerHeap S)) (keyed t a S) S'"
  using assms decreased_before_child [OF assms(1-5)]
  by (intro decrease_repairs [OF assms(1,2) _ assms(6) heap_except_keyed [OF assms(1-4)]]) auto

lemma heapIncreaseKey_ok:
  assumes "heap_ok n S" "n + 1 < 2 ^ 31 - 1" "timerHeap S ! i = t" "i < length (timerHeap S)" "a \<noteq> 0"
  shows "\<exists>S'. heapIncreaseKey t (keyed t a S) = Inr S' \<and> heap_ok (n + 1) S' \<and> set (timerHeap S') = set (timerHeap S)
     \<and> moved (set (timerHeap S)) (keyed t a S) S'"
proof -
  let ?xs = "timerHeap S" and ?K = "keyed t a S"
  have "\<forall>x \<in> set ?xs. m_nextFireTime (timers ?K x) \<noteq> Neg_Infinity" using assms(1) by (simp add: heap_ok_def)
  then obtain S1 where S1: "heapPop t ?K = Inr S1" "good_heap (length ?xs - 1) S1" "mset (timerHeap S1) = mset ?xs"
    "last (timerHeap S1) = t" "moved (set ?xs) ?K S1"
    using heapPop_ok [OF heap_except_keyed [OF assms(1-4)]] assms(3) by auto
  have len: "length (timerHeap S1) = length ?xs" and ne: "timerHeap S1 \<noteq> []" using mset_eq_length [OF S1(3)] assms(4) by auto
  have "heap_except (length ?xs - 1) S1"
    using S1(2) len ne hole_at_end [of "timers S1" "timerHeap S1"] assms(4) by (simp add: heap_except_def good_heap_def)
  moreover have "timerHeap S1 ! (length ?xs - 1) = t" using S1(4) len ne by (metis last_conv_nth)
  moreover have "t \<in> set ?xs" using assms(3,4) nth_mem by blast
  ultimately have "\<exists>S'. heapDecreaseKey t S1 = Inr S' \<and> heap_ok (n + 1) S' \<and> set (timerHeap S') = set ?xs \<and> moved (set ?xs) ?K S'"
    using S1 len last_no_child [of _ "length ?xs"] by (intro decrease_repairs [OF assms(1,2) _ assms(5)]) auto
  then show ?thesis using S1(1) assms(5) by (simp add: heapIncreaseKey_def)
qed

text \<open>A change of the fire time keeps the invariant and changes no other time; no assertion fails.\<close>

lemma change_key_ok:
  assumes "heap_ok n S" "n + 1 < 2 ^ 31 - 1" "m_nextFireTime (timers S t) \<noteq> At a"
  shows "\<exists>S'. change_key t a S = Inr S' \<and> heap_ok (n + 1) S' \<and> set (timerHeap S') = keyed_set t a S
     \<and> moved (insert t (set (timerHeap S))) (keyed t a S) S'"
proof -
  have mono: "moved (set (timerHeap S)) (keyed t a S) S' \<Longrightarrow> moved (insert t (set (timerHeap S))) (keyed t a S) S'" for S'
    by (simp add: moved_def)
  show ?thesis
  proof (cases "m_nextFireTime (timers S t) = At 0")
    case True
    then show ?thesis using heapInsert_ok [OF assms(1,2) True] assms(3)
      by (auto simp: change_key_def keyed_def [symmetric] keyed_set_def Let_def)
  next
    case False
    then have "t \<in> set (timerHeap S)" using assms(1) by (simp add: heap_ok_def)
    then obtain i where i: "timerHeap S ! i = t" "i < length (timerHeap S)" by (auto simp: in_set_conv_nth)
    have ks: "keyed_set t a S = (if a = 0 then set (timerHeap S) - {t} else set (timerHeap S))"
      using \<open>t \<in> set (timerHeap S)\<close> by (auto simp: keyed_set_def)
    show ?thesis
    proof (cases "a = 0")
      case True
      then show ?thesis using heapDelete_ok [OF assms(1,2) i] False mono
        by (auto simp: change_key_def keyed_def [symmetric] keyed_set_def Let_def)
    next
      case a: False
      then show ?thesis
        using heapDecreaseKey_keyed [OF assms(1,2) i _ a] heapIncreaseKey_ok [OF assms(1,2) i a] False mono
        by (cases "At a < m_nextFireTime (timers S t)")
          (auto simp: change_key_def keyed_def [symmetric] ks Let_def)
    qed
  qed
qed

end
