(* ===== verification/Spec_Scheduler.thy ===== *)
theory Spec_Scheduler
  imports Event_Register "HOL-Library.Multiset"
begin

text \<open>
  The two schedulers that do not replay: \<open>DefaultScheduler\<close>
  (\<open>Source/WebCore/platform/schedule/DefaultScheduler\<close>), which runs every event action at once, and
  \<open>SpecificationScheduler\<close> (\<open>R4/clients/Record/specificationscheduler\<close>), which the recorder uses to run
  event actions in the order of the HTML specification: a started network sequence first, then parsing,
  then network, then everything else. The lemmas show that its loop ends, that it neither loses nor
  duplicates nor reorders event actions, and that a started network sequence excludes everything else.
\<close>

section \<open>strtoul\<close>

text \<open>\<open>strtoul(s, NULL, 0)\<close> for a 64-bit \<open>unsigned long\<close>: the base follows from the prefix, too large values saturate.\<close>

definition ULONG_MAX :: int where
  "ULONG_MAX = 2 ^ 64 - 1"

definition alnum_value :: "char \<Rightarrow> int" where
  "alnum_value c = (let n = of_char c :: int in
     if 48 \<le> n \<and> n \<le> 57 then n - 48
     else if 97 \<le> n \<and> n \<le> 122 then n - 87
     else if 65 \<le> n \<and> n \<le> 90 then n - 55 else 36)"

fun base_value :: "int \<Rightarrow> int \<Rightarrow> string \<Rightarrow> int" where
  "base_value b acc [] = acc"
| "base_value b acc (c # cs) = (if alnum_value c < b then base_value b (acc * b + alnum_value c) cs else acc)"

fun strtoul_digits :: "string \<Rightarrow> int" where
  "strtoul_digits (CHR ''0'' # x # c # cs) =
     (if (x = CHR ''x'' \<or> x = CHR ''X'') \<and> alnum_value c < 16 then base_value 16 0 (c # cs)
      else base_value 8 0 (CHR ''0'' # x # c # cs))"
| "strtoul_digits cs = (if cs \<noteq> [] \<and> hd cs = CHR ''0'' then base_value 8 0 cs else base_value 10 0 cs)"

definition strtoul :: "string \<Rightarrow> int" where
  "strtoul s =
     (let t = dropWhile is_space s;
          negative = (t \<noteq> [] \<and> hd t = CHR ''-'');
          v = strtoul_digits (if t \<noteq> [] \<and> hd t \<in> {CHR ''-'', CHR ''+''} then tl t else t)
      in if ULONG_MAX < v then ULONG_MAX else if negative then (2 ^ 64 - v) mod 2 ^ 64 else v)"

section \<open>The default scheduler\<close>

record DefaultScheduler =
  ds_stopped :: bool

definition new_DefaultScheduler :: DefaultScheduler where
  "new_DefaultScheduler = \<lparr>ds_stopped = False\<rparr>"

definition default_eventActionScheduled :: "string_hash \<Rightarrow> 'm handler_fun \<Rightarrow> EventActionDescriptor \<Rightarrow> DefaultScheduler \<Rightarrow> 'm world \<Rightarrow>
    (DefaultScheduler \<times> 'm world) result" where
  "default_eventActionScheduled H run descriptor s w =
     (if \<not> ds_stopped s
      then bindR (runEventAction_unnumbered id H run descriptor w) (\<lambda>(_, w'). Inr (s, w'))
      else Inr (s, w))"

definition default_eventActionDescheduled :: "EventActionDescriptor \<Rightarrow> DefaultScheduler \<Rightarrow> DefaultScheduler" where
  "default_eventActionDescheduled descriptor s = s"

definition default_executeDelayedEventActions :: "DefaultScheduler \<Rightarrow> 'm world \<Rightarrow> (DefaultScheduler \<times> 'm world) result" where
  "default_executeDelayedEventActions s w = Inr (s, w)"

definition default_stop :: "DefaultScheduler \<Rightarrow> DefaultScheduler" where
  "default_stop s = s\<lparr>ds_stopped := True\<rparr>"

section \<open>The specification scheduler\<close>

text \<open>\<open>m_doneCounter\<close> is the counter of the network factory that \<open>m_network->doneCounter()\<close> reads.\<close>

record SpecificationScheduler =
  m_activeNetworkEvents :: "string list"
  m_activeNetworkQueue :: "EventActionDescriptor list"
  m_parsingQueue :: "EventActionDescriptor list"
  m_networkQueue :: "EventActionDescriptor list"
  m_otherQueue :: "EventActionDescriptor list"
  m_doneCounter :: "32 word"
  m_stopped :: bool

text \<open>
  What runs inside an event action: besides the string hash and the handler functions, the value that
  the caller of the one-argument \<open>runEventAction\<close> sees and the number of network jobs that finish meanwhile.
\<close>

record 'm spec_env =
  v_hash :: string_hash
  v_run :: "'m handler_fun"
  v_rv :: "bool \<Rightarrow> bool"
  v_finished :: "EventActionDescriptor \<Rightarrow> 'm world \<Rightarrow> 32 word"

definition new_SpecificationScheduler :: "32 word \<Rightarrow> SpecificationScheduler" where
  "new_SpecificationScheduler c = \<lparr>m_activeNetworkEvents = [], m_activeNetworkQueue = [], m_parsingQueue = [],
     m_networkQueue = [], m_otherQueue = [], m_doneCounter = c, m_stopped = False\<rparr>"

definition spec_stop :: "SpecificationScheduler \<Rightarrow> SpecificationScheduler" where
  "spec_stop s = s\<lparr>m_stopped := True\<rparr>"

definition getNetworkSequenceId :: "EventActionDescriptor \<Rightarrow> string result" where
  "getNetworkSequenceId d =
     bindR (getParameter d 0) (\<lambda>a. bindR (getParameter d 1) (\<lambda>b. Inr (a @ '','' @ b)))"

definition spec_eventActionScheduled :: "EventActionDescriptor \<Rightarrow> SpecificationScheduler \<Rightarrow> SpecificationScheduler result" where
  "spec_eventActionScheduled d s =
     (if m_type d = ''HTMLDocumentParser'' then Inr (s\<lparr>m_parsingQueue := m_parsingQueue s @ [d]\<rparr>)
      else if m_type d = ''Network''
      then bindR (getNetworkSequenceId d) (\<lambda>i.
        if i \<notin> set (m_activeNetworkEvents s)
        then Inr (s\<lparr>m_networkQueue := m_networkQueue s @ [d]\<rparr>)
        else Inr (s\<lparr>m_activeNetworkQueue := m_activeNetworkQueue s @ [d]\<rparr>))
      else Inr (s\<lparr>m_otherQueue := m_otherQueue s @ [d]\<rparr>))"

fun dequeue_loop :: "EventActionDescriptor \<Rightarrow> EventActionDescriptor list \<Rightarrow> EventActionDescriptor list \<Rightarrow> EventActionDescriptor list" where
  "dequeue_loop d [] queue = queue"
| "dequeue_loop d (x # old) queue = dequeue_loop d old (if \<not> descriptor_eq x d then queue @ [x] else queue)"

definition dequeueSpecificElement :: "EventActionDescriptor \<Rightarrow> EventActionDescriptor list \<Rightarrow> EventActionDescriptor list" where
  "dequeueSpecificElement d queue = dequeue_loop d queue []"

definition spec_eventActionDescheduled :: "EventActionDescriptor \<Rightarrow> SpecificationScheduler \<Rightarrow> SpecificationScheduler result" where
  "spec_eventActionDescheduled d s =
     (if m_type d = ''HTMLDocumentParser'' then Inr (s\<lparr>m_parsingQueue := dequeueSpecificElement d (m_parsingQueue s)\<rparr>)
      else if m_type d = ''NETWORK''
      then bindR (getNetworkSequenceId d) (\<lambda>i.
        if i \<notin> set (m_activeNetworkEvents s)
        then Inr (s\<lparr>m_networkQueue := dequeueSpecificElement d (m_networkQueue s)\<rparr>)
        else Inr (s\<lparr>m_activeNetworkQueue := dequeueSpecificElement d (m_activeNetworkQueue s)\<rparr>))
      else Inr (s\<lparr>m_otherQueue := dequeueSpecificElement d (m_otherQueue s)\<rparr>))"

fun spec_deschedule_all :: "EventActionDescriptor list \<Rightarrow> SpecificationScheduler \<Rightarrow> SpecificationScheduler result" where
  "spec_deschedule_all [] s = Inr s"
| "spec_deschedule_all (d # ds) s = bindR (spec_eventActionDescheduled d s) (spec_deschedule_all ds)"

text \<open>
  \<open>eventActionRegister->runEventAction(d)\<close> with what it does to the scheduler and to the network: every handler that
  is removed while the event action runs is reported to the scheduler
  (\<open>ThreadTimers::deregisterEventActionHandler\<close>).
\<close>

definition spec_run :: "'m spec_env \<Rightarrow> EventActionDescriptor \<Rightarrow> SpecificationScheduler \<Rightarrow> 'm world \<Rightarrow>
    (bool \<times> SpecificationScheduler \<times> 'm world) result" where
  "spec_run V d s w =
     bindR (runEventAction_unnumbered (v_rv V) (v_hash V) (v_run V) d w) (\<lambda>(b, w').
     bindR (spec_deschedule_all (drop (length (w_removed w)) (w_removed w')) s) (\<lambda>s'.
       Inr (b, s'\<lparr>m_doneCounter := m_doneCounter s' + v_finished V d w\<rparr>, w')))"

text \<open>\<open>queue.pop()\<close> is undefined on an empty queue.\<close>

definition pop_queue :: "'a list \<Rightarrow> 'a list result" where
  "pop_queue q = (if q = [] then Inl UNDEFINED else Inr (tl q))"

text \<open>The loop that splits the waiting network events when a sequence becomes active.\<close>

fun split_queue :: "string \<Rightarrow> EventActionDescriptor list \<Rightarrow> EventActionDescriptor list \<Rightarrow> EventActionDescriptor list \<Rightarrow>
    (EventActionDescriptor list \<times> EventActionDescriptor list) result" where
  "split_queue i [] active waiting = Inr (active, waiting)"
| "split_queue i (d # ds) active waiting =
     bindR (getNetworkSequenceId d) (\<lambda>j.
       if i = j then split_queue i ds (active @ [d]) waiting else split_queue i ds active (waiting @ [d]))"

definition run_active :: "'m spec_env \<Rightarrow> SpecificationScheduler \<Rightarrow> 'm world \<Rightarrow> (SpecificationScheduler \<times> 'm world) result" where
  "run_active V s w =
     (case m_activeNetworkQueue s of [] \<Rightarrow> Inr (s, w)
      | d # _ \<Rightarrow>
        bindR (spec_run V d s w) (\<lambda>(b, s1, w1).
          if \<not> b then Inr (s1, w1)
          else bindR (pop_queue (m_activeNetworkQueue s1)) (\<lambda>q.
               bindR (getParameter d 2) (\<lambda>p.
                 let s2 = s1\<lparr>m_activeNetworkQueue := q\<rparr> in
                 if strtoul p = ULONG_MAX \<or> m_doneCounter s < m_doneCounter s2
                 then bindR (getNetworkSequenceId d) (\<lambda>i.
                        Inr (s2\<lparr>m_activeNetworkEvents := sset_erase i (m_activeNetworkEvents s2)\<rparr>, w1))
                 else Inr (s2, w1)))))"

definition run_network :: "'m spec_env \<Rightarrow> EventActionDescriptor \<Rightarrow> SpecificationScheduler \<Rightarrow> 'm world \<Rightarrow>
    (bool \<times> SpecificationScheduler \<times> 'm world) result" where
  "run_network V d s w =
     bindR (spec_run V d s w) (\<lambda>(b, s1, w1).
       if \<not> b then Inr (False, s1, w1)
       else bindR (pop_queue (m_networkQueue s1)) (\<lambda>q.
            bindR (getParameter d 2) (\<lambda>p.
              let s2 = s1\<lparr>m_networkQueue := q\<rparr> in
              if strtoul p \<noteq> ULONG_MAX \<and> m_doneCounter s = m_doneCounter s2
              then bindR (getNetworkSequenceId d) (\<lambda>i.
                   bindR (split_queue i (m_networkQueue s2) (m_activeNetworkQueue s2) []) (\<lambda>(active, waiting).
                     Inr (True, s2\<lparr>m_activeNetworkEvents := sset_insert i (m_activeNetworkEvents s2),
                                   m_activeNetworkQueue := active, m_networkQueue := waiting\<rparr>, w1)))
              else Inr (True, s2, w1))))"

definition run_parsing :: "'m spec_env \<Rightarrow> EventActionDescriptor \<Rightarrow> SpecificationScheduler \<Rightarrow> 'm world \<Rightarrow>
    (bool \<times> SpecificationScheduler \<times> 'm world) result" where
  "run_parsing V d s w =
     bindR (spec_run V d s w) (\<lambda>(b, s1, w1).
       if b then bindR (pop_queue (m_parsingQueue s1)) (\<lambda>q. Inr (True, s1\<lparr>m_parsingQueue := q\<rparr>, w1))
       else Inr (False, s1, w1))"

definition run_other :: "'m spec_env \<Rightarrow> EventActionDescriptor \<Rightarrow> SpecificationScheduler \<Rightarrow> 'm world \<Rightarrow>
    (bool \<times> SpecificationScheduler \<times> 'm world) result" where
  "run_other V d s w =
     bindR (spec_run V d s w) (\<lambda>(b, s1, w1).
       if b then bindR (pop_queue (m_otherQueue s1)) (\<lambda>q. Inr (True, s1\<lparr>m_otherQueue := q\<rparr>, w1))
       else Inr (False, s1, w1))"

definition spec_executeDelayedEventAction :: "'m spec_env \<Rightarrow> SpecificationScheduler \<Rightarrow> 'm world \<Rightarrow>
    (bool \<times> SpecificationScheduler \<times> 'm world) result" where
  "spec_executeDelayedEventAction V s w =
     (if m_stopped s then Inr (False, s, w)
      else if m_activeNetworkEvents s \<noteq> []
      then bindR (run_active V s w) (\<lambda>(s', w'). Inr (False, s', w'))
      else (case m_parsingQueue s of d # _ \<Rightarrow> run_parsing V d s w
      | [] \<Rightarrow> (case m_networkQueue s of d # _ \<Rightarrow> run_network V d s w
      | [] \<Rightarrow> (case m_otherQueue s of d # _ \<Rightarrow> run_other V d s w
      | [] \<Rightarrow> Inr (False, s, w)))))"

section \<open>The loop ends\<close>

definition queued :: "SpecificationScheduler \<Rightarrow> nat" where
  "queued s = length (m_activeNetworkQueue s) + length (m_parsingQueue s) + length (m_networkQueue s) + length (m_otherQueue s)"

lemma dequeue_loop_filter: "dequeue_loop d old queue = queue @ filter (\<lambda>x. \<not> descriptor_eq x d) old"
  by (induction old arbitrary: queue) auto

lemma dequeue_filter: "dequeueSpecificElement d queue = filter (\<lambda>x. \<not> descriptor_eq x d) queue"
  by (simp add: dequeueSpecificElement_def dequeue_loop_filter)

lemma descheduled_queued: "spec_eventActionDescheduled d s = Inr s' \<Longrightarrow> queued s' \<le> queued s"
  using length_filter_le [of "\<lambda>x. \<not> descriptor_eq x d"]
  by (auto simp: spec_eventActionDescheduled_def queued_def dequeue_filter add_mono split: if_splits)

lemma deschedule_all_queued: "spec_deschedule_all ds s = Inr s' \<Longrightarrow> queued s' \<le> queued s"
  by (induction ds arbitrary: s) (fastforce dest: descheduled_queued)+

lemma spec_run_queued: "spec_run V d s w = Inr (b, s', w') \<Longrightarrow> queued s' \<le> queued s"
  by (auto simp: spec_run_def queued_def dest: deschedule_all_queued [unfolded queued_def])

lemma split_queue_length:
  "split_queue i ds a n = Inr (a', n') \<Longrightarrow> length a' + length n' = length ds + length a + length n"
  by (induction ds arbitrary: a n) (fastforce split: if_splits)+

text \<open>The shape of what each branch does.\<close>

lemma run_parsingE:
  assumes "run_parsing V d s w = Inr (b, s', w')"
  obtains s1 where "spec_run V d s w = Inr (b, s1, w')" "b \<longrightarrow> m_parsingQueue s1 \<noteq> []"
    "s' = (if b then s1\<lparr>m_parsingQueue := tl (m_parsingQueue s1)\<rparr> else s1)"
  using assms by (auto simp: run_parsing_def pop_queue_def split: if_splits)

lemma run_otherE:
  assumes "run_other V d s w = Inr (b, s', w')"
  obtains s1 where "spec_run V d s w = Inr (b, s1, w')" "b \<longrightarrow> m_otherQueue s1 \<noteq> []"
    "s' = (if b then s1\<lparr>m_otherQueue := tl (m_otherQueue s1)\<rparr> else s1)"
  using assms by (auto simp: run_other_def pop_queue_def split: if_splits)

lemma run_networkE:
  assumes "run_network V d s w = Inr (b, s', w')"
  obtains (failed) "\<not> b" "spec_run V d s w = Inr (b, s', w')"
    | (last) s1 where "b" "spec_run V d s w = Inr (b, s1, w')" "m_networkQueue s1 \<noteq> []"
        "s' = s1\<lparr>m_networkQueue := tl (m_networkQueue s1)\<rparr>"
    | (more) s1 i a ns where "b" "spec_run V d s w = Inr (b, s1, w')" "m_networkQueue s1 \<noteq> []"
        "split_queue i (tl (m_networkQueue s1)) (m_activeNetworkQueue s1) [] = Inr (a, ns)" "getNetworkSequenceId d = Inr i"
        "s' = s1\<lparr>m_networkQueue := ns, m_activeNetworkEvents := sset_insert i (m_activeNetworkEvents s1), m_activeNetworkQueue := a\<rparr>"
  using assms by (auto simp: run_network_def pop_queue_def Let_def split: if_splits)

lemma run_activeE:
  assumes "run_active V s w = Inr (s', w')"
  obtains (empty) "m_activeNetworkQueue s = []" "s' = s" "w' = w"
    | (failed) d q where "m_activeNetworkQueue s = d # q" "spec_run V d s w = Inr (False, s', w')"
    | (ran) d q s1 act where "m_activeNetworkQueue s = d # q" "spec_run V d s w = Inr (True, s1, w')" "m_activeNetworkQueue s1 \<noteq> []"
        "m_activeNetworkQueue s' = tl (m_activeNetworkQueue s1)" "m_networkQueue s' = m_networkQueue s1"
        "m_parsingQueue s' = m_parsingQueue s1" "m_otherQueue s' = m_otherQueue s1" "m_activeNetworkEvents s' = act"
        "act = m_activeNetworkEvents s1 \<or> (\<exists>i. getNetworkSequenceId d = Inr i \<and> act = sset_erase i (m_activeNetworkEvents s1))"
proof (cases "m_activeNetworkQueue s")
  case (Cons d q)
  with assms obtain b s1 where r: "spec_run V d s w = Inr (b, s1, w')"
    by (auto simp: run_active_def Let_def split: if_splits)
  show thesis
  proof (cases b)
    case True
    then show thesis using assms r Cons
      by (intro ran [OF Cons, of s1 "m_activeNetworkEvents s'"])
        (auto simp: run_active_def pop_queue_def Let_def split: if_splits)
  next
    case False
    then show thesis using failed Cons r assms by (auto simp: run_active_def)
  qed
next
  case Nil
  then have "s' = s" "w' = w" using assms by (simp_all add: run_active_def)
  with Nil show thesis by (rule empty)
qed

lemma executeDelayedE:
  assumes "spec_executeDelayedEventAction V s w = Inr (b, s', w')"
  obtains (idle) "\<not> b" "s' = s" "w' = w"
    | (active) "\<not> b" "m_activeNetworkEvents s \<noteq> []" "run_active V s w = Inr (s', w')"
    | (parsing) d q where "m_activeNetworkEvents s = []" "m_parsingQueue s = d # q" "run_parsing V d s w = Inr (b, s', w')"
    | (network) d q where "m_activeNetworkEvents s = []" "m_networkQueue s = d # q" "run_network V d s w = Inr (b, s', w')"
    | (other) d q where "m_activeNetworkEvents s = []" "m_otherQueue s = d # q" "run_other V d s w = Inr (b, s', w')"
  using assms by (auto simp: spec_executeDelayedEventAction_def split: if_splits list.splits)

lemma executed_queued:
  assumes "spec_executeDelayedEventAction V s w = Inr (True, s', w')"
  shows "queued s' < queued s"
  using assms
proof (cases rule: executeDelayedE)
  case (parsing d q)
  from parsing(3) show ?thesis
    by (cases rule: run_parsingE) (auto simp: queued_def neq_Nil_conv dest!: spec_run_queued)
next
  case (network d q)
  from network(3) show ?thesis
    by (cases rule: run_networkE) (auto simp: queued_def neq_Nil_conv dest!: spec_run_queued split_queue_length)
next
  case (other d q)
  from other(3) show ?thesis
    by (cases rule: run_otherE) (auto simp: queued_def neq_Nil_conv dest!: spec_run_queued)
qed simp_all

function spec_executeDelayedEventActions :: "'m spec_env \<Rightarrow> SpecificationScheduler \<Rightarrow> 'm world \<Rightarrow>
    (SpecificationScheduler \<times> 'm world) result" where
  "spec_executeDelayedEventActions V s w =
     (case spec_executeDelayedEventAction V s w of
        Inl e \<Rightarrow> Inl e
      | Inr (True, s', w') \<Rightarrow> spec_executeDelayedEventActions V s' w'
      | Inr (False, s', w') \<Rightarrow> Inr (s', w'))"
  by pat_completeness auto
termination
  by (relation "measure (\<lambda>(V, s, w). queued s)") (auto dest: executed_queued)

declare spec_executeDelayedEventActions.simps [simp del]

section \<open>What is run is what the register records\<close>

definition executed :: "'m world \<Rightarrow> EventActionDescriptor list" where
  "executed w = map snd (m_dispatchHistory (w_reg w))"

lemma try_providers_executed:
  "try_providers H run n k d ps w = Inr (b, w') \<Longrightarrow> executed w' = executed w @ (if b then [d] else [])"
proof (induction ps arbitrary: w)
  case (Cons p ps)
  obtain ob h where p: "p = (ob, h)" by fastforce
  then obtain w1 w2 w3 where w: "pre_execution H n k d ob w = Inr w1" "exec_ops H (snd (run h d w1)) w1 = Inr w2"
    "post_execution (fst (run h d w1)) k w2 = Inr w3"
    "(if fst (run h d w1) then Inr (True, w3) else try_providers H run n k d ps w3) = Inr (b, w')"
    using Cons.prems(1) by (auto simp: case_prod_unfold)
  have "executed w3 = executed w @ (if fst (run h d w1) then [d] else [])"
    using dispatch_startD [OF pre_execution_reg [OF w(1)]] dispatch_endD [OF post_execution_reg [OF w(3)]]
      exec_ops_dispatch [OF w(2)]
    by (auto simp: same_dispatch_def executed_def)
  with Cons.IH [of w3] w(4) show ?case by (auto split: if_splits)
qed simp

lemma runEventAction_executed:
  assumes "reg_inv (w_reg w)" "runEventAction H run n k d w = Inr (b, w')"
  shows "executed w' = executed w @ (if b then [snd (toString d)] else [])"
proof -
  let ?d = "snd (toString d)"
  obtain found w1 where w1: "try_providers H run n k ?d (providers_from (m_type ?d) (w_reg w)) w = Inr (found, w1)"
    using assms(2) by (auto simp: runEventAction_def case_prod_unfold Let_def)
  have inv1: "reg_inv (w_reg w1)" by (rule try_providers_inv [OF assms(1) w1])
  have ex1: "executed w1 = executed w @ (if found then [?d] else [])" by (rule try_providers_executed [OF w1])
  show ?thesis
  proof (cases found)
    case True
    then show ?thesis using assms(2) w1 ex1 by (auto simp: runEventAction_def case_prod_unfold Let_def)
  next
    case False
    have "executed w2 = executed w1 @ [?d]" if "run_handler H run n k ?d (fst (toString d)) l w1 = Inr w2"
        "smap_lookup (m_descriptorToHandler (w_reg w1)) (fst (toString d)) = Some l" for l w2
      using run_handler_result(2) [OF inv1 that] by (simp add: executed_def)
    then show ?thesis
      using assms(2) w1 ex1 False by (auto simp: runEventAction_def case_prod_unfold Let_def split: option.splits)
  qed
qed

lemma unnumbered_executed:
  assumes "reg_inv (w_reg w)" "runEventAction_unnumbered rv H run d w = Inr (b, w')"
  shows "reg_inv (w_reg w')" "\<exists>b'. b = rv b' \<and> executed w' = executed w @ (if b' then [snd (toString d)] else [])"
proof -
  obtain b' where b': "runEventAction H run (-1) (-1) d w = Inr (b', w')" "b = rv b'"
    using assms(2) by (auto simp: runEventAction_unnumbered_def)
  show "reg_inv (w_reg w')" by (rule runEventAction_inv [OF assms(1) b'(1)])
  show "\<exists>b'. b = rv b' \<and> executed w' = executed w @ (if b' then [snd (toString d)] else [])"
    using b' runEventAction_executed [OF assms(1) b'(1)] by blast
qed

section \<open>Nothing is lost, duplicated or reordered\<close>

datatype 'm spec_call = SC_scheduled EventActionDescriptor | SC_descheduled EventActionDescriptor | SC_tick | SC_stop | SC_op "'m world_op"

fun spec_step :: "'m spec_env \<Rightarrow> 'm spec_call \<Rightarrow> SpecificationScheduler \<times> 'm world \<Rightarrow> (SpecificationScheduler \<times> 'm world) result" where
  "spec_step V (SC_scheduled d) (s, w) = bindR (spec_eventActionScheduled d s) (\<lambda>s'. Inr (s', w))"
| "spec_step V (SC_descheduled d) (s, w) = bindR (spec_eventActionDescheduled d s) (\<lambda>s'. Inr (s', w))"
| "spec_step V SC_tick (s, w) = spec_executeDelayedEventActions V s w"
| "spec_step V SC_stop (s, w) = Inr (spec_stop s, w)"
| "spec_step V (SC_op p) (s, w) = bindR (exec_op (v_hash V) p w) (\<lambda>w'. Inr (s, w'))"

fun spec_calls :: "'m spec_env \<Rightarrow> 'm spec_call list \<Rightarrow> SpecificationScheduler \<times> 'm world \<Rightarrow> (SpecificationScheduler \<times> 'm world) result" where
  "spec_calls V [] sw = Inr sw"
| "spec_calls V (c # cs) sw = bindR (spec_step V c sw) (spec_calls V cs)"

text \<open>The event actions of a class, by their text.\<close>

datatype queue_class = Parsing | Network | Other

definition class_of :: "EventActionDescriptor \<Rightarrow> queue_class" where
  "class_of d = (if m_type d = ''HTMLDocumentParser'' then Parsing else if m_type d = ''Network'' then Network else Other)"

definition texts :: "queue_class \<Rightarrow> EventActionDescriptor list \<Rightarrow> string list" where
  "texts c ds = map render (filter (\<lambda>d. class_of d = c) ds)"

fun scheduled_in :: "'m spec_call list \<Rightarrow> EventActionDescriptor list" where
  "scheduled_in [] = []"
| "scheduled_in (SC_scheduled d # cs) = d # scheduled_in cs"
| "scheduled_in (_ # cs) = scheduled_in cs"

lemma texts_append [simp]: "texts c (ds @ es) = texts c ds @ texts c es"
  and texts_Nil [simp]: "texts c [] = []"
  and texts_Cons: "texts c (d # ds) = (if class_of d = c then render d # texts c ds else texts c ds)"
  by (simp_all add: texts_def)

text \<open>The bookkeeping invariant: what was scheduled is what was executed followed by what waits.\<close>

definition kept :: "EventActionDescriptor list \<Rightarrow> SpecificationScheduler \<Rightarrow> 'm world \<Rightarrow> bool" where
  "kept ds s w =
     (reg_inv (w_reg w)
      \<and> (\<forall>d \<in> set (m_parsingQueue s). class_of d = Parsing \<and> cache_ok d)
      \<and> (\<forall>d \<in> set (m_networkQueue s @ m_activeNetworkQueue s). class_of d = Network \<and> cache_ok d)
      \<and> (\<forall>d \<in> set (m_otherQueue s). class_of d = Other \<and> cache_ok d)
      \<and> texts Parsing ds = texts Parsing (executed w) @ map render (m_parsingQueue s)
      \<and> texts Other ds = texts Other (executed w) @ map render (m_otherQueue s)
      \<and> mset (texts Network ds) = mset (texts Network (executed w)) + mset (map render (m_networkQueue s @ m_activeNetworkQueue s)))"

definition removes_nothing :: "'m world_op \<Rightarrow> bool" where
  "removes_nothing p = (case p of Op_deregister d \<Rightarrow> False
     | Op_act f \<Rightarrow> (\<forall>w page ds cs. f w = Inr (page, ds, cs) \<longrightarrow> ds = []) | _ \<Rightarrow> True)"

text \<open>No handler function stops a timer that waits for its event action.\<close>

definition no_descheduling :: "'m spec_env \<Rightarrow> bool" where
  "no_descheduling V = (\<forall>h d w. \<forall>p \<in> set (snd (v_run V h d w)). removes_nothing p)"

lemma exec_ops_keep: "\<forall>p \<in> set ps. removes_nothing p \<Longrightarrow> exec_ops H ps w = Inr w' \<Longrightarrow> w_removed w' = w_removed w"
proof (induction ps arbitrary: w)
  case (Cons p ps)
  then obtain w1 where w1: "exec_op H p w = Inr w1" "exec_ops H ps w1 = Inr w'" by auto
  have "removes_nothing p" using Cons.prems(1) by simp
  then have "w_removed w1 = w_removed w" using w1(1) by (cases p) (auto simp: removes_nothing_def, blast)
  then show ?case using Cons.IH [OF _ w1(2)] Cons.prems(1) by simp
qed simp

lemma execution_keeps [simp]:
  "pre_execution H n k d ob w = Inr w' \<Longrightarrow> w_removed w' = w_removed w"
  "post_execution c k w = Inr w' \<Longrightarrow> w_removed w' = w_removed w"
  by (auto simp: pre_execution_def post_execution_def split: prod.splits)

lemma try_providers_keep:
  "no_descheduling V \<Longrightarrow> try_providers H (v_run V) n k d ps w = Inr (b, w') \<Longrightarrow> w_removed w' = w_removed w"
proof (induction ps arbitrary: w)
  case (Cons p ps)
  obtain ob h where p: "p = (ob, h)" by fastforce
  then obtain w1 w2 w3 where w: "pre_execution H n k d ob w = Inr w1" "exec_ops H (snd (v_run V h d w1)) w1 = Inr w2"
    "post_execution (fst (v_run V h d w1)) k w2 = Inr w3"
    "(if fst (v_run V h d w1) then Inr (True, w3) else try_providers H (v_run V) n k d ps w3) = Inr (b, w')"
    using Cons.prems(2) by (auto simp: case_prod_unfold)
  have "w_removed w2 = w_removed w1" using exec_ops_keep [OF _ w(2)] Cons.prems(1) by (simp add: no_descheduling_def)
  then have "w_removed w3 = w_removed w" using w(1,3) by simp
  then show ?case using Cons.IH [OF Cons.prems(1), of w3] w(4) by (auto split: if_splits)
qed simp

lemma run_handler_keep:
  assumes "no_descheduling V" "run_handler H (v_run V) n k d key l w = Inr w'"
  shows "w_removed w' = w_removed w"
proof -
  obtain w1 w2 where w: "pre_execution H n k d (h_object (hd l)) w = Inr w1" "exec_ops H (snd (v_run V (hd l) d w1)) w1 = Inr w2"
    "post_execution True k (w2\<lparr>w_reg := pop_handler key (w_reg w2)\<rparr>) = Inr w'"
    using assms(2) by (auto simp: run_handler_def case_prod_unfold split: if_splits)
  have "w_removed w2 = w_removed w1" using exec_ops_keep [OF _ w(2)] assms(1) by (simp add: no_descheduling_def)
  then show ?thesis using execution_keeps(1) [OF w(1)] execution_keeps(2) [OF w(3)] by simp
qed

lemma unnumbered_keep:
  assumes "no_descheduling V" "runEventAction_unnumbered rv H (v_run V) d w = Inr (b, w')"
  shows "w_removed w' = w_removed w"
proof -
  obtain b' where r: "runEventAction H (v_run V) (-1) (-1) d w = Inr (b', w')"
    using assms(2) by (auto simp: runEventAction_unnumbered_def)
  let ?d = "snd (toString d)"
  obtain found w1 where w1: "try_providers H (v_run V) (-1) (-1) ?d (providers_from (m_type ?d) (w_reg w)) w = Inr (found, w1)"
    using r by (auto simp: runEventAction_def case_prod_unfold Let_def)
  have "w' = w1 \<or> (\<exists>l. run_handler H (v_run V) (-1) (-1) ?d (fst (toString d)) l w1 = Inr w')"
    using r w1 by (auto simp: runEventAction_def case_prod_unfold Let_def split: if_splits option.splits)
  then show ?thesis using try_providers_keep [OF assms(1) w1] run_handler_keep [OF assms(1)] by auto
qed

lemma spec_run_kept:
  assumes "no_descheduling V" "v_rv V = (\<lambda>b. b)" "reg_inv (w_reg w)" "cache_ok d" "spec_run V d s w = Inr (b, s', w')"
  obtains n where "s' = s\<lparr>m_doneCounter := n\<rparr>" "reg_inv (w_reg w')"
    "\<And>c. texts c (executed w') = texts c (executed w) @ (if b \<and> class_of d = c then [render d] else [])"
proof -
  from assms(1,5) have r: "runEventAction_unnumbered (v_rv V) (v_hash V) (v_run V) d w = Inr (b, w')"
    and s': "\<exists>n. s' = s\<lparr>m_doneCounter := n\<rparr>"
    using unnumbered_keep [OF assms(1), of "v_rv V" "v_hash V" d w b w'] by (auto simp: spec_run_def)
  have "class_of (snd (toString d)) = class_of d" "render (snd (toString d)) = render d"
    using assms(4) by (simp_all add: toString_render class_of_def)
  then have "texts c (executed w') = texts c (executed w) @ (if b \<and> class_of d = c then [render d] else [])" for c
    using unnumbered_executed(2) [OF assms(3) r] assms(2) by (auto simp: texts_Cons)
  with s' unnumbered_executed(1) [OF assms(3) r] show ?thesis using that by blast
qed

lemma split_queue_mset:
  "split_queue i ds a n = Inr (a', n') \<Longrightarrow> mset (a' @ n') = mset (ds @ a @ n)"
  by (induction ds arbitrary: a n) (fastforce split: if_splits)+

lemma split_queue_map:
  assumes "split_queue i ds a [] = Inr (a', n')"
  shows "set (n' @ a') = set (ds @ a)" "mset (map f (n' @ a')) = mset (map f (ds @ a))"
proof -
  have m: "mset (a' @ n') = mset (ds @ a)" using split_queue_mset [OF assms] by simp
  then have "image_mset f (mset (a' @ n')) = image_mset f (mset (ds @ a))" by (rule arg_cong)
  then show "mset (map f (n' @ a')) = mset (map f (ds @ a))" by (simp add: ac_simps)
  from m have "set_mset (mset (a' @ n')) = set_mset (mset (ds @ a))" by (rule arg_cong)
  then show "set (n' @ a') = set (ds @ a)" by auto
qed

lemma run_parsing_kept:
  assumes "no_descheduling V" "v_rv V = (\<lambda>b. b)" "kept ds s w" "m_parsingQueue s = d # q" "run_parsing V d s w = Inr (b, s', w')"
  shows "kept ds s' w'"
proof -
  have d: "reg_inv (w_reg w)" "cache_ok d" "class_of d = Parsing" using assms(3,4) by (auto simp: kept_def)
  from assms(5) obtain s1 where s1: "spec_run V d s w = Inr (b, s1, w')"
    "s' = (if b then s1\<lparr>m_parsingQueue := tl (m_parsingQueue s1)\<rparr> else s1)" by (rule run_parsingE)
  obtain n where "s1 = s\<lparr>m_doneCounter := n\<rparr>" "reg_inv (w_reg w')"
    "\<And>c. texts c (executed w') = texts c (executed w) @ (if b \<and> class_of d = c then [render d] else [])"
    using spec_run_kept [OF assms(1,2) d(1,2) s1(1)] by metis
  then show ?thesis using assms(3,4) d s1(2) by (simp add: kept_def)
qed

lemma run_other_kept:
  assumes "no_descheduling V" "v_rv V = (\<lambda>b. b)" "kept ds s w" "m_otherQueue s = d # q" "run_other V d s w = Inr (b, s', w')"
  shows "kept ds s' w'"
proof -
  have d: "reg_inv (w_reg w)" "cache_ok d" "class_of d = Other" using assms(3,4) by (auto simp: kept_def)
  from assms(5) obtain s1 where s1: "spec_run V d s w = Inr (b, s1, w')"
    "s' = (if b then s1\<lparr>m_otherQueue := tl (m_otherQueue s1)\<rparr> else s1)" by (rule run_otherE)
  obtain n where "s1 = s\<lparr>m_doneCounter := n\<rparr>" "reg_inv (w_reg w')"
    "\<And>c. texts c (executed w') = texts c (executed w) @ (if b \<and> class_of d = c then [render d] else [])"
    using spec_run_kept [OF assms(1,2) d(1,2) s1(1)] by metis
  then show ?thesis using assms(3,4) d s1(2) by (simp add: kept_def)
qed

lemma run_active_kept:
  assumes "no_descheduling V" "v_rv V = (\<lambda>b. b)" "kept ds s w" "run_active V s w = Inr (s', w')"
  shows "kept ds s' w'"
  using assms(4)
proof (cases rule: run_activeE)
  case (failed d q)
  have d: "reg_inv (w_reg w)" "cache_ok d" using assms(3) failed by (auto simp: kept_def)
  obtain n where "s' = s\<lparr>m_doneCounter := n\<rparr>" "reg_inv (w_reg w')" "\<And>c. texts c (executed w') = texts c (executed w)"
    using spec_run_kept [OF assms(1,2) d failed(2)] by auto
  then show ?thesis using assms(3) by (simp add: kept_def)
next
  case (ran d q s1 act)
  have d: "reg_inv (w_reg w)" "cache_ok d" "class_of d = Network" using assms(3) ran by (auto simp: kept_def)
  obtain n where "s1 = s\<lparr>m_doneCounter := n\<rparr>" "reg_inv (w_reg w')"
    "\<And>c. texts c (executed w') = texts c (executed w) @ (if class_of d = c then [render d] else [])"
    using spec_run_kept [OF assms(1,2) d(1,2) ran(2)] by auto
  then show ?thesis using assms(3) d ran(1,4-7) by (simp add: kept_def)
qed (use assms(3) in simp)

lemma run_network_kept:
  assumes "no_descheduling V" "v_rv V = (\<lambda>b. b)" "kept ds s w" "m_networkQueue s = d # q" "run_network V d s w = Inr (b, s', w')"
  shows "kept ds s' w'"
proof -
  have d: "reg_inv (w_reg w)" "cache_ok d" "class_of d = Network" using assms(3,4) by (auto simp: kept_def)
  have run: "\<exists>n. s1 = s\<lparr>m_doneCounter := n\<rparr> \<and> reg_inv (w_reg w')
      \<and> (\<forall>c. texts c (executed w') = texts c (executed w) @ (if b \<and> class_of d = c then [render d] else []))"
    if "spec_run V d s w = Inr (b, s1, w')" for s1
    using spec_run_kept [OF assms(1,2) d(1,2) that] by metis
  from assms(5) show ?thesis
  proof (cases rule: run_networkE)
    case failed
    with run [OF failed(2)] show ?thesis using assms(3) by (auto simp: kept_def)
  next
    case (last s1)
    obtain n where "s1 = s\<lparr>m_doneCounter := n\<rparr>" using run [OF last(2)] by blast
    then show ?thesis using run [OF last(2)] last(1,4) assms(3,4) d by (simp add: kept_def)
  next
    case (more s1 i a ns)
    obtain n where s1: "s1 = s\<lparr>m_doneCounter := n\<rparr>" using run [OF more(2)] by blast
    note sq = split_queue_map [OF more(4)]
    have "\<forall>d \<in> set (ns @ a). class_of d = Network \<and> cache_ok d"
      unfolding sq(1) using assms(3,4) s1 by (simp add: kept_def)
    then show ?thesis using run [OF more(2)] more(1,6) assms(3,4) d s1 sq(2) [of render] by (simp add: kept_def)
  qed
qed

lemma executeDelayed_kept:
  assumes "no_descheduling V" "v_rv V = (\<lambda>b. b)" "kept ds s w" "spec_executeDelayedEventAction V s w = Inr (b, s', w')"
  shows "kept ds s' w'"
  using assms(4)
  by (cases rule: executeDelayedE) (use assms(3) run_active_kept [OF assms(1-3)] run_parsing_kept [OF assms(1-3)]
    run_network_kept [OF assms(1-3)] run_other_kept [OF assms(1-3)] in \<open>blast+\<close>)

lemma tick_kept:
  "no_descheduling V \<Longrightarrow> v_rv V = (\<lambda>b. b) \<Longrightarrow> kept ds s w \<Longrightarrow> spec_executeDelayedEventActions V s w = Inr (s', w') \<Longrightarrow> kept ds s' w'"
proof (induction V s w rule: spec_executeDelayedEventActions.induct)
  case (1 V s w)
  from 1(5) obtain b s1 w1 where e: "spec_executeDelayedEventAction V s w = Inr (b, s1, w1)"
    by (subst (asm) spec_executeDelayedEventActions.simps) (auto split: sum.splits)
  note k = executeDelayed_kept [OF 1(2-4) e]
  show ?case
  proof (cases b)
    case True
    with 1(5) e have "spec_executeDelayedEventActions V s1 w1 = Inr (s', w')"
      by (subst (asm) spec_executeDelayedEventActions.simps) simp
    then show ?thesis using 1(1) [OF e refl _ refl] True 1(2,3) k by simp
  next
    case False
    with 1(5) e k show ?thesis by (subst (asm) spec_executeDelayedEventActions.simps) simp
  qed
qed

definition only_schedules :: "'m spec_call list \<Rightarrow> bool" where
  "only_schedules cs = (\<forall>c \<in> set cs. case c of SC_descheduled _ \<Rightarrow> False | SC_scheduled d \<Rightarrow> cache_ok d | _ \<Rightarrow> True)"

lemma scheduledE:
  assumes "spec_eventActionScheduled d s = Inr s'"
  obtains (parsing) "class_of d = Parsing" "s' = s\<lparr>m_parsingQueue := m_parsingQueue s @ [d]\<rparr>"
    | (network) i where "class_of d = Network" "getNetworkSequenceId d = Inr i" "i \<notin> set (m_activeNetworkEvents s)"
        "s' = s\<lparr>m_networkQueue := m_networkQueue s @ [d]\<rparr>"
    | (active) "class_of d = Network" "s' = s\<lparr>m_activeNetworkQueue := m_activeNetworkQueue s @ [d]\<rparr>"
    | (other) "class_of d = Other" "s' = s\<lparr>m_otherQueue := m_otherQueue s @ [d]\<rparr>"
  using assms by (auto simp: spec_eventActionScheduled_def class_of_def split: if_splits)

lemma spec_step_kept:
  assumes "no_descheduling V" "v_rv V = (\<lambda>b. b)" "kept ds s w" "only_schedules [c]" "spec_step V c (s, w) = Inr (s', w')"
  shows "kept (ds @ scheduled_in [c]) s' w'"
proof (cases c)
  case (SC_scheduled d)
  have ok: "cache_ok d" using SC_scheduled assms(4) by (simp add: only_schedules_def)
  have "spec_eventActionScheduled d s = Inr s'" "w' = w" using SC_scheduled assms(5) by auto
  then show ?thesis by (cases rule: scheduledE) (use SC_scheduled assms(3) ok in \<open>simp_all add: kept_def texts_Cons\<close>)
next
  case (SC_op p)
  with assms(5) have op: "exec_op (v_hash V) p w = Inr w'" "s' = s" by auto
  have "reg_inv (w_reg w')" using exec_op_inv [OF _ op(1)] assms(3) by (simp add: kept_def)
  moreover have "executed w' = executed w" using exec_op_dispatch [OF op(1)] by (simp add: executed_def same_dispatch_def)
  ultimately show ?thesis using assms(3) op(2) SC_op by (simp add: kept_def)
next
  case SC_tick
  then show ?thesis using tick_kept [OF assms(1-3)] assms(5) by simp
next
  case SC_stop
  then show ?thesis using assms(3,5) by (auto simp: spec_stop_def kept_def)
qed (use assms(4) in \<open>simp add: only_schedules_def\<close>)

lemma spec_calls_kept:
  "no_descheduling V \<Longrightarrow> v_rv V = (\<lambda>b. b) \<Longrightarrow> kept ds (fst sw) (snd sw) \<Longrightarrow> only_schedules cs \<Longrightarrow>
     spec_calls V cs sw = Inr (s', w') \<Longrightarrow> kept (ds @ scheduled_in cs) s' w'"
proof (induction cs arbitrary: ds sw)
  case (Cons c cs)
  obtain s w where sw: "sw = (s, w)" by fastforce
  with Cons.prems obtain sw1 where st: "spec_step V c sw = Inr sw1" "spec_calls V cs sw1 = Inr (s', w')" by auto
  have "kept (ds @ scheduled_in [c]) (fst sw1) (snd sw1)"
    using spec_step_kept [OF Cons.prems(1,2), of ds s w c "fst sw1" "snd sw1"] Cons.prems st sw by (simp add: only_schedules_def)
  from Cons.IH [OF Cons.prems(1,2) this _ st(2)] Cons.prems(4) show ?case by (cases c) (simp_all add: only_schedules_def)
qed simp


section \<open>A started network sequence excludes everything else\<close>

definition exclusive :: "SpecificationScheduler \<Rightarrow> bool" where
  "exclusive s = (m_activeNetworkEvents s = []
     \<or> (\<exists>i. m_activeNetworkEvents s = [i] \<and> (\<forall>d \<in> set (m_networkQueue s). getNetworkSequenceId d \<noteq> Inr i)))"

text \<open>What runs inside an event action only removes events from the scheduler.\<close>

definition only_removes :: "SpecificationScheduler \<Rightarrow> SpecificationScheduler \<Rightarrow> bool" where
  "only_removes s s' = (m_activeNetworkEvents s' = m_activeNetworkEvents s \<and> set (m_networkQueue s') \<subseteq> set (m_networkQueue s))"

lemma descheduled_removes: "spec_eventActionDescheduled d s = Inr s' \<Longrightarrow> only_removes s s'"
  by (auto simp: spec_eventActionDescheduled_def dequeue_filter only_removes_def split: if_splits)

lemma deschedule_all_removes: "spec_deschedule_all ds s = Inr s' \<Longrightarrow> only_removes s s'"
proof (induction ds arbitrary: s)
  case (Cons d ds)
  then obtain s1 where "spec_eventActionDescheduled d s = Inr s1" "only_removes s1 s'" by auto
  then show ?case using descheduled_removes [of d s s1] by (auto simp: only_removes_def)
qed (simp add: only_removes_def)

lemma spec_run_removes:
  assumes "spec_run V d s w = Inr (b, s', w')"
  shows "only_removes s s'"
proof -
  obtain s1 ds where "spec_deschedule_all ds s = Inr s1" "s' = s1\<lparr>m_doneCounter := m_doneCounter s1 + v_finished V d w\<rparr>"
    using assms by (auto simp: spec_run_def)
  then show ?thesis using deschedule_all_removes [of ds s s1] by (simp add: only_removes_def)
qed

lemma exclusive_removes: "exclusive s \<Longrightarrow> only_removes s s' \<Longrightarrow> exclusive s'"
  by (auto simp: exclusive_def only_removes_def)

lemma split_queue_waiting:
  "split_queue i ds a n = Inr (a', n') \<Longrightarrow> \<forall>d \<in> set n. getNetworkSequenceId d \<noteq> Inr i \<Longrightarrow>
     \<forall>d \<in> set n'. getNetworkSequenceId d \<noteq> Inr i"
proof (induction ds arbitrary: a n)
  case (Cons d ds)
  from Cons.prems(1) obtain j where j: "getNetworkSequenceId d = Inr j"
    "(if i = j then split_queue i ds (a @ [d]) n else split_queue i ds a (n @ [d])) = Inr (a', n')" by auto
  show ?case
  proof (cases "i = j")
    case True
    then show ?thesis using Cons.IH [of "a @ [d]" n] Cons.prems(2) j by simp
  next
    case False
    then show ?thesis using Cons.IH [of a "n @ [d]"] Cons.prems(2) j by simp
  qed
qed simp

lemma run_active_exclusive:
  assumes "exclusive s" "run_active V s w = Inr (s', w')"
  shows "exclusive s'"
  using assms(2)
proof (cases rule: run_activeE)
  case (ran d q s1 act)
  have "exclusive s1" by (rule exclusive_removes [OF assms(1) spec_run_removes [OF ran(2)]])
  then show ?thesis using ran(5,8,9) by (auto simp: exclusive_def sset_erase_def split: if_splits)
qed (use assms(1) exclusive_removes [OF assms(1)] spec_run_removes in blast)+

lemma executeDelayed_exclusive:
  assumes "exclusive s" "spec_executeDelayedEventAction V s w = Inr (b, s', w')"
  shows "exclusive s'"
  using assms(2)
proof (cases rule: executeDelayedE)
  case (parsing d q)
  from parsing(3) obtain s1 where "only_removes s s1" "m_activeNetworkEvents s' = m_activeNetworkEvents s1"
    by (cases rule: run_parsingE) (auto dest: spec_run_removes)
  then show ?thesis using parsing(1) by (simp add: exclusive_def only_removes_def)
next
  case (other d q)
  from other(3) obtain s1 where "only_removes s s1" "m_activeNetworkEvents s' = m_activeNetworkEvents s1"
    by (cases rule: run_otherE) (auto dest: spec_run_removes)
  then show ?thesis using other(1) by (simp add: exclusive_def only_removes_def)
next
  case (network d q)
  from network(3) show ?thesis
  proof (cases rule: run_networkE)
    case failed
    then show ?thesis using exclusive_removes [OF assms(1) spec_run_removes] by blast
  next
    case (last s1)
    then show ?thesis using spec_run_removes [OF last(2)] network(1) by (simp add: exclusive_def only_removes_def)
  next
    case (more s1 i a ns)
    then show ?thesis using spec_run_removes [OF more(2)] network(1) split_queue_waiting [OF more(4)]
      by (auto simp: exclusive_def only_removes_def)
  qed
qed (use assms(1) run_active_exclusive in blast)+

lemma tick_exclusive: "exclusive s \<Longrightarrow> spec_executeDelayedEventActions V s w = Inr (s', w') \<Longrightarrow> exclusive s'"
proof (induction V s w rule: spec_executeDelayedEventActions.induct)
  case (1 V s w)
  from 1(3) obtain b s1 w1 where e: "spec_executeDelayedEventAction V s w = Inr (b, s1, w1)"
    by (subst (asm) spec_executeDelayedEventActions.simps) (auto split: sum.splits)
  note k = executeDelayed_exclusive [OF 1(2) e]
  show ?case
  proof (cases b)
    case True
    with 1(3) e have "spec_executeDelayedEventActions V s1 w1 = Inr (s', w')"
      by (subst (asm) spec_executeDelayedEventActions.simps) simp
    then show ?thesis using 1(1) [OF e refl _ refl] True k by simp
  next
    case False
    with 1(3) e k show ?thesis by (subst (asm) spec_executeDelayedEventActions.simps) simp
  qed
qed

lemma spec_run_reg: "reg_inv (w_reg w) \<Longrightarrow> spec_run V d s w = Inr (b, s', w') \<Longrightarrow> reg_inv (w_reg w')"
  by (auto simp: spec_run_def dest: unnumbered_executed(1))

lemma executeDelayed_reg:
  assumes "reg_inv (w_reg w)" "spec_executeDelayedEventAction V s w = Inr (b, s', w')"
  shows "reg_inv (w_reg w')"
  using assms(2)
proof (cases rule: executeDelayedE)
  case active
  from active(3) show ?thesis by (cases rule: run_activeE) (use assms(1) spec_run_reg in blast)+
next
  case (parsing d q)
  from parsing(3) show ?thesis by (cases rule: run_parsingE) (use assms(1) spec_run_reg in blast)
next
  case (network d q)
  from network(3) show ?thesis by (cases rule: run_networkE) (use assms(1) spec_run_reg in blast)+
next
  case (other d q)
  from other(3) show ?thesis by (cases rule: run_otherE) (use assms(1) spec_run_reg in blast)
qed (use assms(1) in simp)

lemma tick_reg: "reg_inv (w_reg w) \<Longrightarrow> spec_executeDelayedEventActions V s w = Inr (s', w') \<Longrightarrow> reg_inv (w_reg w')"
proof (induction V s w rule: spec_executeDelayedEventActions.induct)
  case (1 V s w)
  from 1(3) obtain b s1 w1 where e: "spec_executeDelayedEventAction V s w = Inr (b, s1, w1)"
    by (subst (asm) spec_executeDelayedEventActions.simps) (auto split: sum.splits)
  note k = executeDelayed_reg [OF 1(2) e]
  show ?case
  proof (cases b)
    case True
    with 1(3) e have "spec_executeDelayedEventActions V s1 w1 = Inr (s', w')"
      by (subst (asm) spec_executeDelayedEventActions.simps) simp
    then show ?thesis using 1(1) [OF e refl _ refl] True k by simp
  next
    case False
    with 1(3) e k show ?thesis by (subst (asm) spec_executeDelayedEventActions.simps) simp
  qed
qed

lemma spec_step_exclusive:
  assumes "exclusive s" "reg_inv (w_reg w)" "spec_step V c (s, w) = Inr (s', w')"
  shows "exclusive s' \<and> reg_inv (w_reg w')"
proof (cases c)
  case (SC_scheduled d)
  have "spec_eventActionScheduled d s = Inr s'" "w' = w" using SC_scheduled assms(3) by auto
  then show ?thesis by (cases rule: scheduledE) (use assms(1,2) in \<open>auto simp: exclusive_def\<close>)
next
  case (SC_descheduled d)
  then have "spec_eventActionDescheduled d s = Inr s'" "w' = w" using assms(3) by auto
  then show ?thesis using exclusive_removes [OF assms(1) descheduled_removes] assms(2) by blast
next
  case (SC_op p)
  then show ?thesis using assms exec_op_inv by auto
next
  case SC_tick
  then show ?thesis using assms tick_exclusive tick_reg by auto
next
  case SC_stop
  then show ?thesis using assms by (auto simp: spec_stop_def exclusive_def)
qed

lemma spec_calls_exclusive:
  "exclusive (fst sw) \<Longrightarrow> reg_inv (w_reg (snd sw)) \<Longrightarrow> spec_calls V cs sw = Inr (s', w') \<Longrightarrow> exclusive s' \<and> reg_inv (w_reg w')"
proof (induction cs arbitrary: sw)
  case (Cons c cs)
  then obtain sw1 where st: "spec_step V c sw = Inr sw1" "spec_calls V cs sw1 = Inr (s', w')" by auto
  have "exclusive (fst sw1) \<and> reg_inv (w_reg (snd sw1))"
    using spec_step_exclusive [OF Cons.prems(1,2), of V c "fst sw1" "snd sw1"] st(1) by simp
  then show ?case using Cons.IH [OF _ _ st(2)] by blast
qed simp

lemma run_active_executed:
  assumes "reg_inv (w_reg w)" "run_active V s w = Inr (s', w')"
  shows "executed w' = executed w \<or> (\<exists>d q. m_activeNetworkQueue s = d # q \<and> executed w' = executed w @ [snd (toString d)])"
proof -
  have "executed w' = executed w \<or> executed w' = executed w @ [snd (toString d)]" if "spec_run V d s w = Inr (b, s1, w')" for d b s1
  proof -
    from that obtain b1 where "runEventAction_unnumbered (v_rv V) (v_hash V) (v_run V) d w = Inr (b1, w')"
      by (auto simp: spec_run_def)
    from unnumbered_executed(2) [OF assms(1) this] show ?thesis by auto
  qed
  with assms(2) show ?thesis by (cases rule: run_activeE) blast+
qed

text \<open>
  whatever is scheduled, descheduled and executed, at most one network sequence is active at a time,
  all its waiting events are in the queue of the active sequence, and while it is
  active a tick executes at most one event action, the first of that queue: no parsing, no other network and no other event action
  runs before the sequence has ended.
\<close>

theorem spec_sequence_exclusive:
  assumes "spec_calls V cs (new_SpecificationScheduler n, new_world page) = Inr (s, w)" "m_activeNetworkEvents s \<noteq> []"
    and "spec_executeDelayedEventActions V s w = Inr (s', w')"
  shows "\<exists>i. m_activeNetworkEvents s = [i] \<and> (\<forall>d \<in> set (m_networkQueue s). getNetworkSequenceId d \<noteq> Inr i)
     \<and> (executed w' = executed w \<or> (\<exists>d q. m_activeNetworkQueue s = d # q \<and> executed w' = executed w @ [snd (toString d)]))"
proof -
  have inv: "exclusive s" "reg_inv (w_reg w)"
    using spec_calls_exclusive [OF _ _ assms(1)] reg_inv_new
    by (simp_all add: exclusive_def new_SpecificationScheduler_def new_world_def)
  have "w' = w \<or> run_active V s w = Inr (s', w')" using assms(2,3)
    by (subst (asm) spec_executeDelayedEventActions.simps)
      (auto simp: spec_executeDelayedEventAction_def bindR_eq_Inl_iff split: sum.splits if_splits bool.splits)
  then have "executed w' = executed w \<or> (\<exists>d q. m_activeNetworkQueue s = d # q \<and> executed w' = executed w @ [snd (toString d)])"
    using run_active_executed [OF inv(2)] by blast
  then show ?thesis using inv(1) assms(2) by (auto simp: exclusive_def)
qed

text \<open>
  descheduling compares the type with another spelling than scheduling, so a network event that is
  descheduled stays in its queue. Once its handler is gone the scheduler tries it in every tick, executes nothing, and
  the event actions behind it and all that are neither parsing nor network wait for ever.
\<close>

theorem descheduled_network_event_blocks:
  assumes "m_type d = ''Network''" "m_networkQueue s = d # q" "m_activeNetworkEvents s = []" "m_parsingQueue s = []" "\<not> m_stopped s"
    and "spec_eventActionDescheduled d s = Inr s1" "deregisterEventActionHandler d (w_reg w) = Inr R"
    and "providers_from ''Network'' R = []" "\<not> v_rv V False"
  shows "\<exists>s2. spec_executeDelayedEventActions V s1 (w\<lparr>w_reg := R\<rparr>) = Inr (s2, w\<lparr>w_reg := R\<rparr>) \<and> m_networkQueue s2 = d # q
     \<and> m_otherQueue s2 = m_otherQueue s1"
proof -
  let ?w = "w\<lparr>w_reg := R\<rparr>"
  have s1: "m_networkQueue s1 = d # q" "m_activeNetworkEvents s1 = []" "m_parsingQueue s1 = []" "\<not> m_stopped s1"
    using assms(1-6) by (auto simp: spec_eventActionDescheduled_def)
  have "smap_lookup (m_descriptorToHandler R) (fst (toString d)) = None"
    using assms(7) by (auto simp: deregisterEventActionHandler_def Let_def split: if_splits)
  moreover have "m_type (snd (toString d)) = ''Network''" using assms(1) by (simp add: toString_def Let_def)
  ultimately have "runEventAction_unnumbered (v_rv V) (v_hash V) (v_run V) d ?w = Inr (False, ?w)"
    using assms(8,9) by (simp add: runEventAction_unnumbered_def runEventAction_def case_prod_unfold Let_def)
  then have "spec_executeDelayedEventAction V s1 ?w = Inr (False, s1\<lparr>m_doneCounter := m_doneCounter s1 + v_finished V d ?w\<rparr>, ?w)"
    using s1 by (simp add: spec_executeDelayedEventAction_def run_network_def spec_run_def)
  then show ?thesis using s1 by (subst spec_executeDelayedEventActions.simps) simp
qed

section \<open>Witnesses\<close>

text \<open>Two events of one network sequence, a parsing and a timer event action; every handler function does nothing.\<close>

definition sample_spec_env :: "unit spec_env" where
  "sample_spec_env = \<lparr>v_hash = (\<lambda>s. 0), v_run = (\<lambda>h d w. (True, [])), v_rv = (\<lambda>b. b), v_finished = (\<lambda>d w. 0)\<rparr>"

definition sample_spec_calls :: "unit spec_call list" where
  "sample_spec_calls = concat (map (\<lambda>d. [SC_op (Op_register d \<lparr>h_object = 1, h_function = 1\<rparr>), SC_scheduled d])
     [mk_descriptor WTF_TIMER ''DOMTimer'' ''1'', mk_descriptor WTF_NETWORK ''Network'' ''u,0,0'',
      mk_descriptor WTF_PARSING ''HTMLDocumentParser'' ''u'', mk_descriptor WTF_NETWORK ''Network'' ''u,0,1''])"

lemma sample_spec_run:
  "ok (spec_calls sample_spec_env (sample_spec_calls @ [SC_tick]) (new_SpecificationScheduler 0, new_world ())) (\<lambda>(s, w).
     map render (executed w) = [''4-HTMLDocumentParser(u)'', ''3-Network(u,0,0)'', ''3-Network(u,0,1)'']
     \<and> m_activeNetworkEvents s = [''u,0''] \<and> ok (spec_executeDelayedEventActions sample_spec_env s w) (\<lambda>_. True))"
  by code_simp


theorem spec_sequence_exclusive_witness:
  "\<exists>s w s' w'. spec_calls sample_spec_env (sample_spec_calls @ [SC_tick]) (new_SpecificationScheduler 0, new_world ()) = Inr (s, w)
     \<and> m_activeNetworkEvents s = [''u,0''] \<and> spec_executeDelayedEventActions sample_spec_env s w = Inr (s', w')
     \<and> (\<forall>d \<in> set (m_networkQueue s). getNetworkSequenceId d \<noteq> Inr ''u,0'')"
proof -
  obtain s w s' w' where r: "spec_calls sample_spec_env (sample_spec_calls @ [SC_tick]) (new_SpecificationScheduler 0, new_world ()) = Inr (s, w)"
    "m_activeNetworkEvents s = [''u,0'']" "spec_executeDelayedEventActions sample_spec_env s w = Inr (s', w')"
    using sample_spec_run by (auto simp: ok_iff)
  from spec_sequence_exclusive [OF r(1) _ r(3)] r show ?thesis by auto
qed

theorem descheduled_network_event_blocks_witness:
  "let d = mk_descriptor WTF_NETWORK ''Network'' ''u,0,0''; e = mk_descriptor WTF_TIMER ''DOMTimer'' ''1'';
       s = (new_SpecificationScheduler 0)\<lparr>m_networkQueue := [d], m_otherQueue := [e]\<rparr>
   in \<exists>s1 R s2. spec_eventActionDescheduled d s = Inr s1 \<and> deregisterEventActionHandler d new_EventActionRegister = Inr R
     \<and> spec_executeDelayedEventActions sample_spec_env s1 ((new_world ())\<lparr>w_reg := R\<rparr>) = Inr (s2, (new_world ())\<lparr>w_reg := R\<rparr>)
     \<and> m_networkQueue s2 = [d] \<and> m_otherQueue s2 = m_otherQueue s1"
proof -
  let ?d = "mk_descriptor WTF_NETWORK ''Network'' ''u,0,0''" and ?e = "mk_descriptor WTF_TIMER ''DOMTimer'' ''1''"
  let ?s = "(new_SpecificationScheduler 0)\<lparr>m_networkQueue := [?d], m_otherQueue := [?e]\<rparr>"
  have "ok (spec_eventActionDescheduled ?d ?s) (\<lambda>_. True)"
    "ok (deregisterEventActionHandler ?d new_EventActionRegister) (\<lambda>R. providers_from ''Network'' R = [])" by code_simp+
  then obtain s1 R where r: "spec_eventActionDescheduled ?d ?s = Inr s1" "deregisterEventActionHandler ?d new_EventActionRegister = Inr R"
    "providers_from ''Network'' R = []" by (auto simp: ok_iff)
  have "m_type ?d = ''Network''" "m_networkQueue ?s = ?d # []" "m_activeNetworkEvents ?s = []" "m_parsingQueue ?s = []" "\<not> m_stopped ?s"
    "\<not> v_rv sample_spec_env False"
    by (simp_all add: mk_descriptor_def new_SpecificationScheduler_def sample_spec_env_def)
  then show ?thesis
    using descheduled_network_event_blocks [of ?d ?s "[]" s1 "new_world ()" R sample_spec_env] r
    by (simp add: new_world_def Let_def)
qed

end
