(* ===== verification/Replay_Scheduler.thy ===== *)
theory Replay_Scheduler
  imports Data_Log Fuzzy_Url
begin

text \<open>
  The replay scheduler (\<open>R4/clients/Replay/replayscheduler\<close>): it executes a recorded schedule, item
  after item, through the event action register. In strict mode an item must appear within a
  timeout; relaxation tokens in the schedule switch to modes in which missing items are put
  aside, matched approximately, or skipped. The theory models every function of the class; the
  lemmas show that its loop ends, that a strict replay executes the schedule in order, that
  the providers always follow the mode of the scheduler, and that it stops once.
\<close>

section \<open>State\<close>

datatype ReplaySchedulerState = RUNNING | TIMEOUT | FINISHED | ERROR

text \<open>
  \<open>s_schedule\<close> is reversed, as in the code: its last element is the next to execute. Of the timer
  the model keeps whether it is active and its interval; \<open>s_sigDone\<close> counts emitted signals.
\<close>

record 'd ReplayScheduler =
  s_schedule :: EventActionSchedule
  s_schedule_backlog :: EventActionSchedule
  s_networkMode :: ReplayMode
  s_timeProvider :: "'d TimeProviderReplay"
  s_randomProvider :: "'d RandomProviderReplay"
  s_mode :: ReplayMode
  s_state :: ReplaySchedulerState
  s_doneEmitted :: bool
  s_timerActive :: bool
  s_timerInterval :: int
  s_skipAfterNextTry :: bool
  s_timeout_miliseconds :: int
  s_timeout_aggressive_miliseconds :: int
  s_nextEventActionId :: int
  s_warnings :: warning_state
  s_sigDone :: nat

text \<open>
  What the scheduler takes from elsewhere: the string hash and the handler functions for the
  register, and \<open>QString::toULong\<close> and \<open>QUrl\<close> of Qt.
\<close>

record ('u, 'm) replay_env =
  e_hash :: string_hash
  e_run :: "'m handler_fun"
  e_toULong :: "string \<Rightarrow> nat"
  e_url :: "string \<Rightarrow> 'u"
  e_qurl :: "'u qurl"

definition new_ReplayScheduler :: "string \<Rightarrow> 'd TimeProviderReplay \<Rightarrow> 'd RandomProviderReplay \<Rightarrow> warning_state \<Rightarrow> int \<Rightarrow>
    'm world \<Rightarrow> ('d ReplayScheduler \<times> 'm world) result" where
  "new_ReplayScheduler scheduleFile timeProvider randomProvider ws schedulerTimeout w =
     (let (i, hb) = HBAllocateEventActionId (w_hb w) in
      bindR (schedule_deserialize scheduleFile) (\<lambda>sched.
        Inr (\<lparr>s_schedule = rev sched, s_schedule_backlog = [], s_networkMode = STRICT,
              s_timeProvider = timeProvider, s_randomProvider = randomProvider, s_mode = STRICT, s_state = RUNNING,
              s_doneEmitted = False, s_timerActive = False, s_timerInterval = schedulerTimeout,
              s_skipAfterNextTry = False, s_timeout_miliseconds = schedulerTimeout,
              s_timeout_aggressive_miliseconds = 500, s_nextEventActionId = i, s_warnings = ws, s_sigDone = 0\<rparr>,
             w\<lparr>w_hb := hb\<rparr>)))"

section \<open>Stopping\<close>

definition set_modes :: "ReplayMode \<Rightarrow> 'd ReplayScheduler \<Rightarrow> 'd ReplayScheduler" where
  "set_modes m s = s\<lparr>s_timeProvider := time_setMode m (s_timeProvider s),
     s_randomProvider := random_setMode m (s_randomProvider s), s_networkMode := m, s_mode := m\<rparr>"

definition stop :: "'d ReplayScheduler \<Rightarrow> 'd ReplayScheduler" where
  "stop s = (if s_doneEmitted s then s
     else (set_modes STOP (s\<lparr>s_doneEmitted := True\<rparr>))\<lparr>s_sigDone := s_sigDone s + 1\<rparr>)"

definition stop_state :: "ReplaySchedulerState \<Rightarrow> 'd ReplayScheduler \<Rightarrow> 'd ReplayScheduler" where
  "stop_state st s = (if s_doneEmitted s then s else stop (s\<lparr>s_state := st\<rparr>))"

definition report_waiting :: "string list \<Rightarrow> warning_state \<Rightarrow> warning_state" where
  "report_waiting names ws =
     fold (\<lambda>name. WarningCollectorReport ''WEBERA_SCHEDULER'' ''Non-executed event action.'' name) names ws"

definition stop_register :: "ReplaySchedulerState \<Rightarrow> EventActionRegister \<Rightarrow> 'd ReplayScheduler \<Rightarrow> 'd ReplayScheduler" where
  "stop_register st R s =
     (if s_doneEmitted s then s
      else stop (s\<lparr>s_state := st,
                   s_warnings := (if st = FINISHED then report_waiting (getWaitingNames R) (s_warnings s) else s_warnings s)\<rparr>))"

definition timeout :: "'d ReplayScheduler \<Rightarrow> 'd ReplayScheduler" where
  "timeout s = stop_state TIMEOUT
     (s\<lparr>s_warnings := WarningCollectorReport ''WEBERA_SCHEDULER'' ''Scheduler timed out.'' [] (s_warnings s)\<rparr>)"

definition isFinished :: "'d ReplayScheduler \<Rightarrow> bool" where
  "isFinished s = (s_schedule s = [])"

text \<open>The text of \<open>debugPrintTimers\<close>; the last element of an empty vector is undefined.\<close>

definition debugPrintTimers :: "'d ReplayScheduler \<Rightarrow> EventActionRegister \<Rightarrow> string result" where
  "debugPrintTimers s R =
     (if s_schedule s = [] then Inl UNDEFINED
      else Inr (''=========== TIMERS ==========='' @ [newline]
        @ ''RELAXED MODE: '' @ (if s_mode s = BEST_EFFORT then ''Yes'' else ''No'') @ [newline]
        @ ''NEXT -> '' @ fst (toString (snd (last (s_schedule s)))) @ [newline]
        @ ''QUEUE -> '' @ [newline] @ debugPrintNames R))"

definition slEventActionTimeout :: "EventActionRegister \<Rightarrow> 'd ReplayScheduler \<Rightarrow> 'd ReplayScheduler result" where
  "slEventActionTimeout R s =
     (if s_schedule s = [] then Inr s
      else (case s_mode s of
          STRICT \<Rightarrow> Inl (EXIT 1)
        | BEST_EFFORT_NOND \<Rightarrow>
            bindR (debugPrintTimers s R) (\<lambda>timers.
              Inr (stop_state ERROR (s\<lparr>s_warnings := WarningCollectorReport ''WEBERA_SCHEDULER''
                ''Could not replay schedule while in non-deterministic relax mode''
                (''Error: Failed execution schedule after waiting for '' @ int_dec (s_timeout_miliseconds s)
                  @ '' miliseconds...'' @ [newline] @ ''This is the current queue of events'' @ [newline] @ timers)
                (s_warnings s)\<rparr>)))
        | BEST_EFFORT \<Rightarrow> Inr (s\<lparr>s_skipAfterNextTry := True\<rparr>)
        | STOP \<Rightarrow> Inr s))"

section \<open>Executing one item\<close>

definition ulong_param :: "('u, 'm) replay_env \<Rightarrow> EventActionDescriptor \<Rightarrow> string list \<Rightarrow> nat \<Rightarrow> nat result" where
  "ulong_param E d types n =
     (if m_type d \<in> set types then bindR (getParameter d n) (\<lambda>p. Inr (e_toULong E p)) else Inr 0)"

text \<open>\<open>sequenceNumber1\<close> to \<open>sequenceNumber5\<close>; which parameters are read depends on the type.\<close>

definition sequence_numbers :: "('u, 'm) replay_env \<Rightarrow> EventActionDescriptor \<Rightarrow> (nat \<times> nat \<times> nat \<times> nat \<times> nat) result" where
  "sequence_numbers E d =
     bindR (ulong_param E d [''Network'', ''DOMTimer'', ''HTMLDocumentParser'', ''ScriptRunner''] 1) (\<lambda>n1.
     bindR (ulong_param E d [''Network'', ''DOMTimer'', ''ScriptRunner''] 2) (\<lambda>n2.
     bindR (ulong_param E d [''DOMTimer''] 3) (\<lambda>n3.
     bindR (ulong_param E d [''DOMTimer''] 4) (\<lambda>n4.
     bindR (ulong_param E d [''DOMTimer''] 5) (\<lambda>n5. Inr (n1, n2, n3, n4, n5))))))"

definition half_score :: "nat \<Rightarrow> nat \<Rightarrow> 32 word \<Rightarrow> 32 word" where
  "half_score sequenceNumber4 candidateSequenceNumber4 score =
     (if sequenceNumber4 \<noteq> 0
      then (let h = score div 2 in if sequenceNumber4 = candidateSequenceNumber4 then h + (- 1) div 2 else h)
      else score)"

text \<open>The score of one waiting name; \<open>None\<close> is a \<open>continue\<close>.\<close>

definition candidate_score :: "('u, 'm) replay_env \<Rightarrow> string \<Rightarrow> nat \<times> nat \<times> nat \<times> nat \<times> nat \<Rightarrow> 'u \<Rightarrow> string \<Rightarrow>
    (32 word \<times> EventActionDescriptor) option result" where
  "candidate_score E ty wanted url name =
     bindR (deserialize name) (\<lambda>candidate.
       if m_type candidate \<noteq> ty then Inr None
       else bindR (sequence_numbers E candidate) (\<lambda>found.
         case wanted of (n1, n2, n3, n4, n5) \<Rightarrow>
         case found of (c1, c2, c3, c4, c5) \<Rightarrow>
           if c1 \<noteq> n1 \<or> c2 \<noteq> n2 \<or> c3 \<noteq> n3 \<or> c5 \<noteq> n5 then Inr None
           else bindR (getParameter candidate 0) (\<lambda>p.
                bindR (url_score (e_qurl E) url (e_url E p)) (\<lambda>score.
                  Inr (Some (half_score n4 c4 score, candidate))))))"

fun fuzzy_loop :: "('u, 'm) replay_env \<Rightarrow> string \<Rightarrow> nat \<times> nat \<times> nat \<times> nat \<times> nat \<Rightarrow> 'u \<Rightarrow> string list \<Rightarrow>
    32 word \<times> EventActionDescriptor \<Rightarrow> (32 word \<times> EventActionDescriptor) result" where
  "fuzzy_loop E ty wanted url [] best = Inr best"
| "fuzzy_loop E ty wanted url (name # names) best =
     bindR (candidate_score E ty wanted url name) (\<lambda>c.
       fuzzy_loop E ty wanted url names
         (case c of None \<Rightarrow> best | Some (score, d) \<Rightarrow> if score > fst best then (score, d) else best))"

definition fuzzy_types :: "string list" where
  "fuzzy_types = [''Network'', ''HTMLDocumentParser'', ''DOMTimer'', ''BrowserLoadUrl'', ''ScriptRunner'']"

definition set_descriptor_strings :: "string \<Rightarrow> 'd ReplayScheduler \<Rightarrow> 'd ReplayScheduler" where
  "set_descriptor_strings t s = s\<lparr>s_timeProvider := time_setCurrentDescriptorString t (s_timeProvider s),
     s_randomProvider := random_setCurrentDescriptorString t (s_randomProvider s)\<rparr>"

definition unset_descriptor_strings :: "'d ReplayScheduler \<Rightarrow> 'd ReplayScheduler" where
  "unset_descriptor_strings s = s\<lparr>s_timeProvider := time_unsetCurrentDescriptorString (s_timeProvider s),
     s_randomProvider := random_unsetCurrentDescriptorString (s_randomProvider s)\<rparr>"

text \<open>The relaxed execution of \<open>tryExecuteEventActionDescriptor\<close>, for the types it applies to.\<close>

definition try_fuzzy :: "('u, 'm) replay_env \<Rightarrow> int \<Rightarrow> EventActionDescriptor \<Rightarrow> 'd ReplayScheduler \<Rightarrow> 'm world \<Rightarrow>
    (bool \<times> 'd ReplayScheduler \<times> 'm world) result" where
  "try_fuzzy E nextToScheduleId nextToSchedule s w =
     (if m_type nextToSchedule \<notin> set fuzzy_types then Inr (False, s, w)
      else bindR (getParameter nextToSchedule 0) (\<lambda>url.
           bindR (sequence_numbers E nextToSchedule) (\<lambda>wanted.
           bindR (fuzzy_loop E (m_type nextToSchedule) wanted (e_url E url) (getWaitingNames (w_reg w)) (0, null_descriptor))
             (\<lambda>(bestScore, bestDescriptor).
             if bestScore > 0 then
               bindR (debugPrintTimers s (w_reg w)) (\<lambda>timers.
                 let details = fst (toString nextToSchedule) @ '' (expected) fuzzy matched with ''
                       @ fst (toString bestDescriptor) @ '' (score '' @ nat_dec (unat bestScore) @ '')''
                       @ ''This is the current queue of events'' @ [newline] @ timers;
                     s1 = s\<lparr>s_warnings := WarningCollectorReport ''WEBERA_SCHEDULER''
                       ''Event action fuzzy matched in best effort mode.'' details (s_warnings s)\<rparr>;
                     s2 = set_descriptor_strings (fst (toUnpatchedString bestDescriptor)) s1
                 in bindR (runEventAction (e_hash E) (e_run E) (s_nextEventActionId s2) nextToScheduleId bestDescriptor w)
                      (\<lambda>(found, w'). Inr (found, unset_descriptor_strings s2, w')))
             else Inr (False, s, w)))))"

text \<open>
  The descriptor of the item is patched in place the first time it is tried: the id of the parent
  of a timer is translated from the recorded execution to this one.
\<close>

definition patch_item :: "EventActionDescriptor \<Rightarrow> EventActionRegister \<Rightarrow> EventActionDescriptor result" where
  "patch_item d R =
     (if m_type d = ''DOMTimer'' \<and> \<not> m_patched d
      then bindR (getParameter d 4) (\<lambda>oldId.
             patchParameter d 4 (int_dec (translateOldIdToNew (atoi oldId) R)))
      else Inr d)"

text \<open>The result holds the item with its patched descriptor, which the caller keeps.\<close>

definition tryExecuteEventActionDescriptor :: "('u, 'm) replay_env \<Rightarrow> EventActionScheduleItem \<Rightarrow> 'd ReplayScheduler \<Rightarrow> 'm world \<Rightarrow>
    (bool \<times> EventActionScheduleItem \<times> 'd ReplayScheduler \<times> 'm world) result" where
  "tryExecuteEventActionDescriptor E item s w =
     (case item of (nextToScheduleId, d) \<Rightarrow>
      if m_isNull d then
        (if s_mode s = STRICT then Inr (True, item, set_modes BEST_EFFORT_NOND s, w)
         else Inr (True, item, (set_modes BEST_EFFORT s)\<lparr>s_timerInterval := s_timeout_aggressive_miliseconds s\<rparr>, w))
      else
        (let s1 = s\<lparr>s_warnings := WarningCollectorSetCurrentEventAction (s_nextEventActionId s) (s_warnings s)\<rparr> in
         bindR (patch_item d (w_reg w)) (\<lambda>d1.
         let s2 = set_descriptor_strings (fst (toUnpatchedString d1)) s1 in
         bindR (runEventAction (e_hash E) (e_run E) (s_nextEventActionId s2) nextToScheduleId d1 w) (\<lambda>(found, w1).
         let s3 = unset_descriptor_strings s2 in
         bindR (if \<not> found \<and> s_skipAfterNextTry s3 \<and> s_mode s3 = BEST_EFFORT
                then try_fuzzy E nextToScheduleId d1 s3 w1 else Inr (found, s3, w1)) (\<lambda>(found, s4, w2).
           if found
           then (let (i, hb) = HBAllocateEventActionId (w_hb w2)
                 in Inr (True, (nextToScheduleId, d1), s4\<lparr>s_nextEventActionId := i\<rparr>, w2\<lparr>w_hb := hb\<rparr>))
           else Inr (False, (nextToScheduleId, d1), s4, w2))))))"

section \<open>The loop\<close>

definition set_strict :: "bool \<Rightarrow> 'm world \<Rightarrow> 'm world" where
  "set_strict b w = w\<lparr>w_hb := (w_hb w)\<lparr>hb_log := ActionLogStrictMode b (hb_log (w_hb w))\<rparr>\<rparr>"

text \<open>The loop over the items put aside: the first that can be executed is removed.\<close>

fun backlog_loop :: "('u, 'm) replay_env \<Rightarrow> EventActionSchedule \<Rightarrow> EventActionSchedule \<Rightarrow> 'd ReplayScheduler \<Rightarrow> 'm world \<Rightarrow>
    (bool \<times> 'd ReplayScheduler \<times> 'm world) result" where
  "backlog_loop E tried [] s w = Inr (False, s\<lparr>s_schedule_backlog := tried\<rparr>, w)"
| "backlog_loop E tried (item # items) s w =
     bindR (tryExecuteEventActionDescriptor E item s (set_strict False w)) (\<lambda>(success, item', s', w').
       if success
       then Inr (True, s'\<lparr>s_schedule_backlog := tried @ items,
                          s_warnings := WarningCollectorReport ''WEBERA_SCHEDULER''
                            ''Event action executed from pending schedule.'' [] (s_warnings s')\<rparr>, set_strict True w')
       else backlog_loop E (tried @ [item']) items s' (set_strict True w'))"

definition start_timer :: "('u, 'm) replay_env \<Rightarrow> 'd ReplayScheduler \<Rightarrow> 'd ReplayScheduler result" where
  "start_timer E s =
     (if s_timerActive s then Inr s
      else (let d = snd (last (s_schedule s)) in
        bindR (if m_type d = ''DOMTimer''
               then bindR (getParameter d 2) (\<lambda>p. Inr (int (e_toULong E p) + s_timeout_aggressive_miliseconds s))
               else Inr (if s_mode s = BEST_EFFORT then s_timeout_aggressive_miliseconds s else s_timeout_miliseconds s))
          (\<lambda>interval. Inr (s\<lparr>s_timerInterval := interval, s_timerActive := True\<rparr>))))"

definition executeDelayedEventAction :: "('u, 'm) replay_env \<Rightarrow> 'd ReplayScheduler \<Rightarrow> 'm world \<Rightarrow>
    (bool \<times> 'd ReplayScheduler \<times> 'm world) result" where
  "executeDelayedEventAction E s w =
     (if s_schedule s = [] \<or> s_mode s = STOP then Inr (False, stop_register FINISHED (w_reg w) s, w)
      else bindR (backlog_loop E [] (s_schedule_backlog s) s w) (\<lambda>(success, s1, w1).
        if success then Inr (True, s1, w1)
        else bindR (tryExecuteEventActionDescriptor E (last (s_schedule s1)) s1 w1) (\<lambda>(success, item', s2, w2).
          let s3 = s2\<lparr>s_schedule := butlast (s_schedule s2) @ [item']\<rparr> in
          if success
          then Inr (True, s3\<lparr>s_schedule := butlast (s_schedule s3), s_skipAfterNextTry := False, s_timerActive := False\<rparr>, w2)
          else if s_skipAfterNextTry s3
          then bindR (debugPrintTimers s3 (w_reg w2)) (\<lambda>timers.
                 Inr (True, s3\<lparr>s_warnings := WarningCollectorReport ''WEBERA_SCHEDULER'' ''Event action skipped after timeout.''
                                 (''This is the current queue of events'' @ [newline] @ timers) (s_warnings s3),
                               s_schedule_backlog := s_schedule_backlog s3 @ [last (s_schedule s3)],
                               s_schedule := butlast (s_schedule s3)\<rparr>, w2))
          else bindR (start_timer E s3) (\<lambda>s4. Inr (False, s4, w2)))))"

subsection \<open>The loop ends\<close>

text \<open>The part of the scheduler that executing an item leaves alone.\<close>

definition same_items :: "'d ReplayScheduler \<Rightarrow> 'd ReplayScheduler \<Rightarrow> bool" where
  "same_items s s' = (s_schedule s' = s_schedule s \<and> s_schedule_backlog s' = s_schedule_backlog s
     \<and> s_skipAfterNextTry s' = s_skipAfterNextTry s \<and> s_doneEmitted s' = s_doneEmitted s \<and> s_sigDone s' = s_sigDone s
     \<and> s_state s' = s_state s)"

lemma same_items_refl [simp]: "same_items s s"
  by (simp add: same_items_def)

lemma same_items_trans: "same_items a b \<Longrightarrow> same_items b c \<Longrightarrow> same_items a c"
  by (simp add: same_items_def)

lemma same_items_setters [simp]:
  "same_items s (set_descriptor_strings t s') = same_items s s'" "same_items s (unset_descriptor_strings s') = same_items s s'"
  "same_items s (set_modes m s') = same_items s s'" "same_items s (s'\<lparr>s_warnings := ws\<rparr>) = same_items s s'"
  "same_items s (s'\<lparr>s_nextEventActionId := i\<rparr>) = same_items s s'" "same_items s (s'\<lparr>s_timerInterval := t'\<rparr>) = same_items s s'"
  by (simp_all add: same_items_def set_descriptor_strings_def unset_descriptor_strings_def set_modes_def)

lemma try_fuzzy_items: "try_fuzzy E k d s w = Inr (b, s', w') \<Longrightarrow> same_items s s'"
  by (auto simp: try_fuzzy_def Let_def split: if_splits)

text \<open>The scheduler after the exact execution: its warnings are filed under the new id.\<close>

definition after_exact :: "EventActionDescriptor \<Rightarrow> 'd ReplayScheduler \<Rightarrow> 'd ReplayScheduler" where
  "after_exact d1 s = unset_descriptor_strings (set_descriptor_strings (fst (toUnpatchedString d1))
     (s\<lparr>s_warnings := WarningCollectorSetCurrentEventAction (s_nextEventActionId s) (s_warnings s)\<rparr>))"

lemma after_exact_fields [simp]:
  "s_nextEventActionId (after_exact d s) = s_nextEventActionId s" "s_mode (after_exact d s) = s_mode s"
  "s_skipAfterNextTry (after_exact d s) = s_skipAfterNextTry s" "same_items s (after_exact d s)"
  by (simp_all add: after_exact_def set_descriptor_strings_def unset_descriptor_strings_def same_items_def)

lemma set_strings_next [simp]: "s_nextEventActionId (set_descriptor_strings t s) = s_nextEventActionId s"
  by (simp add: set_descriptor_strings_def)

lemma tryExecute_eq:
  assumes "\<not> m_isNull d"
  shows "tryExecuteEventActionDescriptor E (k, d) s w =
     bindR (patch_item d (w_reg w)) (\<lambda>d1.
     bindR (runEventAction (e_hash E) (e_run E) (s_nextEventActionId s) k d1 w) (\<lambda>(found, w1).
     bindR (if \<not> found \<and> s_skipAfterNextTry s \<and> s_mode s = BEST_EFFORT
            then try_fuzzy E k d1 (after_exact d1 s) w1 else Inr (found, after_exact d1 s, w1)) (\<lambda>(b, s4, w2).
       Inr (b, (k, d1), if b then s4\<lparr>s_nextEventActionId := hb_nextEventActionId (w_hb w2)\<rparr> else s4,
            if b then w2\<lparr>w_hb := snd (HBAllocateEventActionId (w_hb w2))\<rparr> else w2))))"
proof -
  have tail: "(\<lambda>(found, s4, w2). if found
        then (let (i, hb) = HBAllocateEventActionId (w_hb w2)
              in Inr (True, (k, d1), s4\<lparr>s_nextEventActionId := i\<rparr>, w2\<lparr>w_hb := hb\<rparr>))
        else Inr (False, (k, d1), s4, w2)) =
     (\<lambda>(b, s4, w2). Inr (b, (k, d1), if b then s4\<lparr>s_nextEventActionId := hb_nextEventActionId (w_hb w2)\<rparr> else s4,
            if b then w2\<lparr>w_hb := snd (HBAllocateEventActionId (w_hb w2))\<rparr> else w2))"
    for d1 by (auto simp: fun_eq_iff HBAllocateEventActionId_def allocateEventActionId_def)
  have fields: "s_skipAfterNextTry (unset_descriptor_strings (set_descriptor_strings t (s\<lparr>s_warnings := ws\<rparr>))) = s_skipAfterNextTry s"
    "s_mode (unset_descriptor_strings (set_descriptor_strings t (s\<lparr>s_warnings := ws\<rparr>))) = s_mode s"
    "s_nextEventActionId (set_descriptor_strings t (s\<lparr>s_warnings := ws\<rparr>)) = s_nextEventActionId s" for t ws
    by (simp_all add: unset_descriptor_strings_def set_descriptor_strings_def)
  show ?thesis
    unfolding tryExecuteEventActionDescriptor_def tail prod.case if_not_P [OF assms] after_exact_def
    unfolding Let_def fields ..
qed

text \<open>What a successful or failed attempt consists of.\<close>

lemma tryExecuteE:
  assumes "tryExecuteEventActionDescriptor E (k, d) s w = Inr (b, item', s', w')" "\<not> m_isNull d"
  obtains d1 found w1 s4 w2 where "patch_item d (w_reg w) = Inr d1"
    "runEventAction (e_hash E) (e_run E) (s_nextEventActionId s) k d1 w = Inr (found, w1)"
    "(if \<not> found \<and> s_skipAfterNextTry s \<and> s_mode s = BEST_EFFORT
      then try_fuzzy E k d1 (after_exact d1 s) w1 else Inr (found, after_exact d1 s, w1)) = Inr (b, s4, w2)"
    "item' = (k, d1)"
    "s' = (if b then s4\<lparr>s_nextEventActionId := hb_nextEventActionId (w_hb w2)\<rparr> else s4)"
    "w' = (if b then w2\<lparr>w_hb := snd (HBAllocateEventActionId (w_hb w2))\<rparr> else w2)"
  using assms by (auto simp: tryExecute_eq intro: that split: prod.splits)

lemma try_items:
  assumes "tryExecuteEventActionDescriptor E item s w = Inr (b, item', s', w')"
  shows "same_items s s'"
proof -
  obtain k d where item: "item = (k, d)" by fastforce
  show ?thesis
  proof (cases "m_isNull d")
    case True
    then show ?thesis using assms item by (auto simp: tryExecuteEventActionDescriptor_def split: if_splits)
  next
    case False
    from assms item obtain d1 found w1 s4 w2 where
      s4: "(if \<not> found \<and> s_skipAfterNextTry s \<and> s_mode s = BEST_EFFORT
      then try_fuzzy E k d1 (after_exact d1 s) w1 else Inr (found, after_exact d1 s, w1)) = Inr (b, s4, w2)"
      and s': "s' = (if b then s4\<lparr>s_nextEventActionId := hb_nextEventActionId (w_hb w2)\<rparr> else s4)"
      by (auto elim: tryExecuteE [OF _ False])
    from s4 have "same_items s s4"
      by (auto split: if_splits dest!: try_fuzzy_items intro: same_items_trans [OF after_exact_fields(4)])
    with s' show ?thesis by simp
  qed
qed

definition work_left :: "'d ReplayScheduler \<Rightarrow> nat" where
  "work_left s = 2 * length (s_schedule s) + length (s_schedule_backlog s)"

lemma backlog_loop_items:
  "backlog_loop E tried items s w = Inr (b, s', w') \<Longrightarrow>
     s_schedule s' = s_schedule s \<and> s_skipAfterNextTry s' = s_skipAfterNextTry s
     \<and> length (s_schedule_backlog s') + (if b then 1 else 0) = length tried + length items"
proof (induction items arbitrary: tried s w)
  case (Cons item items)
  then obtain success item' s1 w1 where s1:
    "tryExecuteEventActionDescriptor E item s (set_strict False w) = Inr (success, item', s1, w1)" by auto
  note same = try_items [OF s1]
  show ?case
  proof (cases success)
    case True
    then show ?thesis using Cons.prems s1 same by (auto simp: same_items_def)
  next
    case False
    then have "backlog_loop E (tried @ [item']) items s1 (set_strict True w1) = Inr (b, s', w')"
      using Cons.prems s1 by simp
    from Cons.IH [OF this] same show ?thesis by (auto simp: same_items_def)
  qed
qed auto

lemma executeDelayed_work:
  assumes "executeDelayedEventAction E s w = Inr (True, s', w')"
  shows "work_left s' < work_left s"
proof -
  from assms have ne: "s_schedule s \<noteq> []" "s_mode s \<noteq> STOP" by (auto simp: executeDelayedEventAction_def split: if_splits)
  with assms obtain b s1 w1 where bl: "backlog_loop E [] (s_schedule_backlog s) s w = Inr (b, s1, w1)"
    by (auto simp: executeDelayedEventAction_def)
  note items = backlog_loop_items [OF bl]
  show ?thesis
  proof (cases b)
    case True
    then show ?thesis using assms ne bl items by (auto simp: executeDelayedEventAction_def work_left_def)
  next
    case False
    then obtain success item' s2 w2 where s2:
      "tryExecuteEventActionDescriptor E (last (s_schedule s1)) s1 w1 = Inr (success, item', s2, w2)"
      using assms ne bl by (auto simp: executeDelayedEventAction_def)
    have "s_schedule s2 = s_schedule s" "length (s_schedule_backlog s2) = length (s_schedule_backlog s)"
      using try_items [OF s2] items False by (auto simp: same_items_def)
    moreover obtain n where "length (s_schedule s) = Suc n" using ne by (cases "s_schedule s") auto
    ultimately show ?thesis
      using assms ne bl False s2
      by (auto simp: executeDelayedEventAction_def work_left_def Let_def split: if_splits)
  qed
qed

text \<open>
  \<open>while (executeDelayedEventAction(...)) continue;\<close>, the body of both \<open>eventActionScheduled\<close> and
  \<open>executeDelayedEventActions\<close>. Every round that returns true shortens the schedule or the list of items
  put aside, or moves an item from the first to the second, so the loop ends.
\<close>

function execute_loop :: "('u, 'm) replay_env \<Rightarrow> 'd ReplayScheduler \<Rightarrow> 'm world \<Rightarrow> ('d ReplayScheduler \<times> 'm world) result" where
  "execute_loop E s w =
     (case executeDelayedEventAction E s w of
        Inl e \<Rightarrow> Inl e
      | Inr (True, s', w') \<Rightarrow> execute_loop E s' w'
      | Inr (False, s', w') \<Rightarrow> Inr (s', w'))"
  by pat_completeness auto
termination
  by (relation "measure (\<lambda>(E, s, w). work_left s)") (auto dest: executeDelayed_work)

declare execute_loop.simps [simp del]

definition eventActionScheduled :: "('u, 'm) replay_env \<Rightarrow> EventActionDescriptor \<Rightarrow> 'd ReplayScheduler \<Rightarrow> 'm world \<Rightarrow>
    ('d ReplayScheduler \<times> 'm world) result" where
  "eventActionScheduled E descriptor s w = execute_loop E s w"

definition eventActionDescheduled :: "EventActionDescriptor \<Rightarrow> 'd ReplayScheduler \<Rightarrow> 'd ReplayScheduler" where
  "eventActionDescheduled descriptor s = s"

definition executeDelayedEventActions :: "('u, 'm) replay_env \<Rightarrow> 'd ReplayScheduler \<Rightarrow> 'm world \<Rightarrow> ('d ReplayScheduler \<times> 'm world) result" where
  "executeDelayedEventActions E s w = execute_loop E s w"

section \<open>The providers follow the mode\<close>

definition mode_inv :: "'d ReplayScheduler \<Rightarrow> bool" where
  "mode_inv s = (t_mode (s_timeProvider s) = s_mode s \<and> r_mode (s_randomProvider s) = s_mode s
     \<and> s_networkMode s = s_mode s \<and> (s_doneEmitted s \<longleftrightarrow> s_mode s = STOP)
     \<and> s_sigDone s = (if s_doneEmitted s then 1 else 0))"

fun mode_rank :: "ReplayMode \<Rightarrow> nat" where
  "mode_rank STRICT = 0"
| "mode_rank BEST_EFFORT_NOND = 1"
| "mode_rank BEST_EFFORT = 2"
| "mode_rank STOP = 3"

definition mode_step :: "'d ReplayScheduler \<Rightarrow> 'd ReplayScheduler \<Rightarrow> bool" where
  "mode_step s s' = (mode_inv s' \<and> mode_rank (s_mode s) \<le> mode_rank (s_mode s'))"

lemma mode_step_refl: "mode_inv s \<Longrightarrow> mode_step s s"
  by (simp add: mode_step_def)

lemma mode_step_trans: "mode_step a b \<Longrightarrow> mode_step b c \<Longrightarrow> mode_step a c"
  by (simp add: mode_step_def)

lemma mode_inv_fields [simp]:
  "mode_inv (set_descriptor_strings t s) = mode_inv s" "mode_inv (unset_descriptor_strings s) = mode_inv s"
  "mode_inv (s\<lparr>s_warnings := ws\<rparr>) = mode_inv s" "mode_inv (s\<lparr>s_nextEventActionId := i\<rparr>) = mode_inv s"
  "mode_inv (s\<lparr>s_timerInterval := n\<rparr>) = mode_inv s" "mode_inv (s\<lparr>s_schedule := sc\<rparr>) = mode_inv s"
  "mode_inv (s\<lparr>s_schedule_backlog := sc\<rparr>) = mode_inv s" "mode_inv (s\<lparr>s_skipAfterNextTry := b\<rparr>) = mode_inv s"
  "mode_inv (s\<lparr>s_timerActive := b\<rparr>) = mode_inv s" "mode_inv (after_exact d s) = mode_inv s" "mode_inv (s\<lparr>s_state := st\<rparr>) = mode_inv s"
  by (simp_all add: mode_inv_def set_descriptor_strings_def unset_descriptor_strings_def after_exact_def
      time_setCurrentDescriptorString_def time_unsetCurrentDescriptorString_def
      random_setCurrentDescriptorString_def random_unsetCurrentDescriptorString_def)

lemma mode_fields [simp]:
  "s_mode (set_descriptor_strings t s) = s_mode s" "s_mode (unset_descriptor_strings s) = s_mode s"
  by (simp_all add: set_descriptor_strings_def unset_descriptor_strings_def)

lemma stop_mode: "mode_inv s \<Longrightarrow> mode_step s (stop s)"
proof -
  have "mode_rank m \<le> 3" for m by (cases m) simp_all
  then show "mode_inv s \<Longrightarrow> ?thesis"
    by (simp add: stop_def mode_step_def mode_inv_def set_modes_def time_setMode_def random_setMode_def)
qed

lemma stops_mode:
  "mode_inv s \<Longrightarrow> mode_step s (stop_state st s)" "mode_inv s \<Longrightarrow> mode_step s (stop_register st R s)"
  "mode_inv s \<Longrightarrow> mode_step s (timeout s)"
  using stop_mode [of "s\<lparr>s_state := st\<rparr>"] stop_mode [of "s\<lparr>s_state := st, s_warnings := ws\<rparr>" for ws]
    stop_mode [of "s\<lparr>s_warnings := ws, s_state := TIMEOUT\<rparr>" for ws]
  by (auto simp: stop_state_def stop_register_def timeout_def mode_step_def)

lemma try_fuzzy_mode: "try_fuzzy E k d s w = Inr (b, s', w') \<Longrightarrow> mode_inv s \<Longrightarrow> mode_inv s' \<and> s_mode s' = s_mode s"
  by (auto simp: try_fuzzy_def Let_def split: if_splits)

lemma try_mode:
  assumes "tryExecuteEventActionDescriptor E item s w = Inr (b, item', s', w')" "mode_inv s" "s_mode s \<noteq> STOP"
  shows "mode_step s s' \<and> s_mode s' \<noteq> STOP"
proof -
  obtain k d where item: "item = (k, d)" by fastforce
  show ?thesis
  proof (cases "m_isNull d")
    case True
    have "s' = set_modes BEST_EFFORT_NOND s \<and> s_mode s = STRICT
        \<or> (\<exists>n. s' = (set_modes BEST_EFFORT s)\<lparr>s_timerInterval := n\<rparr>)"
      using assms(1) item True by (auto simp: tryExecuteEventActionDescriptor_def split: if_splits)
    then show ?thesis
      using assms(2,3)
      by (cases "s_mode s") (auto simp: mode_step_def mode_inv_def set_modes_def time_setMode_def random_setMode_def)
  next
    case False
    from assms(1) item obtain d1 found w1 s4 w2 where
      s4: "(if \<not> found \<and> s_skipAfterNextTry s \<and> s_mode s = BEST_EFFORT
      then try_fuzzy E k d1 (after_exact d1 s) w1 else Inr (found, after_exact d1 s, w1)) = Inr (b, s4, w2)"
      and s': "s' = (if b then s4\<lparr>s_nextEventActionId := hb_nextEventActionId (w_hb w2)\<rparr> else s4)"
      by (auto elim: tryExecuteE [OF _ False])
    from s4 have "mode_inv s4 \<and> s_mode s4 = s_mode s"
      using assms(2) by (auto split: if_splits dest!: try_fuzzy_mode)
    with s' assms(3) show ?thesis by (auto simp: mode_step_def)
  qed
qed

lemma backlog_mode:
  "backlog_loop E tried items s w = Inr (b, s', w') \<Longrightarrow> mode_inv s \<Longrightarrow> s_mode s \<noteq> STOP \<Longrightarrow> mode_step s s' \<and> s_mode s' \<noteq> STOP"
proof (induction items arbitrary: tried s w)
  case Nil
  then show ?case by (auto simp: mode_step_def)
next
  case (Cons item items)
  then obtain success item' s1 w1 where s1:
    "tryExecuteEventActionDescriptor E item s (set_strict False w) = Inr (success, item', s1, w1)" by auto
  note m = try_mode [OF s1 Cons.prems(2,3)]
  show ?case
  proof (cases success)
    case True
    then show ?thesis using Cons.prems s1 m by (auto simp: mode_step_def)
  next
    case False
    then have "backlog_loop E (tried @ [item']) items s1 (set_strict True w1) = Inr (b, s', w')"
      using Cons.prems s1 by simp
    from Cons.IH [OF this] m show ?thesis by (auto simp: mode_step_def)
  qed
qed

lemma start_timer_mode: "start_timer E s = Inr s' \<Longrightarrow> mode_inv s \<Longrightarrow> mode_inv s' \<and> s_mode s' = s_mode s"
  by (auto simp: start_timer_def Let_def split: if_splits)

lemma executeDelayed_mode:
  assumes "executeDelayedEventAction E s w = Inr (b, s', w')" "mode_inv s"
  shows "mode_step s s'"
proof (cases "s_schedule s = [] \<or> s_mode s = STOP")
  case True
  then show ?thesis using assms stops_mode(2) by (auto simp: executeDelayedEventAction_def)
next
  case False
  with assms obtain b1 s1 w1 where bl: "backlog_loop E [] (s_schedule_backlog s) s w = Inr (b1, s1, w1)"
    by (auto simp: executeDelayedEventAction_def)
  have m1: "mode_step s s1" "s_mode s1 \<noteq> STOP" using backlog_mode [OF bl assms(2)] False by auto
  show ?thesis
  proof (cases b1)
    case True
    then show ?thesis using assms False bl m1 by (auto simp: executeDelayedEventAction_def)
  next
    case b1: False
    then obtain success item' s2 w2 where s2:
      "tryExecuteEventActionDescriptor E (last (s_schedule s1)) s1 w1 = Inr (success, item', s2, w2)"
      using assms False bl by (auto simp: executeDelayedEventAction_def)
    have "mode_step s s2" using try_mode [OF s2] m1 mode_step_trans by (auto simp: mode_step_def)
    then show ?thesis
      using assms(1) False bl b1 s2
      by (auto simp: executeDelayedEventAction_def mode_step_def Let_def split: if_splits dest!: start_timer_mode)
  qed
qed

lemma execute_loop_mode: "mode_inv s \<Longrightarrow> execute_loop E s w = Inr (s', w') \<Longrightarrow> mode_step s s'"
proof (induction E s w rule: execute_loop.induct)
  case (1 E s w)
  then obtain b s1 w1 where s1: "executeDelayedEventAction E s w = Inr (b, s1, w1)"
    by (subst (asm) (2) execute_loop.simps) (auto split: sum.splits)
  have m: "mode_step s s1" by (rule executeDelayed_mode [OF s1 "1.prems"(1)])
  show ?case
  proof (cases b)
    case True
    then have "execute_loop E s1 w1 = Inr (s', w')" using "1.prems"(2) s1 by (simp add: execute_loop.simps [of E s w])
    with "1.IH" [of "(b, s1, w1)" b "(s1, w1)" s1 w1] s1 True m show ?thesis
      by (auto simp: mode_step_def)
  next
    case False
    then show ?thesis using "1.prems"(2) s1 m by (simp add: execute_loop.simps [of E s w])
  qed
qed

section \<open>Sequences of calls\<close>

text \<open>
  What happens to a scheduler during a replay: ticks of the event loop, notifications about new
  event actions, the two timeouts, and, in between, handlers being registered and removed and
  reports being made outside of event actions.
\<close>

datatype 'm replay_call = RC_tick | RC_scheduled EventActionDescriptor | RC_slTimeout | RC_timeout | RC_op "'m world_op"

fun replay_step :: "('u, 'm) replay_env \<Rightarrow> 'm replay_call \<Rightarrow> 'd ReplayScheduler \<times> 'm world \<Rightarrow> ('d ReplayScheduler \<times> 'm world) result" where
  "replay_step E RC_tick (s, w) = executeDelayedEventActions E s w"
| "replay_step E (RC_scheduled d) (s, w) = eventActionScheduled E d s w"
| "replay_step E RC_slTimeout (s, w) = bindR (slEventActionTimeout (w_reg w) s) (\<lambda>s'. Inr (s', w))"
| "replay_step E RC_timeout (s, w) = Inr (timeout s, w)"
| "replay_step E (RC_op p) (s, w) = bindR (exec_op (e_hash E) p w) (\<lambda>w'. Inr (s, w'))"

fun replay_calls :: "('u, 'm) replay_env \<Rightarrow> 'm replay_call list \<Rightarrow> 'd ReplayScheduler \<times> 'm world \<Rightarrow> ('d ReplayScheduler \<times> 'm world) result" where
  "replay_calls E [] sw = Inr sw"
| "replay_calls E (c # cs) sw = bindR (replay_step E c sw) (replay_calls E cs)"

lemma slTimeout_mode: "slEventActionTimeout R s = Inr s' \<Longrightarrow> mode_inv s \<Longrightarrow> mode_step s s'"
  using stops_mode(1) [of "s\<lparr>s_warnings := ws\<rparr>" ERROR for ws]
  by (auto simp: slEventActionTimeout_def mode_step_def split: if_splits ReplayMode.splits)

lemma replay_step_mode: "replay_step E c (s, w) = Inr (s', w') \<Longrightarrow> mode_inv s \<Longrightarrow> mode_step s s'"
  by (cases c) (auto simp: executeDelayedEventActions_def eventActionScheduled_def mode_step_refl
      dest: execute_loop_mode slTimeout_mode stops_mode(3))

lemma replay_calls_mode: "replay_calls E cs (s, w) = Inr (s', w') \<Longrightarrow> mode_inv s \<Longrightarrow> mode_step s s'"
proof (induction cs arbitrary: s w)
  case (Cons c cs)
  then obtain s1 w1 where s1: "replay_step E c (s, w) = Inr (s1, w1)" "replay_calls E cs (s1, w1) = Inr (s', w')"
    by auto
  have m: "mode_step s s1" by (rule replay_step_mode [OF s1(1) Cons.prems(2)])
  then have "mode_step s1 s'" using Cons.IH [OF s1(2)] by (simp add: mode_step_def)
  with m show ?case by (rule mode_step_trans)
qed (simp add: mode_step_refl)

text \<open>
  C7: during a replay, whatever happens, the time, random and network providers are in the mode of
  the scheduler; the mode only ever moves on, from strict over relaxed non-determinism and
  best effort to stopped; and the end of the replay is signalled at most once, exactly when
  the scheduler has stopped.
\<close>

theorem replay_modes_agree:
  assumes "new_ReplayScheduler file tp rp ws to w = Inr (s, w0)" "t_mode tp = STRICT" "r_mode rp = STRICT"
    and "replay_calls E (cs @ ds) (s, w0) = Inr (s2, w2)"
  shows "\<exists>s1 w1. replay_calls E cs (s, w0) = Inr (s1, w1) \<and> replay_calls E ds (s1, w1) = Inr (s2, w2)
     \<and> mode_rank (s_mode s1) \<le> mode_rank (s_mode s2)
     \<and> t_mode (s_timeProvider s2) = s_mode s2 \<and> r_mode (s_randomProvider s2) = s_mode s2 \<and> s_networkMode s2 = s_mode s2
     \<and> s_sigDone s2 = (if s_mode s2 = STOP then 1 else 0)"
proof -
  have split: "replay_calls E (cs @ ds) sw = bindR (replay_calls E cs sw) (replay_calls E ds)" for sw
    by (induction cs arbitrary: sw) (auto simp: bindR_assoc intro!: bindR_same)
  obtain s1 w1 where s1: "replay_calls E cs (s, w0) = Inr (s1, w1)" "replay_calls E ds (s1, w1) = Inr (s2, w2)"
    using assms(4) by (auto simp: split)
  have "mode_inv s" using assms(1-3) by (auto simp: new_ReplayScheduler_def mode_inv_def Let_def split: prod.splits)
  then have "mode_step s s1" by (rule replay_calls_mode [OF s1(1)])
  then have "mode_step s1 s2" using replay_calls_mode [OF s1(2)] by (simp add: mode_step_def)
  then show ?thesis using s1 by (auto simp: mode_step_def mode_inv_def)
qed

section \<open>A replay follows the schedule\<close>

text \<open>The text under which an item was recorded: patching does not change it.\<close>

definition item_text :: "EventActionDescriptor \<Rightarrow> string" where
  "item_text d = fst (toUnpatchedString d)"

definition same_item :: "EventActionScheduleItem \<Rightarrow> EventActionScheduleItem \<Rightarrow> bool" where
  "same_item a b = (fst a = fst b \<and> item_text (snd a) = item_text (snd b) \<and> m_isNull (snd a) = m_isNull (snd b)
     \<and> cache_ok (snd a))"

lemma item_text_toString [simp]: "cache_ok d \<Longrightarrow> item_text (snd (toString d)) = item_text d"
  by (auto simp: item_text_def toUnpatchedString_def toString_render)
    (simp add: toString_def render_def Let_def)

lemma patch_item_same:
  assumes "patch_item d R = Inr d1" "cache_ok d"
  shows "item_text d1 = item_text d" "m_isNull d1 = m_isNull d" "cache_ok d1"
proof -
  have p: "patchParameter d n v = Inr d1 \<Longrightarrow> \<not> m_patched d \<Longrightarrow> item_text d1 = item_text d \<and> m_isNull d1 = m_isNull d \<and> cache_ok d1" for n v
    using cache_ok_patch [of d n v d1] assms(2)
    by (auto simp: patchParameter_split Let_def item_text_def toUnpatchedString_def toString_render split: if_splits)
  show "item_text d1 = item_text d" "m_isNull d1 = m_isNull d" "cache_ok d1"
    using assms p by (auto simp: patch_item_def split: if_splits)
qed

definition executed_texts :: "EventActionSchedule \<Rightarrow> string list" where
  "executed_texts items = map (\<lambda>it. item_text (snd it)) (filter (\<lambda>it. \<not> m_isNull (snd it)) items)"

definition history_texts :: "'m world \<Rightarrow> string list" where
  "history_texts w = map (\<lambda>it. item_text (snd it)) (m_dispatchHistory (w_reg w))"

abbreviation tokens :: "EventActionSchedule \<Rightarrow> nat" where
  "tokens items \<equiv> length (filter (\<lambda>it. m_isNull (snd it)) items)"

text \<open>The ids in the history grow, and the next ones to be used are larger.\<close>

definition ids_inv :: "'d ReplayScheduler \<Rightarrow> 'm world \<Rightarrow> bool" where
  "ids_inv s w = (0 < s_nextEventActionId s \<and> s_nextEventActionId s < next_id w
     \<and> sorted_wrt (<) (map fst (m_dispatchHistory (w_reg w)))
     \<and> (\<forall>i \<in> fst ` set (m_dispatchHistory (w_reg w)). i < s_nextEventActionId s))"

definition follows :: "EventActionSchedule \<Rightarrow> nat \<Rightarrow> 'd ReplayScheduler \<Rightarrow> 'm world \<Rightarrow> bool" where
  "follows items n s w =
     (reg_inv (w_reg w) \<and> ids_inv s w \<and> history_texts w = executed_texts (take n items) \<and> n \<le> length items
      \<and> (s_mode s = STOP \<longrightarrow> s_doneEmitted s) \<and> (s_state s = FINISHED \<longrightarrow> s_mode s = STOP \<and> n = length items)
      \<and> (s_mode s \<noteq> STOP \<longrightarrow>
           (s_mode s = STRICT \<or> s_mode s = BEST_EFFORT_NOND) \<and> \<not> s_skipAfterNextTry s \<and> s_schedule_backlog s = []
           \<and> list_all2 same_item (rev (s_schedule s)) (drop n items)
           \<and> tokens (drop n items) \<le> (if s_mode s = STRICT then 1 else 0)))"

lemma follows_next:
  assumes "follows items n s w" "s_mode s \<noteq> STOP" "s_schedule s \<noteq> []"
  shows "n < length items" "same_item (last (s_schedule s)) (items ! n)"
    "list_all2 same_item (rev (butlast (s_schedule s))) (drop (Suc n) items)"
    "tokens (drop n items) = tokens (drop (Suc n) items) + (if m_isNull (snd (items ! n)) then 1 else 0)"
    "executed_texts (take (Suc n) items) = executed_texts (take n items) @ executed_texts [items ! n]"
proof -
  have l: "list_all2 same_item (rev (s_schedule s)) (drop n items)" using assms by (simp add: follows_def)
  have r: "rev (s_schedule s) = last (s_schedule s) # rev (butlast (s_schedule s))"
    using assms(3) by (metis append_butlast_last_id rev.simps(2) rev_rev_ident rev_swap)
  from l r obtain y ys where y: "drop n items = y # ys" by (cases "drop n items") auto
  then show n: "n < length items" by (metis drop_eq_Nil leI list.distinct(1))
  have d: "drop n items = items ! n # drop (Suc n) items" using n by (rule Cons_nth_drop_Suc [symmetric])
  show "same_item (last (s_schedule s)) (items ! n)" "list_all2 same_item (rev (butlast (s_schedule s))) (drop (Suc n) items)"
    using l r d by simp_all
  show "tokens (drop n items) = tokens (drop (Suc n) items) + (if m_isNull (snd (items ! n)) then 1 else 0)"
    by (simp add: d)
  show "executed_texts (take (Suc n) items) = executed_texts (take n items) @ executed_texts [items ! n]"
    using n by (simp add: executed_texts_def take_Suc_conv_app_nth)
qed

lemma exact_run_follows:
  assumes f: "follows items n s w" and run: "runEventAction H r (s_nextEventActionId s) k d1 w = Inr (found, w1)"
    and d1: "cache_ok d1"
  shows "reg_inv (w_reg w1)" "next_id w \<le> next_id w1"
    "history_texts w1 = history_texts w @ (if found then [item_text d1] else [])"
    "sorted_wrt (<) (map fst (m_dispatchHistory (w_reg w1)))"
    "\<forall>i \<in> fst ` set (m_dispatchHistory (w_reg w1)). i < next_id w1"
    "\<not> found \<Longrightarrow> m_dispatchHistory (w_reg w1) = m_dispatchHistory (w_reg w)"
proof -
  let ?n = "s_nextEventActionId s"
  have inv: "reg_inv (w_reg w)" and ids: "ids_inv s w" using f by (simp_all add: follows_def)
  then have n: "?n \<noteq> -1" "?n < next_id w" by (auto simp: ids_inv_def)
  show "reg_inv (w_reg w1)" by (rule er.run_keeps [OF inv run])
  show next_le: "next_id w \<le> next_id w1" by (rule runEventAction_next [OF run])
  have h: "m_dispatchHistory (w_reg w1) = m_dispatchHistory (w_reg w) @ (if found then [(?n, snd (toString d1))] else [])"
    by (rule er.run_appends [OF inv run n(1)])
  then show "history_texts w1 = history_texts w @ (if found then [item_text d1] else [])"
    "\<not> found \<Longrightarrow> m_dispatchHistory (w_reg w1) = m_dispatchHistory (w_reg w)"
    using d1 by (simp_all add: history_texts_def)
  show "sorted_wrt (<) (map fst (m_dispatchHistory (w_reg w1)))"
    using er.run_sorted(1) [OF inv run n(1)] ids by (simp add: ids_inv_def)
  show "\<forall>i \<in> fst ` set (m_dispatchHistory (w_reg w1)). i < next_id w1"
    using er.run_sorted(2) [OF inv run n(1)] ids n(2) next_le by (fastforce simp: ids_inv_def)
qed

lemma after_exact_schedule [simp]:
  "s_state (after_exact d s) = s_state s" "s_doneEmitted (after_exact d s) = s_doneEmitted s"
  "s_schedule (after_exact d s) = s_schedule s" "s_schedule_backlog (after_exact d s) = s_schedule_backlog s"
  by (simp_all add: after_exact_def set_descriptor_strings_def unset_descriptor_strings_def)

lemma try_follows:
  assumes f: "follows items n s w" and m: "s_mode s \<noteq> STOP" and ne: "s_schedule s \<noteq> []"
    and att: "tryExecuteEventActionDescriptor E (last (s_schedule s)) s w = Inr (b, item', s', w')"
  shows "if b then follows items (Suc n) (s'\<lparr>s_schedule := butlast (s_schedule s'), s_skipAfterNextTry := False, s_timerActive := False\<rparr>) w'
     else follows items n (s'\<lparr>s_schedule := butlast (s_schedule s') @ [item']\<rparr>) w' \<and> \<not> s_skipAfterNextTry s'"
proof -
  obtain k d where kd: "last (s_schedule s) = (k, d)" by fastforce
  note nx = follows_next [OF f m ne]
  have cache: "cache_ok d" and null: "m_isNull d = m_isNull (snd (items ! n))" and txt_eq: "item_text d = item_text (snd (items ! n))"
    and id: "k = fst (items ! n)"
    using nx(2) kd by (auto simp: same_item_def)
  have mode: "s_mode s = STRICT \<or> s_mode s = BEST_EFFORT_NOND" and skip: "\<not> s_skipAfterNextTry s"
    and bl: "s_schedule_backlog s = []" and tok: "tokens (drop n items) \<le> (if s_mode s = STRICT then 1 else 0)"
    using f m by (auto simp: follows_def)
  have fin: "s_state s \<noteq> FINISHED" using f m by (auto simp: follows_def)
  show ?thesis
  proof (cases "m_isNull d")
    case True
    then have "s_mode s = STRICT" "tokens (drop (Suc n) items) = 0" using null nx(4) tok by (auto split: if_splits)
    then show ?thesis
      using True att kd f nx bl null
      by (auto simp: tryExecuteEventActionDescriptor_def follows_def set_modes_def ids_inv_def executed_texts_def)
  next
    case False
    from att [unfolded kd] obtain d1 w1 where d1: "patch_item d (w_reg w) = Inr d1"
      and run: "runEventAction (e_hash E) (e_run E) (s_nextEventActionId s) k d1 w = Inr (b, w1)"
      and s': "item' = (k, d1)" "s' = (if b then (after_exact d1 s)\<lparr>s_nextEventActionId := next_id w1\<rparr> else after_exact d1 s)"
        "w' = (if b then w1\<lparr>w_hb := snd (HBAllocateEventActionId (w_hb w1))\<rparr> else w1)"
      by (rule tryExecuteE [OF _ False]) (use skip in auto)
    note p = patch_item_same [OF d1 cache] and r = exact_run_follows [OF f run patch_item_same(3) [OF d1 cache]]
    have alloc: "hb_nextEventActionId (snd (HBAllocateEventActionId x)) = hb_nextEventActionId x + 1" for x
      by (simp add: HBAllocateEventActionId_def allocateEventActionId_def)
    have pos: "0 < s_nextEventActionId s" "s_nextEventActionId s < next_id w" and ids: "ids_inv s w"
      using f by (auto simp: follows_def ids_inv_def)
    show ?thesis
    proof (cases b)
      case True
      have "ids_inv (s'\<lparr>s_schedule := butlast (s_schedule s'), s_skipAfterNextTry := False, s_timerActive := False\<rparr>) w'"
        using True s' r pos by (auto simp: ids_inv_def alloc)
      moreover have "history_texts w' = executed_texts (take (Suc n) items)"
        using True s'(3) r(3) f nx(5) False null p(1) txt_eq by (simp add: follows_def history_texts_def executed_texts_def)
      ultimately show ?thesis
        using True s' r(1) nx mode bl tok False null m fin by (auto simp: follows_def)
    next
      case b: False
      have "ids_inv (s'\<lparr>s_schedule := butlast (s_schedule s') @ [item']\<rparr>) w'"
        using b s' r ids by (auto simp: ids_inv_def)
      moreover have "same_item item' (items ! n)" using s'(1) p null txt_eq id by (simp add: same_item_def)
      moreover have "drop n items = items ! n # drop (Suc n) items" using nx(1) by (rule Cons_nth_drop_Suc [symmetric])
      moreover have "history_texts w' = history_texts w" using b s'(3) r(3) by simp
      ultimately show ?thesis
        using b s' r(1) nx mode bl tok skip f m by (auto simp: follows_def)
    qed
  qed
qed

lemma follows_stop:
  assumes "follows items n s w"
  shows "st \<noteq> FINISHED \<Longrightarrow> follows items n (stop_state st s) w" "follows items n (timeout s) w"
    "s_schedule s = [] \<or> s_mode s = STOP \<Longrightarrow> follows items n (stop_register FINISHED R s) w"
  using assms
  by (auto simp: follows_def ids_inv_def stop_def stop_state_def stop_register_def timeout_def set_modes_def)

lemma follows_warnings: "follows items n (s\<lparr>s_warnings := ws\<rparr>) w = follows items n s w"
  by (simp add: follows_def ids_inv_def)

lemma follows_timer: "follows items n (s\<lparr>s_timerInterval := i, s_timerActive := a\<rparr>) w = follows items n s w"
  by (simp add: follows_def ids_inv_def)

lemma executeDelayed_follows:
  assumes f: "follows items n s w" and ex: "executeDelayedEventAction E s w = Inr (b, s', w')"
  shows "\<exists>m \<ge> n. follows items m s' w'"
proof (cases "s_schedule s = [] \<or> s_mode s = STOP")
  case True
  then show ?thesis using ex follows_stop(3) [OF f True] by (auto simp: executeDelayedEventAction_def)
next
  case False
  then have bl: "s\<lparr>s_schedule_backlog := []\<rparr> = s" "s_schedule_backlog s = []" using f by (auto simp: follows_def)
  obtain c item' s2 w2 where s2: "tryExecuteEventActionDescriptor E (last (s_schedule s)) s w = Inr (c, item', s2, w2)"
    using ex False bl by (auto simp: executeDelayedEventAction_def)
  have ne: "s_mode s \<noteq> STOP" "s_schedule s \<noteq> []" using False by auto
  note t = try_follows [OF f ne s2]
  show ?thesis
  proof (cases c)
    case True
    then show ?thesis using ex False bl s2 t
      by (intro exI [of _ "Suc n"]) (auto simp: executeDelayedEventAction_def Let_def)
  next
    case c: False
    let ?s3 = "s2\<lparr>s_schedule := butlast (s_schedule s2) @ [item']\<rparr>"
    have f3: "follows items n ?s3 w2" "\<not> s_skipAfterNextTry s2" using t c by auto
    then obtain s4 where s4: "start_timer E ?s3 = Inr s4" "s' = s4" "w' = w2"
      using ex False bl s2 c by (auto simp: executeDelayedEventAction_def Let_def)
    have "s4 = ?s3 \<or> (\<exists>i. s4 = ?s3\<lparr>s_timerInterval := i, s_timerActive := True\<rparr>)"
      using s4(1) by (auto simp: start_timer_def Let_def split: if_splits)
    then have "follows items n s4 w2" using f3(1) by (metis follows_timer)
    then show ?thesis using s4 by blast
  qed
qed

lemma execute_loop_follows:
  "follows items n s w \<Longrightarrow> execute_loop E s w = Inr (s', w') \<Longrightarrow> \<exists>m \<ge> n. follows items m s' w'"
proof (induction E s w arbitrary: n rule: execute_loop.induct)
  case (1 E s w)
  then obtain b s1 w1 where s1: "executeDelayedEventAction E s w = Inr (b, s1, w1)"
    by (subst (asm) (2) execute_loop.simps) (auto split: sum.splits)
  obtain m where m: "n \<le> m" "follows items m s1 w1" using executeDelayed_follows [OF "1.prems"(1) s1] by blast
  show ?case
  proof (cases b)
    case True
    then have "execute_loop E s1 w1 = Inr (s', w')" using "1.prems"(2) s1 by (simp add: execute_loop.simps [of E s w])
    with "1.IH" [of "(b, s1, w1)" b "(s1, w1)" s1 w1 m] s1 True m show ?thesis by (auto intro: order_trans)
  next
    case False
    then show ?thesis using "1.prems"(2) s1 m by (auto simp: execute_loop.simps [of E s w])
  qed
qed

lemma exec_op_history: "exec_op H p w = Inr w' \<Longrightarrow> m_dispatchHistory (w_reg w') = m_dispatchHistory (w_reg w)"
  by (drule exec_op_dispatch) (simp add: same_dispatch_def)

lemma replay_step_follows:
  assumes f: "follows items n s w" and step: "replay_step E c (s, w) = Inr (s', w')"
  shows "\<exists>m \<ge> n. follows items m s' w'"
proof (cases c)
  case RC_slTimeout
  have "follows items n s' w"
    using step f RC_slTimeout follows_stop(1) [of items n "s\<lparr>s_warnings := ws\<rparr>" w ERROR for ws]
    by (auto simp: slEventActionTimeout_def follows_warnings split: if_splits ReplayMode.splits)
      (simp add: follows_def)
  then show ?thesis using step RC_slTimeout by auto
next
  case (RC_op p)
  then have p: "exec_op (e_hash E) p w = Inr w'" "s' = s" using step by auto
  have "follows items n s w'"
    using f exec_op_history [OF p(1)] exec_op_inv [OF _ p(1)] exec_op_next [OF p(1)]
    by (auto simp: follows_def ids_inv_def history_texts_def)
  then show ?thesis using p by blast
next
  case RC_timeout
  then show ?thesis using step follows_stop(2) [OF f] by auto
qed (use step f execute_loop_follows in \<open>auto simp: executeDelayedEventActions_def eventActionScheduled_def\<close>)

lemma replay_calls_follows:
  "follows items n s w \<Longrightarrow> replay_calls E cs (s, w) = Inr (s', w') \<Longrightarrow> \<exists>m \<ge> n. follows items m s' w'"
proof (induction cs arbitrary: n s w)
  case (Cons c cs)
  then obtain s1 w1 where s1: "replay_step E c (s, w) = Inr (s1, w1)" "replay_calls E cs (s1, w1) = Inr (s', w')" by auto
  obtain m where m: "n \<le> m" "follows items m s1 w1" using replay_step_follows [OF Cons.prems(1) s1(1)] by blast
  then show ?case using Cons.IH [OF m(2) s1(2)] by (meson order_trans)
qed auto

lemma schedule_deserialize_cache:
  "schedule_deserialize f = Inr items \<Longrightarrow> it \<in> set items \<Longrightarrow> cache_ok (snd it) \<and> \<not> m_patched (snd it)"
proof (induction f arbitrary: items rule: schedule_deserialize.induct)
  case (1 f)
  obtain line rest e where g: "getline newline f = (line, rest, e)" by (metis prod_cases3)
  obtain xs where xs: "schedule_line line = Inr xs" using "1.prems"(1) g by (auto simp: schedule_deserialize.simps [of f])
  have l: "cache_ok (snd it) \<and> \<not> m_patched (snd it)" if "it \<in> set xs"
    using xs that by (auto simp: schedule_line_def deserialize_def mk_descriptor_def null_descriptor_def cache_ok_def
        split: if_splits prod.splits option.splits)
  show ?case
  proof (cases "e \<or> it \<in> set xs")
    case True
    then show ?thesis using l "1.prems" g xs by (auto simp: schedule_deserialize.simps [of f])
  next
    case False
    then obtain ys where "schedule_deserialize rest = Inr ys" "it \<in> set ys"
      using "1.prems" g xs by (auto simp: schedule_deserialize.simps [of f])
    then show ?thesis using "1.IH" [OF g [symmetric] refl] False by blast
  qed
qed

lemma new_scheduler_follows:
  assumes "schedule_deserialize file = Inr items" "tokens items \<le> 1"
    and "new_ReplayScheduler file tp rp ws to (new_world page) = Inr (s, w)"
  shows "follows items 0 s w"
proof -
  have init: "s_schedule s = rev items" "s_schedule_backlog s = []" "s_mode s = STRICT" "\<not> s_skipAfterNextTry s"
    "s_state s = RUNNING" "s_nextEventActionId s = 1" "w_reg w = new_EventActionRegister" "next_id w = 2"
    using assms(1,3) by (auto simp: new_ReplayScheduler_def new_world_def new_hb_state_def HBAllocateEventActionId_def
        allocateEventActionId_def)
  have "list_all2 same_item items items"
    using schedule_deserialize_cache [OF assms(1)] by (auto intro!: list_all2_refl simp: list.rel_refl_strong same_item_def)
  then show ?thesis
    using init assms(2) reg_inv_new
    by (simp add: follows_def ids_inv_def history_texts_def executed_texts_def new_EventActionRegister_def)
qed

text \<open>
  C1: the replay of a schedule with at most one relaxation token (so that best-effort mode is never
  entered) executes, whatever handlers appear when and whatever else happens, exactly the items of
  the schedule in their order: at every moment the history is the schedule up to some item, under
  the names of the recording, with increasing ids; and when the scheduler reports that it has
  finished, the whole schedule has been executed.
\<close>

theorem replay_in_order:
  assumes "schedule_deserialize file = Inr items" "tokens items \<le> 1"
    and "new_ReplayScheduler file tp rp ws to (new_world page) = Inr (s, w)"
    and "replay_calls E cs (s, w) = Inr (s', w')"
  shows "\<exists>n \<le> length items. history_texts w' = executed_texts (take n items)
     \<and> sorted_wrt (<) (map fst (m_dispatchHistory (w_reg w')))
     \<and> (s_state s' = FINISHED \<longrightarrow> n = length items)
     \<and> (s_mode s' \<noteq> STOP \<longrightarrow> length (s_schedule s') = length items - n)"
proof -
  from replay_calls_follows [OF new_scheduler_follows [OF assms(1-3)] assms(4)] obtain n where f: "follows items n s' w'" by blast
  have "length (s_schedule s') = length items - n" if "s_mode s' \<noteq> STOP"
  proof -
    have "length (rev (s_schedule s')) = length (drop n items)"
      using f that by (intro list_all2_lengthD) (auto simp: follows_def)
    then show ?thesis by simp
  qed
  with f show ?thesis by (auto simp: follows_def ids_inv_def)
qed

section \<open>Examples\<close>

text \<open>A page whose handlers do nothing, with a schedule of two timers around a relaxation token.\<close>

definition sample_env :: "(string, unit) replay_env" where
  "sample_env = \<lparr>e_hash = (\<lambda>s. 0), e_run = (\<lambda>h d w. (True, [])), e_toULong = (\<lambda>s. nat (atoi s)), e_url = (\<lambda>s. s),
     e_qurl = \<lparr>q_eq = (=), q_host = (\<lambda>u. []), q_path = (\<lambda>u. u), q_hasQuery = (\<lambda>u. False), q_queryItems = (\<lambda>u. []),
       q_hasFragment = (\<lambda>u. False), q_hasQueryItem = (\<lambda>u k. False), q_queryItemValue = (\<lambda>u k. [])\<rparr>\<rparr>"

definition sample_warnings :: warning_state where
  "sample_warnings = \<lparr>warningCollector = [], currentEventAction = 0\<rparr>"

definition sample_file :: string where
  "sample_file = ''4;1-t(1)'' @ [newline] @ ''<relax>'' @ [newline] @ ''6;1-t(2)'' @ [newline]"

definition sample_calls :: "unit replay_call list" where
  "sample_calls = [RC_op (Op_register (mk_descriptor WTF_TIMER ''t'' ''2'') \<lparr>h_object = 1, h_function = 1\<rparr>), RC_tick,
     RC_op (Op_register (mk_descriptor WTF_TIMER ''t'' ''1'') \<lparr>h_object = 2, h_function = 1\<rparr>), RC_tick]"

definition sample_start :: "(int ReplayScheduler \<times> unit world) result" where
  "sample_start = new_ReplayScheduler sample_file (new_TimeProviderReplay Map.empty sample_warnings)
     (new_RandomProviderReplay (Map.empty, Map.empty) sample_warnings) sample_warnings 10000 (new_world ())"

lemma sample_run:
  "ok sample_start (\<lambda>sw. ok (replay_calls sample_env sample_calls sw) (\<lambda>(s, w).
     history_texts w = [''1-t(1)'', ''1-t(2)''] \<and> s_state s = FINISHED \<and> s_mode s = STOP))"
  "ok (schedule_deserialize sample_file) (\<lambda>items. length items = 3 \<and> tokens items \<le> 1)"
  by code_simp+

theorem replay_in_order_witness:
  "\<exists>s w s' w' items. sample_start = Inr (s, w) \<and> replay_calls sample_env sample_calls (s, w) = Inr (s', w')
     \<and> schedule_deserialize sample_file = Inr items \<and> history_texts w' = executed_texts items"
proof -
  from sample_run(1) obtain s w s' w' where run: "sample_start = Inr (s, w)"
    "replay_calls sample_env sample_calls (s, w) = Inr (s', w')" "s_state s' = FINISHED"
    by (auto simp: ok_iff)
  from sample_run(2) obtain items where items: "schedule_deserialize sample_file = Inr items" "tokens items \<le> 1"
    by (auto simp: ok_iff)
  from replay_in_order [OF items run(1) [unfolded sample_start_def] run(2)] run(3)
  have "history_texts w' = executed_texts items" by auto
  with run items show ?thesis by blast
qed

theorem replay_modes_agree_witness:
  "\<exists>s w s' w'. sample_start = Inr (s, w) \<and> replay_calls sample_env sample_calls (s, w) = Inr (s', w')
     \<and> t_mode (s_timeProvider s') = STOP \<and> s_sigDone s' = 1"
proof -
  from sample_run(1) obtain s w s' w' where run: "sample_start = Inr (s, w)"
    "replay_calls sample_env (sample_calls @ []) (s, w) = Inr (s', w')" "s_mode s' = STOP"
    by (auto simp: ok_iff)
  have "t_mode (new_TimeProviderReplay Map.empty sample_warnings :: int TimeProviderReplay) = STRICT"
    "r_mode (new_RandomProviderReplay (Map.empty, Map.empty) sample_warnings :: int RandomProviderReplay) = STRICT"
    by (simp_all add: new_TimeProviderReplay_def new_RandomProviderReplay_def)
  from replay_modes_agree [OF run(1) [unfolded sample_start_def] this run(2)] run show ?thesis by auto
qed

end
