(* ===== verification/Scheduler_Contract.thy ===== *)
theory Scheduler_Contract
  imports Spec_Scheduler Replay_Scheduler
begin

text \<open>
  What the three schedulers guarantee whatever they decide to run: they change the world only by running event actions
  through the register. A relation between worlds that every run respects is therefore respected by every
  operation of every scheduler (locale \<open>world_relation\<close>), and a relation between pages that every
  call of the handler functions respects is respected by every run (locale \<open>page_step\<close>).
\<close>

section \<open>Relations that every event action respects\<close>

locale world_relation =
  fixes W :: "'m world \<Rightarrow> 'm world \<Rightarrow> bool" and H :: string_hash and run :: "'m handler_fun"
  assumes W_refl: "W w w"
    and W_trans: "W w1 w2 \<Longrightarrow> W w2 w3 \<Longrightarrow> W w1 w3"
    and W_hb: "W w (w\<lparr>w_hb := s\<rparr>)"
    and W_run: "runEventAction H run n k d w = Inr (b, w') \<Longrightarrow> W w w'"
begin

lemma default_W: "default_eventActionScheduled H run d s w = Inr (s', w') \<Longrightarrow> W w w'"
  by (auto simp: default_eventActionScheduled_def runEventAction_unnumbered_def W_refl split: if_splits intro: W_run)

lemma spec_run_W: "v_hash V = H \<Longrightarrow> v_run V = run \<Longrightarrow> spec_run V d s w = Inr (b, s', w') \<Longrightarrow> W w w'"
  by (auto simp: spec_run_def runEventAction_unnumbered_def intro: W_run)

lemma spec_execute_W:
  assumes "v_hash V = H" "v_run V = run" "spec_executeDelayedEventAction V s w = Inr (b, s', w')"
  shows "W w w'"
  using assms(3)
proof (cases rule: executeDelayedE)
  case idle
  then show ?thesis using W_refl by blast
next
  case active
  from active(3) show ?thesis by (cases rule: run_activeE) (use W_refl spec_run_W [OF assms(1,2)] in blast)+
next
  case (parsing d q)
  from parsing(3) show ?thesis by (cases rule: run_parsingE) (use spec_run_W [OF assms(1,2)] in blast)
next
  case (network d q)
  from network(3) show ?thesis by (cases rule: run_networkE) (use spec_run_W [OF assms(1,2)] in blast)+
next
  case (other d q)
  from other(3) show ?thesis by (cases rule: run_otherE) (use spec_run_W [OF assms(1,2)] in blast)
qed

lemma spec_tick_W:
  "v_hash V = H \<Longrightarrow> v_run V = run \<Longrightarrow> spec_executeDelayedEventActions V s w = Inr (s', w') \<Longrightarrow> W w w'"
proof (induction V s w rule: spec_executeDelayedEventActions.induct)
  case (1 V s w)
  from 1(4) obtain b s1 w1 where e: "spec_executeDelayedEventAction V s w = Inr (b, s1, w1)"
    by (subst (asm) spec_executeDelayedEventActions.simps) (auto split: sum.splits)
  note k = spec_execute_W [OF 1(2,3) e]
  show ?case
  proof (cases b)
    case True
    with 1(4) e have "spec_executeDelayedEventActions V s1 w1 = Inr (s', w')"
      by (subst (asm) spec_executeDelayedEventActions.simps) simp
    then have "W w1 w'" using 1(1) [OF e refl _ refl] True 1(2,3) by simp
    then show ?thesis using W_trans k by blast
  next
    case False
    with 1(4) e k show ?thesis by (subst (asm) spec_executeDelayedEventActions.simps) simp
  qed
qed

lemma strict_W: "W w (set_strict b w)"
  by (simp add: set_strict_def W_hb)

lemma try_fuzzy_W:
  assumes "e_hash E = H" "e_run E = run" "try_fuzzy E k d s w = Inr (b, s', w')"
  shows "W w w'"
  using assms W_run by (auto simp: try_fuzzy_def Let_def W_refl split: if_splits)

lemma try_W:
  assumes "e_hash E = H" "e_run E = run" "tryExecuteEventActionDescriptor E item s w = Inr (b, item', s', w')"
  shows "W w w'"
proof -
  obtain k d where item: "item = (k, d)" by fastforce
  show ?thesis
  proof (cases "m_isNull d")
    case True
    then show ?thesis using assms(3) item by (auto simp: tryExecuteEventActionDescriptor_def W_refl split: if_splits)
  next
    case False
    from assms(3) item obtain d1 found w1 s4 w2 where
      r: "runEventAction (e_hash E) (e_run E) (s_nextEventActionId s) k d1 w = Inr (found, w1)"
      and f: "(if \<not> found \<and> s_skipAfterNextTry s \<and> s_mode s = BEST_EFFORT
        then try_fuzzy E k d1 (after_exact d1 s) w1 else Inr (found, after_exact d1 s, w1)) = Inr (b, s4, w2)"
      and w': "w' = (if b then w2\<lparr>w_hb := snd (HBAllocateEventActionId (w_hb w2))\<rparr> else w2)"
      by (auto elim: tryExecuteE [OF _ False])
    have "W w w1" using W_run r assms(1,2) by blast
    moreover have "W w1 w2" using f try_fuzzy_W [OF assms(1,2)] W_refl by (auto split: if_splits)
    moreover have "W w2 w'" unfolding w' using W_refl W_hb by simp
    ultimately show ?thesis using W_trans by blast
  qed
qed

lemma backlog_W:
  "e_hash E = H \<Longrightarrow> e_run E = run \<Longrightarrow> backlog_loop E tried items s w = Inr (b, s', w') \<Longrightarrow> W w w'"
proof (induction items arbitrary: tried s w)
  case (Cons item items)
  then obtain ok item' s1 w1 where st: "tryExecuteEventActionDescriptor E item s (set_strict False w) = Inr (ok, item', s1, w1)"
    and rest: "if ok then w' = set_strict True w1 else backlog_loop E (tried @ [item']) items s1 (set_strict True w1) = Inr (b, s', w')"
    by (auto split: if_splits)
  have "W w (set_strict True w1)" using try_W [OF Cons.prems(1,2) st] strict_W W_trans by blast
  then show ?case using rest Cons.IH [OF Cons.prems(1,2)] W_trans by (auto split: if_splits)
qed (simp add: W_refl)

lemma replay_execute_W:
  assumes "e_hash E = H" "e_run E = run" "executeDelayedEventAction E s w = Inr (b, s', w')"
  shows "W w w'"
proof (cases "s_schedule s = [] \<or> s_mode s = STOP")
  case True
  then show ?thesis using assms(3) W_refl by (auto simp: executeDelayedEventAction_def)
next
  case False
  then obtain ok s1 w1 where bl: "backlog_loop E [] (s_schedule_backlog s) s w = Inr (ok, s1, w1)"
    and rest: "w' = w1 \<or> (\<exists>b item' s2. tryExecuteEventActionDescriptor E (last (s_schedule s1)) s1 w1 = Inr (b, item', s2, w'))"
    using assms(3) by (auto simp: executeDelayedEventAction_def Let_def split: if_splits)
  have "W w w1" by (rule backlog_W [OF assms(1,2) bl])
  then show ?thesis using rest try_W [OF assms(1,2)] W_trans by blast
qed

lemma replay_tick_W: "e_hash E = H \<Longrightarrow> e_run E = run \<Longrightarrow> execute_loop E s w = Inr (s', w') \<Longrightarrow> W w w'"
proof (induction E s w rule: execute_loop.induct)
  case (1 E s w)
  then obtain b s1 w1 where s1: "executeDelayedEventAction E s w = Inr (b, s1, w1)"
    by (subst (asm) (2) execute_loop.simps) (auto split: sum.splits)
  note k = replay_execute_W [OF "1.prems"(1,2) s1]
  show ?case
  proof (cases b)
    case True
    then have "execute_loop E s1 w1 = Inr (s', w')" using "1.prems"(3) s1 by (simp add: execute_loop.simps [of E s w])
    then have "W w1 w'" using "1.IH" [of "(b, s1, w1)" b "(s1, w1)" s1 w1] s1 True "1.prems"(1,2) by simp
    then show ?thesis using k W_trans by blast
  next
    case False
    then show ?thesis using "1.prems"(3) s1 k by (auto simp: execute_loop.simps [of E s w])
  qed
qed

end

text \<open>The invariant of the register is such a relation.\<close>

interpretation rw: world_relation "\<lambda>w w'. reg_inv (w_reg w) \<longrightarrow> reg_inv (w_reg w')" H run
  for H :: string_hash and run :: "'m handler_fun"
  by unfold_locales (auto intro: runEventAction_inv)

section \<open>Relations that every call of a handler function respects\<close>

locale page_step =
  fixes Q :: "'m \<Rightarrow> 'm \<Rightarrow> bool" and H :: string_hash and run :: "'m handler_fun"
  assumes Q_refl: "Q p p"
    and Q_trans: "Q p1 p2 \<Longrightarrow> Q p2 p3 \<Longrightarrow> Q p1 p3"
    and Q_op: "x \<in> set (snd (run h d w)) \<Longrightarrow> exec_op H x w1 = Inr w2 \<Longrightarrow> Q (w_page w1) (w_page w2)"
begin

lemma exec_ops_Q:
  "\<forall>x \<in> set ops. \<exists>h d w. x \<in> set (snd (run h d w)) \<Longrightarrow> exec_ops H ops w1 = Inr w2 \<Longrightarrow> Q (w_page w1) (w_page w2)"
proof (induction ops arbitrary: w1)
  case (Cons x ops)
  then obtain w where w: "exec_op H x w1 = Inr w" "exec_ops H ops w = Inr w2" by auto
  have "Q (w_page w1) (w_page w)" using Q_op w(1) Cons.prems(1) by auto
  then show ?case using Cons.IH [OF _ w(2)] Cons.prems(1) Q_trans by auto
qed (simp add: Q_refl)

lemma handler_ops_Q: "exec_ops H (snd (run h d w)) w1 = Inr w2 \<Longrightarrow> Q (w_page w1) (w_page w2)"
  by (rule exec_ops_Q) auto

lemma execution_page:
  "pre_execution H n k d ob w = Inr w' \<Longrightarrow> w_page w' = w_page w"
  "post_execution c k w = Inr w' \<Longrightarrow> w_page w' = w_page w"
  by (auto simp: pre_execution_def post_execution_def split: prod.splits)

lemma try_providers_Q: "try_providers H run n k d ps w = Inr (b, w') \<Longrightarrow> Q (w_page w) (w_page w')"
proof (induction ps arbitrary: w)
  case (Cons p ps)
  obtain ob h where p: "p = (ob, h)" by fastforce
  then obtain w1 w2 w3 where w: "pre_execution H n k d ob w = Inr w1" "exec_ops H (snd (run h d w1)) w1 = Inr w2"
    "post_execution (fst (run h d w1)) k w2 = Inr w3"
    "(if fst (run h d w1) then Inr (True, w3) else try_providers H run n k d ps w3) = Inr (b, w')"
    using Cons.prems(1) by (auto simp: case_prod_unfold)
  have "Q (w_page w) (w_page w3)" using handler_ops_Q [OF w(2)] execution_page(1) [OF w(1)] execution_page(2) [OF w(3)] by simp
  then show ?case using w(4) Cons.IH [of w3] Q_trans by (auto split: if_splits)
qed (simp add: Q_refl)

lemma run_handler_Q:
  assumes "run_handler H run n k d key l w = Inr w'"
  shows "Q (w_page w) (w_page w')"
proof -
  obtain w1 w2 where w: "pre_execution H n k d (h_object (hd l)) w = Inr w1" "exec_ops H (snd (run (hd l) d w1)) w1 = Inr w2"
    "post_execution True k (w2\<lparr>w_reg := pop_handler key (w_reg w2)\<rparr>) = Inr w'"
    using assms by (auto simp: run_handler_def case_prod_unfold split: if_splits)
  show ?thesis using handler_ops_Q [OF w(2)] execution_page(1) [OF w(1)] execution_page(2) [OF w(3)] by simp
qed

lemma runEventAction_Q:
  assumes "runEventAction H run n k d w = Inr (b, w')"
  shows "Q (w_page w) (w_page w')"
proof -
  let ?d = "snd (toString d)"
  obtain found w1 where w1: "try_providers H run n k ?d (providers_from (m_type ?d) (w_reg w)) w = Inr (found, w1)"
    using assms by (auto simp: runEventAction_def case_prod_unfold Let_def)
  have "w' = w1 \<or> (\<exists>l. run_handler H run n k ?d (fst (toString d)) l w1 = Inr w')"
    using assms w1 by (auto simp: runEventAction_def case_prod_unfold Let_def split: if_splits option.splits)
  then show ?thesis using try_providers_Q [OF w1] run_handler_Q Q_trans by blast
qed

end

sublocale page_step \<subseteq> world_relation "\<lambda>w w'. Q (w_page w) (w_page w')" H run
  by unfold_locales (auto intro: Q_refl Q_trans runEventAction_Q)

end
