(* ===== verification/Thread_Timers.thy ===== *)
theory Thread_Timers
  imports Timer_Heap Scheduler_Contract
begin

text \<open>
  The timers of a thread at work (\<open>Source/WebCore/platform/Timer.cpp\<close> and \<open>ThreadTimers\<close>): starting and stopping
  timers, the shared system timer, and its callback, which takes the timers that are due out of the heap,
  registers each as an event action and hands it to the scheduler. The scheduler is one of the three models of
  \<open>Spec_Scheduler\<close> and \<open>Replay_Scheduler\<close>; the locale \<open>thread_scheduler\<close> is what the timers rely on,
  and it is interpreted on all of them. What the page does when a timer fires is the parameter \<open>fired\<close>: the
  timer operations that it calls. Nested event loops run no timers of their own here.
\<close>

section \<open>State\<close>

text \<open>
  \<open>tp_fireInterval\<close> is the interval to which the shared timer was last set. The clock is a sequence of readings,
  of which \<open>tp_reads\<close> have been made. \<open>tp_changes\<close> counts the changes of fire times; nothing reads it.
\<close>

record thread_page =
  tp_heap :: timer_heap
  tp_changes :: nat
  tp_sharedTimer :: bool
  tp_fireInterval :: "int option"
  tp_firing :: bool
  tp_clock :: "nat \<Rightarrow> int"
  tp_reads :: nat

type_synonym thread_world = "thread_page world"

definition monotonicallyIncreasingTime :: "thread_page \<Rightarrow> int \<times> thread_page" where
  "monotonicallyIncreasingTime p = (tp_clock p (tp_reads p), p\<lparr>tp_reads := tp_reads p + 1\<rparr>)"

definition modify_timer :: "nat \<Rightarrow> (TimerBase \<Rightarrow> TimerBase) \<Rightarrow> thread_page \<Rightarrow> thread_page" where
  "modify_timer t f p = p\<lparr>tp_heap := update_timer t f (tp_heap p)\<rparr>"

abbreviation timer :: "thread_page \<Rightarrow> nat \<Rightarrow> TimerBase" where
  "timer p t \<equiv> timers (tp_heap p) t"

section \<open>The shared timer\<close>

definition remaining :: "fire_time \<Rightarrow> int \<Rightarrow> int" where
  "remaining t now = (case t of Neg_Infinity \<Rightarrow> 0 | At a \<Rightarrow> max (a - now) 0)"

definition updateSharedTimer :: "thread_page \<Rightarrow> thread_page" where
  "updateSharedTimer p =
     (if \<not> tp_sharedTimer p then p
      else if tp_firing p \<or> timerHeap (tp_heap p) = [] then p\<lparr>tp_fireInterval := Some 50000\<rparr>
      else (let (now, p1) = monotonicallyIncreasingTime p in
            p1\<lparr>tp_fireInterval := Some (min (remaining (m_nextFireTime (timer p (hd (timerHeap (tp_heap p))))) now) 1000000)\<rparr>))"

definition setSharedTimer :: "bool \<Rightarrow> thread_page \<Rightarrow> thread_page" where
  "setSharedTimer sharedTimer p =
     (let p1 = (if tp_sharedTimer p then p\<lparr>tp_fireInterval := None\<rparr> else p);
          p2 = p1\<lparr>tp_sharedTimer := sharedTimer\<rparr>
      in if sharedTimer then updateSharedTimer p2 else p2)"

definition fireTimersInNestedEventLoop :: "thread_page \<Rightarrow> thread_page" where
  "fireTimersInNestedEventLoop p = updateSharedTimer (p\<lparr>tp_firing := False\<rparr>)"

section \<open>Timer operations\<close>

text \<open>The event action that a timer is attributed to.\<close>

definition starter :: "hb_state \<Rightarrow> int result" where
  "starter s =
     (if HBIsCurrentEventActionValid s then HBCurrentEventAction s
      else if HBIsLastUIEventActionValid s then HBLastUIEventAction s
      else Inr 0)"

definition setNextFireTime :: "nat \<Rightarrow> int \<Rightarrow> int \<Rightarrow> hb_state \<Rightarrow> thread_page \<Rightarrow> (thread_page \<times> hb_call list) result" where
  "setNextFireTime t newTime interval hb p =
     (if m_nextFireTime (timer p t) \<noteq> At newTime
      then bindR (if newTime \<noteq> 0
                  then bindR (starter hb) (\<lambda>e.
                    Inr (modify_timer t (\<lambda>T. T\<lparr>m_nextFireInterval := interval, m_starterEventAction := e\<rparr>) p, [HB_log (R_Trigger (int t))]))
                  else Inr (p, [])) (\<lambda>(p1, cs).
           let wasFirstTimerInHeap = (m_heapIndex (timer p1 t) = 0) in
           bindR (change_key t newTime (tp_heap p1)) (\<lambda>S.
             let p2 = p1\<lparr>tp_heap := S, tp_changes := tp_changes p1 + 1\<rparr>;
                 isFirstTimerInHeap = (m_heapIndex (timer p2 t) = 0);
                 p3 = (if wasFirstTimerInHeap \<or> isFirstTimerInHeap then updateSharedTimer p2 else p2)
             in bindR (checkConsistency t (tp_heap p3)) (\<lambda>_. Inr (p3, cs))))
      else bindR (checkConsistency t (tp_heap p)) (\<lambda>_. Inr (p, [])))"

definition timer_start :: "nat \<Rightarrow> int \<Rightarrow> int \<Rightarrow> hb_state \<Rightarrow> thread_page \<Rightarrow> (thread_page \<times> hb_call list) result" where
  "timer_start t interval repeatInterval hb p =
     (let p1 = modify_timer t (\<lambda>T. T\<lparr>m_repeatInterval := repeatInterval\<rparr>) p;
          (now, p2) = monotonicallyIncreasingTime p1
      in setNextFireTime t (now + interval) interval hb p2)"

text \<open>Stopping a timer that waits in the register removes its handler; the list holds its descriptor then.\<close>

definition timer_stop :: "nat \<Rightarrow> hb_state \<Rightarrow> thread_page \<Rightarrow> (thread_page \<times> EventActionDescriptor list \<times> hb_call list) result" where
  "timer_stop t hb p =
     bindR (setNextFireTime t 0 0 hb (modify_timer t (\<lambda>T. T\<lparr>m_repeatInterval := 0\<rparr>) p)) (\<lambda>(p1, cs).
       let T = timer p1 t in
       if m_nextFireTime T \<noteq> At 0 \<or> m_repeatInterval T \<noteq> 0 \<or> inHeap T then Inl ASSERT_FAILED
       else Inr (p1, if m_inEventActionRegister T then [m_eventActionDescriptor T] else [], cs))"

text \<open>An infinite fire time only exists inside \<open>heapPop\<close>.\<close>

definition augmentFireInterval :: "nat \<Rightarrow> int \<Rightarrow> hb_state \<Rightarrow> thread_page \<Rightarrow> (thread_page \<times> hb_call list) result" where
  "augmentFireInterval t delta hb p =
     (case m_nextFireTime (timer p t) of Neg_Infinity \<Rightarrow> Inl UNDEFINED
      | At a \<Rightarrow> setNextFireTime t (a + delta) delta hb p)"

definition augmentRepeatInterval :: "nat \<Rightarrow> int \<Rightarrow> hb_state \<Rightarrow> thread_page \<Rightarrow> (thread_page \<times> hb_call list) result" where
  "augmentRepeatInterval t delta hb p =
     bindR (augmentFireInterval t delta hb p) (\<lambda>(p1, cs).
       Inr (modify_timer t (\<lambda>T. T\<lparr>m_repeatInterval := m_repeatInterval T + delta\<rparr>) p1, cs))"

datatype timer_call =
  TC_start nat int int | TC_stop nat | TC_augmentFire nat int | TC_augmentRepeat nat int
  | TC_ignoreFireInterval nat | TC_disableImplicit nat | TC_setDescriptor nat EventActionDescriptor | TC_nested

text \<open>What a call of the page on its timers does, in the form of an action of the page.\<close>

fun timer_act :: "timer_call \<Rightarrow> thread_world \<Rightarrow> (thread_page \<times> EventActionDescriptor list \<times> hb_call list) result" where
  "timer_act (TC_start t n r) w = bindR (timer_start t n r (w_hb w) (w_page w)) (\<lambda>(p, cs). Inr (p, [], cs))"
| "timer_act (TC_stop t) w = timer_stop t (w_hb w) (w_page w)"
| "timer_act (TC_augmentFire t x) w = bindR (augmentFireInterval t x (w_hb w) (w_page w)) (\<lambda>(p, cs). Inr (p, [], cs))"
| "timer_act (TC_augmentRepeat t x) w = bindR (augmentRepeatInterval t x (w_hb w) (w_page w)) (\<lambda>(p, cs). Inr (p, [], cs))"
| "timer_act (TC_ignoreFireInterval t) w = Inr (modify_timer t (\<lambda>T. T\<lparr>m_ignoreFireIntervalForHappensBefore := True\<rparr>) (w_page w), [], [])"
| "timer_act (TC_disableImplicit t) w = Inr (modify_timer t (\<lambda>T. T\<lparr>m_disableImplicitHappensBeforeRelations := True\<rparr>) (w_page w), [], [])"
| "timer_act (TC_setDescriptor t d) w = Inr (modify_timer t (\<lambda>T. T\<lparr>m_eventActionDescriptor := d\<rparr>) (w_page w), [], [])"
| "timer_act TC_nested w = Inr (fireTimersInNestedEventLoop (w_page w), [], [])"

section \<open>Firing\<close>

text \<open>The conversion of \<open>duration * 1000\<close> to \<open>int\<close> cuts towards zero.\<close>

definition milliseconds :: "int \<Rightarrow> int" where
  "milliseconds us = (if us < 0 then - ((- us) div 1000) else us div 1000)"

text \<open>The arc from the event action that started the timer to the one in which it fires.\<close>

definition fire_arcs :: "TimerBase \<Rightarrow> hb_state \<Rightarrow> hb_call list" where
  "fire_arcs T hb =
     (if m_starterEventAction T \<noteq> 0 \<and> HBIsCurrentEventActionValid hb \<and> \<not> m_disableImplicitHappensBeforeRelations T
      then (if m_ignoreFireIntervalForHappensBefore T
            then [HB_arc (m_starterEventAction T) (hb_currentEventActionId hb)]
            else [HB_timed (m_starterEventAction T) (hb_currentEventActionId hb) (milliseconds (m_nextFireInterval T))])
      else [])"

text \<open>\<open>fireTimerCallback\<close> up to the call of \<open>fired\<close>.\<close>

definition fireTimerCallback :: "nat \<Rightarrow> thread_world \<Rightarrow> (thread_page \<times> EventActionDescriptor list \<times> hb_call list) result" where
  "fireTimerCallback t w =
     (let hb = w_hb w;
          p1 = modify_timer t (\<lambda>T. T\<lparr>m_inEventActionRegister := False,
                 m_lastFireEventAction := (if HBIsCurrentEventActionValid hb then hb_currentEventActionId hb else 0)\<rparr>) (w_page w);
          arcs = fire_arcs (timer p1 t) hb;
          interval = m_repeatInterval (timer p1 t);
          (newTime, p2) = (if interval \<noteq> 0 then (let (now, p') = monotonicallyIncreasingTime p1 in (now + interval, p')) else (0, p1))
      in bindR (setNextFireTime t newTime interval hb p2) (\<lambda>(p3, cs). Inr (p3, [], arcs @ cs)))"

type_synonym fired_fun = "nat \<Rightarrow> thread_world \<Rightarrow> timer_call list"

definition fire_ops :: "fired_fun \<Rightarrow> nat \<Rightarrow> thread_world \<Rightarrow> thread_page world_op list" where
  "fire_ops fired t w = Op_act (fireTimerCallback t) # map (\<lambda>c. Op_act (timer_act c)) (fired t w)"

definition timer_handler :: "fired_fun \<Rightarrow> thread_page handler_fun" where
  "timer_handler fired h d w = (True, fire_ops fired (nat (h_object h)) w)"

text \<open>The class \<open>Scheduler\<close>: what the thread calls, whatever object \<open>setScheduler\<close> has installed.\<close>

record 's Scheduler =
  sc_scheduled :: "EventActionDescriptor \<Rightarrow> 's \<Rightarrow> thread_world \<Rightarrow> ('s \<times> thread_world) result"
  sc_descheduled :: "EventActionDescriptor \<Rightarrow> 's \<Rightarrow> 's result"
  sc_execute :: "'s \<Rightarrow> thread_world \<Rightarrow> ('s \<times> thread_world) result"

fun deschedule_all :: "'s Scheduler \<Rightarrow> EventActionDescriptor list \<Rightarrow> 's \<Rightarrow> 's result" where
  "deschedule_all SC [] s = Inr s"
| "deschedule_all SC (d # ds) s = bindR (sc_descheduled SC d s) (deschedule_all SC ds)"

text \<open>
  Calls of the page outside of the scheduler. Every handler they remove is also reported to the
  scheduler, as \<open>ThreadTimers::deregisterEventActionHandler\<close> does.
\<close>

definition page_calls :: "'s Scheduler \<Rightarrow> string_hash \<Rightarrow> thread_page world_op list \<Rightarrow> 's \<Rightarrow> thread_world \<Rightarrow> ('s \<times> thread_world) result" where
  "page_calls SC H ops s w =
     bindR (exec_ops H ops w) (\<lambda>w'.
     bindR (deschedule_all SC (drop (length (w_removed w)) (w_removed w')) s) (\<lambda>s'. Inr (s', w')))"

text \<open>One round of the loop of \<open>sharedTimerFiredInternal\<close>, for the first timer of the heap.\<close>

definition fire_first :: "'s Scheduler \<Rightarrow> string_hash \<Rightarrow> fired_fun \<Rightarrow> nat \<Rightarrow> 's \<Rightarrow> thread_world \<Rightarrow> ('s \<times> thread_world) result" where
  "fire_first SC H fired t s w =
     bindR (heapDelete t (update_timer t (\<lambda>T. T\<lparr>m_nextFireTime := At 0\<rparr>) (tp_heap (w_page w)))) (\<lambda>S.
       let w1 = w\<lparr>w_page := (w_page w)\<lparr>tp_heap := S\<rparr>\<rparr>;
           descriptor = m_eventActionDescriptor (timer (w_page w1) t)
       in if m_isNull descriptor then page_calls SC H (fire_ops fired t w1) s w1
          else sc_scheduled SC descriptor s
                 (w1\<lparr>w_page := modify_timer t (\<lambda>T. T\<lparr>m_inEventActionRegister := True\<rparr>) (w_page w1),
                     w_reg := registerEventActionHandler descriptor \<lparr>h_object = int t, h_function = 0\<rparr> (w_reg w1)\<rparr>))"

text \<open>The loop, for at most so many rounds: \<open>None\<close> when it has not ended by then.\<close>

fun fire_loop :: "'s Scheduler \<Rightarrow> string_hash \<Rightarrow> fired_fun \<Rightarrow> int \<Rightarrow> int \<Rightarrow> nat \<Rightarrow> 's \<Rightarrow> thread_world \<Rightarrow> ('s \<times> thread_world) result option" where
  "fire_loop SC H fired fireTime timeToQuit 0 s w = None"
| "fire_loop SC H fired fireTime timeToQuit (Suc n) s w =
     (case timerHeap (tp_heap (w_page w)) of [] \<Rightarrow> Some (Inr (s, w))
      | t # _ \<Rightarrow>
          if \<not> m_nextFireTime (timer (w_page w) t) \<le> At fireTime then Some (Inr (s, w))
          else (case fire_first SC H fired t s w of Inl e \<Rightarrow> Some (Inl e)
            | Inr (s1, w1) \<Rightarrow>
                if \<not> tp_firing (w_page w1) then Some (Inr (s1, w1))
                else (let (now, p) = monotonicallyIncreasingTime (w_page w1); w2 = w1\<lparr>w_page := p\<rparr> in
                      if timeToQuit < now then Some (Inr (s1, w2)) else fire_loop SC H fired fireTime timeToQuit n s1 w2)))"

definition sharedTimerFiredInternal :: "'s Scheduler \<Rightarrow> string_hash \<Rightarrow> fired_fun \<Rightarrow> nat \<Rightarrow> 's \<Rightarrow> thread_world \<Rightarrow> ('s \<times> thread_world) result" where
  "sharedTimerFiredInternal SC H fired fuel s w =
     (if tp_firing (w_page w) then Inr (s, w)
      else (let (fireTime, p) = monotonicallyIncreasingTime ((w_page w)\<lparr>tp_firing := True\<rparr>) in
        bindR (case fire_loop SC H fired fireTime (fireTime + 50000) fuel s (w\<lparr>w_page := p\<rparr>) of
                 None \<Rightarrow> Inl DIVERGES | Some r \<Rightarrow> r) (\<lambda>(s1, w1).
        bindR (sc_execute SC s1 w1) (\<lambda>(s2, w2).
          Inr (s2, w2\<lparr>w_page := updateSharedTimer ((w_page w2)\<lparr>tp_firing := False\<rparr>)\<rparr>)))))"

text \<open>The main thread starts with a shared timer and no timers; any number may be constructed.\<close>

definition new_thread_page :: "(nat \<Rightarrow> int) \<Rightarrow> thread_page" where
  "new_thread_page clock = setSharedTimer True
     \<lparr>tp_heap = \<lparr>timers = (\<lambda>_. new_TimerBase), timerHeap = [], currentHeapInsertionOrder = 0\<rparr>, tp_changes = 0,
      tp_sharedTimer = False, tp_fireInterval = None, tp_firing = False, tp_clock = clock, tp_reads = 0\<rparr>"

text \<open>What can happen to a thread: the page works on its timers, the shared timer is exchanged, or it fires.\<close>

datatype thread_call = Th_page timer_call | Th_setSharedTimer bool | Th_sharedTimerFired nat

fun thread_step :: "'s Scheduler \<Rightarrow> string_hash \<Rightarrow> fired_fun \<Rightarrow> thread_call \<Rightarrow> 's \<Rightarrow> thread_world \<Rightarrow> ('s \<times> thread_world) result" where
  "thread_step SC H fired (Th_page c) s w = page_calls SC H [Op_act (timer_act c)] s w"
| "thread_step SC H fired (Th_setSharedTimer b) s w = Inr (s, w\<lparr>w_page := setSharedTimer b (w_page w)\<rparr>)"
| "thread_step SC H fired (Th_sharedTimerFired n) s w = sharedTimerFiredInternal SC H fired n s w"

fun thread_run :: "'s Scheduler \<Rightarrow> string_hash \<Rightarrow> fired_fun \<Rightarrow> thread_call list \<Rightarrow> 's \<Rightarrow> thread_world \<Rightarrow> ('s \<times> thread_world) result" where
  "thread_run SC H fired [] s w = Inr (s, w)"
| "thread_run SC H fired (c # cs) s w = bindR (thread_step SC H fired c s w) (\<lambda>(s1, w1). thread_run SC H fired cs s1 w1)"

section \<open>The heap stays in order\<close>

text \<open>The heap is in order as long as fewer than \<open>2 ^ 31 - 1\<close> fire times have been set.\<close>

definition page_ok :: "thread_page \<Rightarrow> bool" where
  "page_ok p = (tp_changes p < 2 ^ 31 - 1 \<longrightarrow> heap_ok (tp_changes p) (tp_heap p))"

definition page_le :: "thread_page \<Rightarrow> thread_page \<Rightarrow> bool" where
  "page_le p p' = (tp_changes p \<le> tp_changes p' \<and> tp_reads p \<le> tp_reads p' \<and> tp_clock p' = tp_clock p \<and> (page_ok p \<longrightarrow> page_ok p'))"

lemma page_le_refl [simp]: "page_le p p"
  by (simp add: page_le_def)

lemma page_le_trans: "page_le p1 p2 \<Longrightarrow> page_le p2 p3 \<Longrightarrow> page_le p1 p3"
  by (simp add: page_le_def)

text \<open>Changes of a timer that leave its key and its index alone.\<close>

definition keeps_key :: "(TimerBase \<Rightarrow> TimerBase) \<Rightarrow> bool" where
  "keeps_key f = (\<forall>T. m_nextFireTime (f T) = m_nextFireTime T \<and> m_heapIndex (f T) = m_heapIndex T
     \<and> m_heapInsertionOrder (f T) = m_heapInsertionOrder T)"

lemma keeps_key_fields:
  assumes "keeps_key f"
  shows "m_nextFireTime (timers (update_timer t f S) x) = m_nextFireTime (timers S x)"
    "m_heapIndex (timers (update_timer t f S) x) = m_heapIndex (timers S x)"
    "m_heapInsertionOrder (timers (update_timer t f S) x) = m_heapInsertionOrder (timers S x)"
    "timerHeap (update_timer t f S) = timerHeap S" "currentHeapInsertionOrder (update_timer t f S) = currentHeapInsertionOrder S"
  using assms by (simp_all add: keeps_key_def update_timer_def)

lemma heap_ok_update: 
  assumes "keeps_key f"
  shows "heap_ok n (update_timer t f S) = heap_ok n S"
proof -
  have "same_keys UNIV (timers (update_timer t f S)) (timers S)" by (simp add: same_keys_def keeps_key_fields [OF assms])
  then have "th.is_heap (timers (update_timer t f S)) (length (timerHeap S)) (timerHeap S) = th.is_heap (timers S) (length (timerHeap S)) (timerHeap S)"
    by (intro same_keys_heap) auto
  then show ?thesis
    by (simp add: heap_ok_def all_indexed_def ages_ok_def age_def keeps_key_fields [OF assms])
qed

lemma modify_timer_fields [simp]:
  "tp_changes (modify_timer t f p) = tp_changes p" "tp_reads (modify_timer t f p) = tp_reads p"
  "tp_clock (modify_timer t f p) = tp_clock p" "tp_firing (modify_timer t f p) = tp_firing p"
  "tp_heap (modify_timer t f p) = update_timer t f (tp_heap p)"
  by (simp_all add: modify_timer_def)

lemma modify_timer_le: "keeps_key f \<Longrightarrow> page_le p (modify_timer t f p)"
  by (simp add: page_le_def page_ok_def heap_ok_update)

lemma keeps_key_updates [simp]:
  "keeps_key (\<lambda>T. T\<lparr>m_nextFireInterval := a T, m_starterEventAction := b T\<rparr>)"
  "keeps_key (\<lambda>T. T\<lparr>m_repeatInterval := a T\<rparr>)"
  "keeps_key (\<lambda>T. T\<lparr>m_ignoreFireIntervalForHappensBefore := v\<rparr>)"
  "keeps_key (\<lambda>T. T\<lparr>m_disableImplicitHappensBeforeRelations := v\<rparr>)"
  "keeps_key (\<lambda>T. T\<lparr>m_eventActionDescriptor := d\<rparr>)"
  "keeps_key (\<lambda>T. T\<lparr>m_inEventActionRegister := v\<rparr>)"
  "keeps_key (\<lambda>T. T\<lparr>m_inEventActionRegister := v, m_lastFireEventAction := i\<rparr>)"
  by (simp_all add: keeps_key_def)

lemma clock_fields [simp]:
  "tp_heap (snd (monotonicallyIncreasingTime p)) = tp_heap p" "tp_changes (snd (monotonicallyIncreasingTime p)) = tp_changes p"
  "tp_firing (snd (monotonicallyIncreasingTime p)) = tp_firing p" "tp_clock (snd (monotonicallyIncreasingTime p)) = tp_clock p"
  "tp_reads (snd (monotonicallyIncreasingTime p)) = tp_reads p + 1" "fst (monotonicallyIncreasingTime p) = tp_clock p (tp_reads p)"
  by (simp_all add: monotonicallyIncreasingTime_def)

lemma clock_le: "page_le p (snd (monotonicallyIncreasingTime p))"
  by (simp add: page_le_def page_ok_def)

lemma updateSharedTimer_fields [simp]:
  "tp_heap (updateSharedTimer p) = tp_heap p" "tp_changes (updateSharedTimer p) = tp_changes p"
  "tp_firing (updateSharedTimer p) = tp_firing p" "tp_clock (updateSharedTimer p) = tp_clock p"
  "tp_reads p \<le> tp_reads (updateSharedTimer p)"
  by (simp_all add: updateSharedTimer_def case_prod_unfold Let_def)

lemma updateSharedTimer_le: "page_le p (updateSharedTimer p)"
  by (simp add: page_le_def page_ok_def)

lemma starter_ok: "\<exists>e. starter hb = Inr e"
  by (auto simp: starter_def HBIsCurrentEventActionValid_def isCurrentEventActionValid_def HBCurrentEventAction_def
      checkInValidEventAction_def get_currentEventAction_def HBIsLastUIEventActionValid_def isLastUIEventActionValid_def
      HBLastUIEventAction_def get_lastUIEventAction_def)

lemma checkConsistency_ok: "heap_ok n S \<Longrightarrow> checkConsistency t S = Inr ()"
proof -
  assume ok: "heap_ok n S"
  have "inHeap (timers S t) = (m_nextFireTime (timers S t) \<noteq> At 0)"
  proof (cases "t \<in> set (timerHeap S)")
    case True
    then obtain i where "i < length (timerHeap S)" "timerHeap S ! i = t" by (auto simp: in_set_conv_nth)
    then have "m_heapIndex (timers S t) = int i" using ok by (auto simp: heap_ok_def all_indexed_def)
    then show ?thesis using True ok by (simp add: inHeap_def heap_ok_def)
  qed (use ok in \<open>simp add: inHeap_def heap_ok_def\<close>)
  moreover have "checkHeapIndex t S = Inr ()" if "m_nextFireTime (timers S t) \<noteq> At 0"
    using ok that by (intro checkHeapIndex_ok) (auto simp: heap_ok_def)
  ultimately show ?thesis by (simp add: checkConsistency_def Let_def)
qed

text \<open>What no change of a fire time touches.\<close>

definition same_settings :: "TimerBase \<Rightarrow> TimerBase \<Rightarrow> bool" where
  "same_settings T T' = (m_repeatInterval T' = m_repeatInterval T \<and> m_inEventActionRegister T' = m_inEventActionRegister T
     \<and> m_eventActionDescriptor T' = m_eventActionDescriptor T \<and> m_lastFireEventAction T' = m_lastFireEventAction T)"

lemma same_settings_refl [simp]: "same_settings T T"
  by (simp add: same_settings_def)

lemma moved_settings: "moved X S S' \<Longrightarrow> same_settings (timers S x) (timers S' x)"
  unfolding moved_def same_settings_def
  by (metis TimerBase.select_convs TimerBase.surjective TimerBase.update_convs(3))

text \<open>Setting a fire time never fails: neither an assertion nor the recorder.\<close>

lemma setNextFireTime_ok:
  assumes "heap_ok (tp_changes p) (tp_heap p)" "tp_changes p + 1 < 2 ^ 31 - 1"
  shows "\<exists>p' cs. setNextFireTime t a i hb p = Inr (p', cs) \<and> heap_ok (tp_changes p') (tp_heap p')
     \<and> m_nextFireTime (timer p' t) = At a \<and> (\<forall>x. x \<noteq> t \<longrightarrow> m_nextFireTime (timer p' x) = m_nextFireTime (timer p x))
     \<and> (\<forall>x. same_settings (timer p x) (timer p' x))"
proof (cases "m_nextFireTime (timer p t) = At a")
  case True
  then show ?thesis using checkConsistency_ok [OF assms(1)] assms(1) by (simp add: setNextFireTime_def)
next
  case False
  obtain e where e: "starter hb = Inr e" using starter_ok by blast
  define p1 where "p1 = (if a \<noteq> 0 then modify_timer t (\<lambda>T. T\<lparr>m_nextFireInterval := i, m_starterEventAction := e\<rparr>) p else p)"
  have p1: "heap_ok (tp_changes p) (tp_heap p1)" "m_nextFireTime (timer p1 x) = m_nextFireTime (timer p x)" "tp_changes p1 = tp_changes p" for x
    using assms(1) by (simp_all add: p1_def heap_ok_update keeps_key_fields)
  obtain S' where S': "change_key t a (tp_heap p1) = Inr S'" "heap_ok (tp_changes p + 1) S'"
    "moved (insert t (set (timerHeap (tp_heap p1)))) (keyed t a (tp_heap p1)) S'"
    using change_key_ok [OF p1(1) assms(2), of t a] False p1(2) by auto
  have "m_nextFireTime (timers S' x) = (if x = t then At a else m_nextFireTime (timer p x))" for x
    using moved_keys [OF S'(3), of "{x}"] p1(2) by (auto simp: same_keys_def split: if_splits)
  moreover have "same_settings (timer p x) (timers S' x)" for x
    using moved_settings [OF S'(3)] by (auto simp: p1_def same_settings_def keyed_def timers_update_timer)
  ultimately have times: "same_settings (timer p x) (timers S' x)" "m_nextFireTime (timers S' t) = At a" "x \<noteq> t \<Longrightarrow> m_nextFireTime (timers S' x) = m_nextFireTime (timer p x)" for x
    by simp_all
  define p2 where "p2 = p1\<lparr>tp_heap := S', tp_changes := tp_changes p + 1\<rparr>"
  define p3 where "p3 = (if m_heapIndex (timer p1 t) = 0 \<or> m_heapIndex (timer p2 t) = 0 then updateSharedTimer p2 else p2)"
  have p3: "tp_heap p3 = S'" "tp_changes p3 = tp_changes p + 1" by (simp_all add: p3_def p2_def)
  have "setNextFireTime t a i hb p = Inr (p3, if a \<noteq> 0 then [HB_log (R_Trigger (int t))] else [])"
    using False e S'(1) p1(3) p3(1) checkConsistency_ok [OF S'(2)]
    by (cases "a = 0") (auto simp: setNextFireTime_def Let_def p3_def p2_def p1_def)
  then show ?thesis using S'(2) times p3 by auto
qed

lemma setNextFireTime_counts:
  assumes "setNextFireTime t a i hb p = Inr (p', cs)"
  shows "tp_changes p \<le> tp_changes p' \<and> tp_reads p \<le> tp_reads p' \<and> tp_clock p' = tp_clock p \<and> tp_changes p' \<le> tp_changes p + 1
      \<and> (tp_changes p' = tp_changes p \<longrightarrow> p' = p)"
  using assms by (auto simp: setNextFireTime_def Let_def split: if_splits intro: order_trans [OF _ updateSharedTimer_fields(5)])

lemma setNextFireTime_le:
  assumes "setNextFireTime t a i hb p = Inr (p', cs)"
  shows "page_le p p'"
proof -
  note counts = setNextFireTime_counts [OF assms]
  have "page_ok p'" if "page_ok p"
  proof (cases "tp_changes p' = tp_changes p")
    case False
    then have n: "tp_changes p' = tp_changes p + 1" using counts by simp
    show ?thesis unfolding page_ok_def
    proof
      assume "tp_changes p' < 2 ^ 31 - 1"
      then show "heap_ok (tp_changes p') (tp_heap p')"
        using setNextFireTime_ok [of p t a i hb] that assms n by (auto simp: page_ok_def)
    qed
  qed (use that counts in simp)
  then show ?thesis using counts by (simp add: page_le_def)
qed

lemma timer_start_le: "timer_start t n r hb p = Inr (p', cs) \<Longrightarrow> page_le p p'"
  unfolding timer_start_def Let_def case_prod_unfold
  by (drule setNextFireTime_le, rule page_le_trans [OF modify_timer_le page_le_trans [OF clock_le]]) simp_all

lemma timer_stop_le: "timer_stop t hb p = Inr (p', ds, cs) \<Longrightarrow> page_le p p'"
  using modify_timer_le [of "\<lambda>T. T\<lparr>m_repeatInterval := 0\<rparr>" p t]
  by (auto simp: timer_stop_def Let_def split: if_splits dest!: setNextFireTime_le intro: page_le_trans)

lemma augmentFire_le: "augmentFireInterval t x hb p = Inr (p', cs) \<Longrightarrow> page_le p p'"
  by (auto simp: augmentFireInterval_def split: fire_time.splits dest: setNextFireTime_le)

lemma augmentRepeat_le: "augmentRepeatInterval t x hb p = Inr (p', cs) \<Longrightarrow> page_le p p'"
  by (auto simp: augmentRepeatInterval_def dest!: augmentFire_le intro: page_le_trans [OF _ modify_timer_le])

lemma nested_le: "page_le p (fireTimersInNestedEventLoop p)"
  using updateSharedTimer_fields [of "p\<lparr>tp_firing := False\<rparr>"]
  by (simp add: fireTimersInNestedEventLoop_def page_le_def page_ok_def)

lemma timer_act_le: "timer_act c w = Inr (p', ds, cs) \<Longrightarrow> page_le (w_page w) p'"
  by (cases c) (auto dest: timer_start_le timer_stop_le augmentFire_le augmentRepeat_le intro: modify_timer_le nested_le)

lemma fireTimerCallback_le: "fireTimerCallback t w = Inr (p', ds, cs) \<Longrightarrow> page_le (w_page w) p'"
proof -
  assume f: "fireTimerCallback t w = Inr (p', ds, cs)"
  let ?p1 = "modify_timer t (\<lambda>T. T\<lparr>m_inEventActionRegister := False,
     m_lastFireEventAction := (if HBIsCurrentEventActionValid (w_hb w) then hb_currentEventActionId (w_hb w) else 0)\<rparr>) (w_page w)"
  obtain p2 a i cs' where p2: "p2 = ?p1 \<or> p2 = snd (monotonicallyIncreasingTime ?p1)" "setNextFireTime t a i (w_hb w) p2 = Inr (p', cs')"
    using f by (auto simp: fireTimerCallback_def Let_def case_prod_unfold split: if_splits)
  have "page_le (w_page w) ?p1" by (rule modify_timer_le) simp
  moreover have "page_le ?p1 p2" using p2(1) clock_le by auto
  ultimately show ?thesis using setNextFireTime_le [OF p2(2)] page_le_trans by blast
qed

section \<open>The schedulers and the timers\<close>

interpretation tp: page_step page_le H "timer_handler fired" for H :: string_hash and fired :: fired_fun
proof
  fix x h d w w1 w2 assume "x \<in> set (snd (timer_handler fired h d w))" "exec_op H x w1 = Inr w2"
  then consider "x = Op_act (fireTimerCallback (nat (h_object h)))" | c where "x = Op_act (timer_act c)"
    by (auto simp: timer_handler_def fire_ops_def)
  then show "page_le (w_page w1) (w_page w2)"
    using \<open>exec_op H x w1 = Inr w2\<close> by cases (auto dest: fireTimerCallback_le timer_act_le)
qed (auto intro: page_le_trans)

text \<open>What the thread relies on: a scheduler keeps the register consistent and respects the timers.\<close>

definition thread_le :: "thread_world \<Rightarrow> thread_world \<Rightarrow> bool" where
  "thread_le w w' = ((reg_inv (w_reg w) \<longrightarrow> reg_inv (w_reg w')) \<and> page_le (w_page w) (w_page w'))"

locale thread_scheduler =
  fixes SC :: "'s Scheduler"
  assumes scheduled_le: "sc_scheduled SC d s w = Inr (s', w') \<Longrightarrow> thread_le w w'"
    and execute_le: "sc_execute SC s w = Inr (s', w') \<Longrightarrow> thread_le w w'"

definition default_scheduler :: "string_hash \<Rightarrow> fired_fun \<Rightarrow> DefaultScheduler Scheduler" where
  "default_scheduler H fired = \<lparr>sc_scheduled = default_eventActionScheduled H (timer_handler fired),
     sc_descheduled = (\<lambda>d s. Inr (default_eventActionDescheduled d s)), sc_execute = default_executeDelayedEventActions\<rparr>"

definition timer_spec_env :: "string_hash \<Rightarrow> fired_fun \<Rightarrow> (bool \<Rightarrow> bool) \<Rightarrow> (EventActionDescriptor \<Rightarrow> thread_world \<Rightarrow> 32 word) \<Rightarrow>
    thread_page spec_env" where
  "timer_spec_env H fired rv finished = \<lparr>v_hash = H, v_run = timer_handler fired, v_rv = rv, v_finished = finished\<rparr>"

definition specification_scheduler :: "string_hash \<Rightarrow> fired_fun \<Rightarrow> (bool \<Rightarrow> bool) \<Rightarrow> (EventActionDescriptor \<Rightarrow> thread_world \<Rightarrow> 32 word) \<Rightarrow>
    SpecificationScheduler Scheduler" where
  "specification_scheduler H fired rv finished =
     \<lparr>sc_scheduled = (\<lambda>d s w. bindR (spec_eventActionScheduled d s) (\<lambda>s'. Inr (s', w))),
      sc_descheduled = spec_eventActionDescheduled,
      sc_execute = spec_executeDelayedEventActions (timer_spec_env H fired rv finished)\<rparr>"

definition timer_replay_env :: "string_hash \<Rightarrow> fired_fun \<Rightarrow> (string \<Rightarrow> nat) \<Rightarrow> (string \<Rightarrow> 'u) \<Rightarrow> 'u qurl \<Rightarrow> ('u, thread_page) replay_env" where
  "timer_replay_env H fired toULong url Q =
     \<lparr>e_hash = H, e_run = timer_handler fired, e_toULong = toULong, e_url = url, e_qurl = Q\<rparr>"

definition replay_scheduler :: "string_hash \<Rightarrow> fired_fun \<Rightarrow> (string \<Rightarrow> nat) \<Rightarrow> (string \<Rightarrow> 'u) \<Rightarrow> 'u qurl \<Rightarrow> 'd ReplayScheduler Scheduler" where
  "replay_scheduler H fired toULong url Q =
     \<lparr>sc_scheduled = eventActionScheduled (timer_replay_env H fired toULong url Q),
      sc_descheduled = (\<lambda>d s. Inr (eventActionDescheduled d s)),
      sc_execute = executeDelayedEventActions (timer_replay_env H fired toULong url Q)\<rparr>"

interpretation ds: thread_scheduler "default_scheduler H fired" for H fired
  by unfold_locales
    (auto simp: default_scheduler_def thread_le_def default_executeDelayedEventActions_def
      dest: tp.default_W rw.default_W [THEN mp])

interpretation ss: thread_scheduler "specification_scheduler H fired rv finished" for H fired rv finished
  by unfold_locales
    (auto simp: specification_scheduler_def thread_le_def timer_spec_env_def
      dest: tp.spec_tick_W [rotated 2] rw.spec_tick_W [rotated 2, THEN mp])

interpretation rs: thread_scheduler "replay_scheduler H fired toULong url Q" for H fired toULong url Q
  by unfold_locales
    (auto simp: replay_scheduler_def thread_le_def timer_replay_env_def eventActionScheduled_def executeDelayedEventActions_def
      dest: tp.replay_tick_W [rotated 2] rw.replay_tick_W [rotated 2, THEN mp])

section \<open>Threads\<close>

lemma thread_le_refl [simp]: "thread_le w w"
  by (simp add: thread_le_def)

lemma thread_le_trans: "thread_le w1 w2 \<Longrightarrow> thread_le w2 w3 \<Longrightarrow> thread_le w1 w3"
  by (auto simp: thread_le_def intro: page_le_trans)

lemma page_change_le: "page_le (w_page w) p \<Longrightarrow> thread_le w (w\<lparr>w_page := p\<rparr>)"
  by (simp add: thread_le_def)

lemma setSharedTimer_le: "page_le p (setSharedTimer b p)"
proof -
  let ?p1 = "(if tp_sharedTimer p then p\<lparr>tp_fireInterval := None\<rparr> else p)\<lparr>tp_sharedTimer := b\<rparr>"
  have "page_le p ?p1" by (simp add: page_le_def page_ok_def)
  moreover have "setSharedTimer b p = ?p1 \<or> setSharedTimer b p = updateSharedTimer ?p1"
    by (simp add: setSharedTimer_def Let_def)
  ultimately show ?thesis using updateSharedTimer_le page_le_trans by fastforce
qed

lemma firing_le: "page_le p (p\<lparr>tp_firing := b\<rparr>)"
  by (simp add: page_le_def page_ok_def)

lemma timer_ops_le:
  assumes "exec_ops H ops w = Inr w'" "set ops \<subseteq> {Op_act (fireTimerCallback t)} \<union> range (\<lambda>c. Op_act (timer_act c))"
  shows "thread_le w w'"
  using assms
proof (induction ops arbitrary: w)
  case (Cons x ops)
  then obtain w1 where w1: "exec_op H x w = Inr w1" "exec_ops H ops w1 = Inr w'" by auto
  consider "x = Op_act (fireTimerCallback t)" | c where "x = Op_act (timer_act c)" using Cons.prems(2) by auto
  then have "page_le (w_page w) (w_page w1)" using w1(1) by cases (auto dest: fireTimerCallback_le timer_act_le)
  moreover have "reg_inv (w_reg w) \<longrightarrow> reg_inv (w_reg w1)" using exec_op_inv w1(1) by blast
  ultimately have "thread_le w w1" by (simp add: thread_le_def)
  then show ?case using Cons.IH [OF w1(2)] Cons.prems(2) thread_le_trans by auto
qed simp

lemma page_calls_le:
  assumes "page_calls SC H ops s w = Inr (s', w')" "set ops \<subseteq> {Op_act (fireTimerCallback t)} \<union> range (\<lambda>c. Op_act (timer_act c))"
  shows "thread_le w w'"
  using assms timer_ops_le by (auto simp: page_calls_def)

lemma take_first_le:
  assumes "timerHeap (tp_heap p) = t # ts" "heapDelete t (update_timer t (\<lambda>T. T\<lparr>m_nextFireTime := At 0\<rparr>) (tp_heap p)) = Inr S"
  shows "page_le p (p\<lparr>tp_heap := S\<rparr>)"
  using assms heapDelete_first [of "tp_changes p" "tp_heap p" t ts] by (auto simp: page_le_def page_ok_def)

context thread_scheduler
begin

lemma fire_first_le:
  assumes "fire_first SC H fired t s w = Inr (s', w')" "timerHeap (tp_heap (w_page w)) = t # ts"
  shows "thread_le w w'"
proof -
  obtain S where S: "heapDelete t (update_timer t (\<lambda>T. T\<lparr>m_nextFireTime := At 0\<rparr>) (tp_heap (w_page w))) = Inr S"
    using assms(1) by (auto simp: fire_first_def)
  let ?w1 = "w\<lparr>w_page := (w_page w)\<lparr>tp_heap := S\<rparr>\<rparr>"
  let ?d = "m_eventActionDescriptor (timer (w_page ?w1) t)"
  let ?w2 = "?w1\<lparr>w_page := modify_timer t (\<lambda>T. T\<lparr>m_inEventActionRegister := True\<rparr>) (w_page ?w1),
     w_reg := registerEventActionHandler ?d \<lparr>h_object = int t, h_function = 0\<rparr> (w_reg ?w1)\<rparr>"
  have w1: "thread_le w ?w1" using page_change_le [OF take_first_le [OF assms(2) S]] .
  have "page_le (w_page ?w1) (modify_timer t (\<lambda>T. T\<lparr>m_inEventActionRegister := True\<rparr>) (w_page ?w1))"
    by (rule modify_timer_le) simp
  then have w2: "thread_le ?w1 ?w2" by (auto simp: thread_le_def intro: reg_inv_register)
  have "page_calls SC H (fire_ops fired t ?w1) s ?w1 = Inr (s', w') \<or> sc_scheduled SC ?d s ?w2 = Inr (s', w')"
    using assms(1) S by (auto simp: fire_first_def Let_def split: if_splits)
  then show ?thesis
  proof
    assume "page_calls SC H (fire_ops fired t ?w1) s ?w1 = Inr (s', w')"
    then have "thread_le ?w1 w'" by (rule page_calls_le [where t = t]) (auto simp: fire_ops_def)
    then show ?thesis by (rule thread_le_trans [OF w1])
  qed (use thread_le_trans w1 w2 scheduled_le in blast)
qed

lemma fire_loop_le: "fire_loop SC H fired f q n s w = Some (Inr (s', w')) \<Longrightarrow> thread_le w w'"
proof (induction n arbitrary: s w)
  case (Suc n)
  show ?case
  proof (cases "timerHeap (tp_heap (w_page w))")
    case (Cons t ts)
    show ?thesis
    proof (cases "m_nextFireTime (timer (w_page w) t) \<le> At f")
      case True
      then obtain s1 w1 where f1: "fire_first SC H fired t s w = Inr (s1, w1)"
        using Suc.prems Cons by (auto split: sum.splits prod.splits)
      let ?w2 = "w1\<lparr>w_page := snd (monotonicallyIncreasingTime (w_page w1))\<rparr>"
      have w1: "thread_le w w1" by (rule fire_first_le [OF f1 Cons])
      then have w2: "thread_le w ?w2" by (rule thread_le_trans) (intro page_change_le clock_le)
      have "w' = w1 \<or> w' = ?w2 \<or> fire_loop SC H fired f q n s1 ?w2 = Some (Inr (s', w'))"
        using Suc.prems Cons True f1 by (auto simp: Let_def case_prod_unfold split: if_splits)
      then show ?thesis using w1 w2 Suc.IH thread_le_trans by blast
    qed (use Suc.prems Cons in simp)
  qed (use Suc.prems in simp)
qed simp

lemma shared_fired_le:
  assumes "sharedTimerFiredInternal SC H fired n s w = Inr (s', w')"
  shows "thread_le w w'"
proof (cases "tp_firing (w_page w)")
  case False
  let ?p0 = "(w_page w)\<lparr>tp_firing := True\<rparr>"
  let ?p = "snd (monotonicallyIncreasingTime ?p0)" and ?f = "fst (monotonicallyIncreasingTime ?p0)"
  obtain s1 w1 s2 w2 where r: "fire_loop SC H fired ?f (?f + 50000) n s (w\<lparr>w_page := ?p\<rparr>) = Some (Inr (s1, w1))"
    "sc_execute SC s1 w1 = Inr (s2, w2)" "w' = w2\<lparr>w_page := updateSharedTimer ((w_page w2)\<lparr>tp_firing := False\<rparr>)\<rparr>"
    using assms False by (auto simp: sharedTimerFiredInternal_def case_prod_unfold Let_def split: option.splits)
  have "thread_le w (w\<lparr>w_page := ?p\<rparr>)" by (intro page_change_le page_le_trans [OF firing_le clock_le])
  moreover have "thread_le w2 w'" unfolding r(3) by (intro page_change_le page_le_trans [OF firing_le updateSharedTimer_le])
  ultimately show ?thesis using fire_loop_le [OF r(1)] execute_le [OF r(2)] thread_le_trans by blast
qed (use assms in \<open>simp add: sharedTimerFiredInternal_def\<close>)

lemma thread_step_le: "thread_step SC H fired c s w = Inr (s', w') \<Longrightarrow> thread_le w w'"
  by (cases c) (auto intro: shared_fired_le page_change_le setSharedTimer_le page_calls_le)

lemma thread_run_le: "thread_run SC H fired cs s w = Inr (s', w') \<Longrightarrow> thread_le w w'"
  by (induction cs arbitrary: s w) (auto dest!: thread_step_le intro: thread_le_trans)

end

text \<open>A thread as R4 sets it up: with one of the three schedulers and all that it relies on.\<close>

datatype ('u, 'd) installed =
  Default DefaultScheduler
  | Specification SpecificationScheduler "bool \<Rightarrow> bool" "EventActionDescriptor \<Rightarrow> thread_world \<Rightarrow> 32 word"
  | Replay "'d ReplayScheduler" "string \<Rightarrow> nat" "string \<Rightarrow> 'u" "'u qurl"

text \<open>The world after a sequence of calls.\<close>

fun thread_world_after :: "('u, 'd) installed \<Rightarrow> string_hash \<Rightarrow> fired_fun \<Rightarrow> thread_call list \<Rightarrow> thread_world \<Rightarrow> thread_world result" where
  "thread_world_after (Default s) H fired cs w =
     bindR (thread_run (default_scheduler H fired) H fired cs s w) (\<lambda>(s', w'). Inr w')"
| "thread_world_after (Specification s rv finished) H fired cs w =
     bindR (thread_run (specification_scheduler H fired rv finished) H fired cs s w) (\<lambda>(s', w'). Inr w')"
| "thread_world_after (Replay s toULong url Q) H fired cs w =
     bindR (thread_run (replay_scheduler H fired toULong url Q) H fired cs s w) (\<lambda>(s', w'). Inr w')"

lemma world_after_le: "thread_world_after I H fired cs w = Inr w' \<Longrightarrow> thread_le w w'"
  by (cases I) (auto dest: ds.thread_run_le ss.thread_run_le rs.thread_run_le)

abbreviation thread_after :: "('u, 'd) installed \<Rightarrow> string_hash \<Rightarrow> fired_fun \<Rightarrow> (nat \<Rightarrow> int) \<Rightarrow> thread_call list \<Rightarrow> thread_world result" where
  "thread_after I H fired clock cs \<equiv> thread_world_after I H fired cs (new_world (new_thread_page clock))"

lemma new_page_ok: "page_ok (new_thread_page clock)"
proof -
  have "heap_ok 0 \<lparr>timers = (\<lambda>_. new_TimerBase), timerHeap = [], currentHeapInsertionOrder = 0\<rparr>"
    by (simp add: heap_ok_def all_indexed_def th.is_heap_def ages_ok_def new_TimerBase_def)
  then show ?thesis unfolding new_thread_page_def using setSharedTimer_le
    by (simp add: page_le_def page_ok_def)
qed

lemma after_heap_ok:
  assumes "thread_after I H fired clock cs = Inr w" "tp_changes (w_page w) < 2 ^ 31 - 1"
  shows "heap_ok (tp_changes (w_page w)) (tp_heap (w_page w))"
  using world_after_le [OF assms(1)] new_page_ok assms(2) by (simp add: thread_le_def page_le_def page_ok_def new_world_def)

lemma heap_first_earliest:
  assumes "heap_ok n S" "n < 2 ^ 31 - 1" "timerHeap S = t # ts" "x \<in> set ts"
  shows "m_nextFireTime (timers S t) < m_nextFireTime (timers S x)
     \<or> m_nextFireTime (timers S t) = m_nextFireTime (timers S x)
       \<and> age (currentHeapInsertionOrder S) (timers S x) < age (currentHeapInsertionOrder S) (timers S t)"
proof -
  let ?c = "currentHeapInsertionOrder S"
  have S: "all_indexed S" "th.is_heap (timers S) (length (timerHeap S)) (timerHeap S)" "ages_ok n ?c (timers S) (set (timerHeap S))"
    using assms(1) by (simp_all add: heap_ok_def)
  obtain i where i: "i < length (timerHeap S)" "timerHeap S ! i = x" using assms(3,4) by (auto simp: in_set_conv_nth Suc_le_eq intro: that [of "Suc _"])
  have tx: "t \<noteq> x" using all_indexed_distinct [OF S(1)] assms(3,4) by auto
  have "TimerHeapLessThan (timers S) x t"
    using th.heap_first [OF ages_window [OF S(3) assms(2)] subset_refl S(2) i(1)] tx i(2) assms(3) by (simp add: th.before_def)
  moreover have ages: "age ?c (timers S x) \<le> n" "age ?c (timers S t) \<le> n" "age ?c (timers S x) \<noteq> age ?c (timers S t)"
    using S(3) assms(3,4) tx by (auto simp: ages_ok_def inj_on_def)
  ultimately show ?thesis using less_than_key [of ?c "timers S" x t] assms(2) by auto
qed

lemma timer_start_ok:
  assumes "heap_ok (tp_changes p) (tp_heap p)" "tp_changes p + 1 < 2 ^ 31 - 1"
  shows "\<exists>p' cs. timer_start t n r hb p = Inr (p', cs) \<and> m_nextFireTime (timer p' t) = At (tp_clock p (tp_reads p) + n)
     \<and> m_repeatInterval (timer p' t) = r \<and> (\<forall>x. x \<noteq> t \<longrightarrow> m_nextFireTime (timer p' x) = m_nextFireTime (timer p x))"
proof -
  let ?p2 = "snd (monotonicallyIncreasingTime (modify_timer t (\<lambda>T. T\<lparr>m_repeatInterval := r\<rparr>) p))"
  have "heap_ok (tp_changes ?p2) (tp_heap ?p2)" "tp_changes ?p2 + 1 < 2 ^ 31 - 1" using assms by (simp_all add: heap_ok_update)
  from setNextFireTime_ok [OF this, of t "tp_clock p (tp_reads p) + n" n hb] show ?thesis
    by (auto simp: timer_start_def Let_def case_prod_unfold same_settings_def timers_update_timer)
qed

lemma timer_stop_ok:
  assumes "heap_ok (tp_changes p) (tp_heap p)" "tp_changes p + 1 < 2 ^ 31 - 1"
  shows "\<exists>p' cs. timer_stop t hb p = Inr (p', if m_inEventActionRegister (timer p t) then [m_eventActionDescriptor (timer p t)] else [], cs)
     \<and> m_nextFireTime (timer p' t) = At 0 \<and> m_inEventActionRegister (timer p' t) = m_inEventActionRegister (timer p t)
     \<and> m_eventActionDescriptor (timer p' t) = m_eventActionDescriptor (timer p t)
     \<and> heap_ok (tp_changes p') (tp_heap p') \<and> tp_changes p' \<le> tp_changes p + 1"
proof -
  let ?p1 = "modify_timer t (\<lambda>T. T\<lparr>m_repeatInterval := 0\<rparr>) p"
  have "heap_ok (tp_changes ?p1) (tp_heap ?p1)" "tp_changes ?p1 + 1 < 2 ^ 31 - 1" using assms by (simp_all add: heap_ok_update)
  from setNextFireTime_ok [OF this, of t 0 0 hb] obtain p' cs where
    p': "setNextFireTime t 0 0 hb ?p1 = Inr (p', cs)" "heap_ok (tp_changes p') (tp_heap p')" "m_nextFireTime (timer p' t) = At 0"
    "same_settings (timer ?p1 t) (timer p' t)" by auto
  have "tp_changes p' \<le> tp_changes p + 1" using setNextFireTime_counts [OF p'(1)] by simp
  moreover have "\<not> inHeap (timer p' t)" using p'(2,3) by (auto simp: heap_ok_def inHeap_def)
  ultimately show ?thesis using p' by (simp add: timer_stop_def Let_def same_settings_def timers_update_timer)
qed

lemma augmentFire_ok:
  assumes "heap_ok (tp_changes p) (tp_heap p)" "tp_changes p + 1 < 2 ^ 31 - 1"
  shows "\<exists>p' cs. augmentFireInterval t x hb p = Inr (p', cs)"
proof (cases "m_nextFireTime (timer p t)")
  case (At a)
  obtain p' cs where "setNextFireTime t (a + x) x hb p = Inr (p', cs)" using setNextFireTime_ok [OF assms] by blast
  then show ?thesis using At by (simp add: augmentFireInterval_def)
qed (use assms(1) in \<open>simp add: heap_ok_def\<close>)

lemma timer_act_ok:
  assumes ok: "heap_ok (tp_changes (w_page w)) (tp_heap (w_page w))" "tp_changes (w_page w) + 1 < 2 ^ 31 - 1"
  shows "\<exists>r. timer_act c w = Inr r"
proof (cases c)
  case (TC_start t n r)
  obtain p' cs where "timer_start t n r (w_hb w) (w_page w) = Inr (p', cs)" using timer_start_ok [OF ok] by blast
  then show ?thesis using TC_start by simp
next
  case (TC_stop t)
  then show ?thesis using timer_stop_ok [OF ok, of t "w_hb w"] by auto
next
  case (TC_augmentFire t x)
  obtain p' cs where "augmentFireInterval t x (w_hb w) (w_page w) = Inr (p', cs)" using augmentFire_ok [OF ok] by blast
  then show ?thesis using TC_augmentFire by simp
next
  case (TC_augmentRepeat t x)
  obtain p' cs where "augmentFireInterval t x (w_hb w) (w_page w) = Inr (p', cs)" using augmentFire_ok [OF ok] by blast
  then show ?thesis using TC_augmentRepeat by (simp add: augmentRepeatInterval_def)
qed simp_all

text \<open>
  C26: Whatever a page does with its timers and whichever scheduler is installed, the heap of timers stays in order:
  every timer knows its place, a timer is in the heap exactly when it has a fire time, and the first one is due before
  every other, or at the same time and was set earlier. (The insertion counter has 32 bits; the order is
  guaranteed for fewer than \<open>2 ^ 31 - 1\<close> changes of fire times.)
\<close>

theorem timers_in_order:
  assumes "thread_after I H fired clock cs = Inr w" "tp_changes (w_page w) < 2 ^ 31 - 1"
  shows "(\<forall>i < length (timerHeap (tp_heap (w_page w))). m_heapIndex (timer (w_page w) (timerHeap (tp_heap (w_page w)) ! i)) = int i)
     \<and> (\<forall>t. t \<in> set (timerHeap (tp_heap (w_page w))) \<longleftrightarrow> m_nextFireTime (timer (w_page w) t) \<noteq> At 0)
     \<and> (\<forall>t ts. timerHeap (tp_heap (w_page w)) = t # ts \<longrightarrow> (\<forall>x \<in> set ts.
          m_nextFireTime (timer (w_page w) t) < m_nextFireTime (timer (w_page w) x)
          \<or> m_nextFireTime (timer (w_page w) t) = m_nextFireTime (timer (w_page w) x)
            \<and> age (currentHeapInsertionOrder (tp_heap (w_page w))) (timer (w_page w) x)
              < age (currentHeapInsertionOrder (tp_heap (w_page w))) (timer (w_page w) t)))"
proof (intro conjI allI impI ballI)
  note ok = after_heap_ok [OF assms]
  show "m_heapIndex (timer (w_page w) (timerHeap (tp_heap (w_page w)) ! i)) = int i" if "i < length (timerHeap (tp_heap (w_page w)))" for i
    using ok that by (simp add: heap_ok_def all_indexed_def)
  show "t \<in> set (timerHeap (tp_heap (w_page w))) \<longleftrightarrow> m_nextFireTime (timer (w_page w) t) \<noteq> At 0" for t
    using ok by (simp add: heap_ok_def)
qed (rule heap_first_earliest [OF after_heap_ok [OF assms] assms(2)])


definition three_timers :: "thread_world result" where
  "three_timers = thread_after (Default new_DefaultScheduler :: (unit, unit) installed) (\<lambda>_. 0) (\<lambda>t w. []) (\<lambda>n. 1000 * int n)
     [Th_page (TC_start 1 5000 0), Th_page (TC_start 2 2000 0), Th_page (TC_start 3 0 0)]"

lemma three_timers_ok:
  "thread_after (Default new_DefaultScheduler :: (unit, unit) installed) (\<lambda>_. 0) (\<lambda>t w. []) (\<lambda>n. 1000 * int n)
     [Th_page (TC_start 1 5000 0), Th_page (TC_start 2 2000 0), Th_page (TC_start 3 0 0)] = Inr (projr three_timers)"
  "tp_changes (w_page (projr three_timers)) = 3"
proof -
  have "\<not> isl three_timers" by code_simp
  then have "three_timers = Inr (projr three_timers)" by simp
  then show "thread_after (Default new_DefaultScheduler :: (unit, unit) installed) (\<lambda>_. 0) (\<lambda>t w. []) (\<lambda>n. 1000 * int n)
     [Th_page (TC_start 1 5000 0), Th_page (TC_start 2 2000 0), Th_page (TC_start 3 0 0)] = Inr (projr three_timers)"
    by (subst three_timers_def [symmetric])
qed code_simp

theorem timers_in_order_witness:
  "\<forall>t. t \<in> set (timerHeap (tp_heap (w_page (projr three_timers)))) \<longleftrightarrow> m_nextFireTime (timer (w_page (projr three_timers)) t) \<noteq> At 0"
  using timers_in_order [OF three_timers_ok(1)] three_timers_ok(2) by simp



end
