(* ===== verification/Timer_Firing.thy ===== *)
theory Timer_Firing
  imports Thread_Timers
begin

text \<open>
  What the firing of timers guarantees: the loop of \<open>ThreadTimers::sharedTimerFiredInternal\<close> ends, the shared
  timer is armed again in time, and a timer fires after the event action that started it in the recorded
  happens-before relation.
\<close>

section \<open>The loop ends\<close>

context thread_scheduler
begin

text \<open>Every round reads the clock, and the loop is left when a reading is past its limit.\<close>

lemma fire_loop_returns:
  assumes "mono clock" "limit < clock k"
  shows "tp_clock (w_page w) = clock \<Longrightarrow> 0 < n \<Longrightarrow> k < tp_reads (w_page w) + n \<Longrightarrow> fire_loop SC H fired f limit n s w \<noteq> None"
proof (induction n arbitrary: s w)
  case (Suc n)
  show ?case
  proof (cases "timerHeap (tp_heap (w_page w))")
    case (Cons t ts)
    show ?thesis
    proof (cases "m_nextFireTime (timer (w_page w) t) \<le> At f \<and> (\<exists>r. fire_first SC H fired t s w = Inr r)")
      case True
      then obtain s1 w1 where f1: "fire_first SC H fired t s w = Inr (s1, w1)" by auto
      have w1: "tp_clock (w_page w1) = clock" "tp_reads (w_page w) \<le> tp_reads (w_page w1)"
        using fire_first_le [OF f1 Cons] Suc.prems(1) by (simp_all add: thread_le_def page_le_def)
      have "fire_loop SC H fired f limit n s1 (w1\<lparr>w_page := snd (monotonicallyIncreasingTime (w_page w1))\<rparr>) \<noteq> None"
        if "clock (tp_reads (w_page w1)) \<le> limit"
      proof (rule Suc.IH)
        have "tp_reads (w_page w1) < k" using that assms by (meson monoD not_less order_trans not_le)
        then show "0 < n" using w1(2) Suc.prems(3) by simp
      qed (use w1 Suc.prems(3) in simp_all)
      then show ?thesis using Cons True f1 w1(1) by (auto simp: Let_def case_prod_unfold)
    qed (use Cons in \<open>auto split: sum.splits\<close>)
  qed simp
qed simp

end

text \<open>
  C28: The loop that fires the due timers ends, however many timers are due and whatever they start when they fire, as
  long as the clock never goes back and gets past the time limit: with any of the schedulers the number of
  rounds is bounded by the number of readings up to then.
\<close>

theorem fire_loop_ends:
  assumes "mono (tp_clock (w_page w))" "timeToQuit < tp_clock (w_page w) k" "k < n"
  shows "(\<exists>r. fire_loop (default_scheduler H fired) H fired fireTime timeToQuit n s1 w = Some r)
     \<and> (\<exists>r. fire_loop (specification_scheduler H fired rv finished) H fired fireTime timeToQuit n s2 w = Some r)
     \<and> (\<exists>r. fire_loop (replay_scheduler H fired toULong url Q) H fired fireTime timeToQuit n s3 w = Some r)"
  using ds.fire_loop_returns [OF assms(1,2) refl, of n] ss.fire_loop_returns [OF assms(1,2) refl, of n]
    rs.fire_loop_returns [OF assms(1,2) refl, of n] assms(3) by simp

theorem fire_loop_ends_witness:
  "\<exists>r. fire_loop (default_scheduler (\<lambda>_. 0) (\<lambda>t w. [TC_start t 0 0])) (\<lambda>_. 0) (\<lambda>t w. [TC_start t 0 0]) 0 50000 61 new_DefaultScheduler
     (new_world (new_thread_page (\<lambda>n. 1000 * int n))) = Some r"
proof -
  have clock: "tp_clock (w_page (new_world (new_thread_page (\<lambda>n. 1000 * int n)))) = (\<lambda>n. 1000 * int n)"
    using setSharedTimer_le by (simp add: new_world_def new_thread_page_def page_le_def)
  have "mono (tp_clock (w_page (new_world (new_thread_page (\<lambda>n. 1000 * int n)))))"
    "50000 < tp_clock (w_page (new_world (new_thread_page (\<lambda>n. 1000 * int n)))) 60" by (simp_all add: clock mono_def)
  then show ?thesis by (rule fire_loop_ends [THEN conjunct1]) simp
qed

section \<open>The shared timer\<close>

lemma updateSharedTimer_arms:
  assumes "tp_sharedTimer p" "\<not> tp_firing p"
  shows "\<exists>i. tp_fireInterval (updateSharedTimer p) = Some i \<and> 0 \<le> i \<and> i \<le> 1000000
    \<and> (timerHeap (tp_heap p) = [] \<longrightarrow> i = 50000)
    \<and> (\<forall>t ts a. timerHeap (tp_heap p) = t # ts \<and> m_nextFireTime (timer p t) = At a \<longrightarrow>
         i \<le> max (a - tp_clock p (tp_reads p)) 0 \<and> tp_reads (updateSharedTimer p) = tp_reads p + 1)"
  using assms by (auto simp: updateSharedTimer_def monotonicallyIncreasingTime_def remaining_def split: fire_time.splits)

lemma updateSharedTimer_shared [simp]: "tp_sharedTimer (updateSharedTimer p) = tp_sharedTimer p"
  by (simp add: updateSharedTimer_def monotonicallyIncreasingTime_def)

text \<open>
  C29: A tick keeps the thread alive: when it returns, timers can fire again and the shared timer is set to the next
  tick, at most a second away and no later than the first timer of the heap is due, or in 50 milliseconds when
  the heap is empty.
\<close>

theorem tick_rearms:
  assumes "sharedTimerFiredInternal SC H fired n s w = Inr (s', w')" "\<not> tp_firing (w_page w)" "tp_sharedTimer (w_page w')"
  shows "\<not> tp_firing (w_page w')
    \<and> (\<exists>i. tp_fireInterval (w_page w') = Some i \<and> 0 \<le> i \<and> i \<le> 1000000
        \<and> (timerHeap (tp_heap (w_page w')) = [] \<longrightarrow> i = 50000)
        \<and> (\<forall>t ts a. timerHeap (tp_heap (w_page w')) = t # ts \<and> m_nextFireTime (timer (w_page w') t) = At a \<longrightarrow>
             i \<le> max (a - tp_clock (w_page w') (tp_reads (w_page w') - 1)) 0))"
proof -
  obtain w2 where w': "w' = w2\<lparr>w_page := updateSharedTimer ((w_page w2)\<lparr>tp_firing := False\<rparr>)\<rparr>"
    using assms(1,2) by (auto simp: sharedTimerFiredInternal_def case_prod_unfold Let_def)
  let ?p = "(w_page w2)\<lparr>tp_firing := False\<rparr>"
  have "tp_sharedTimer ?p" "\<not> tp_firing ?p" using assms(3) w' by simp_all
  from updateSharedTimer_arms [OF this] obtain i where
    i: "tp_fireInterval (updateSharedTimer ?p) = Some i" "0 \<le> i" "i \<le> 1000000"
    "timerHeap (tp_heap ?p) = [] \<longrightarrow> i = 50000"
    "\<forall>t ts a. timerHeap (tp_heap ?p) = t # ts \<and> m_nextFireTime (timer ?p t) = At a \<longrightarrow>
       i \<le> max (a - tp_clock ?p (tp_reads ?p)) 0 \<and> tp_reads (updateSharedTimer ?p) = tp_reads ?p + 1"
    by blast
  have w'_fields: "tp_fireInterval (w_page w') = Some i" "tp_heap (w_page w') = tp_heap ?p" "tp_clock (w_page w') = tp_clock ?p"
    "tp_reads (w_page w') = tp_reads (updateSharedTimer ?p)" "\<not> tp_firing (w_page w')"
    using i(1) by (simp_all add: w')
  show ?thesis
  proof (intro conjI exI allI impI)
    show "i \<le> max (a - tp_clock (w_page w') (tp_reads (w_page w') - 1)) 0"
      if "timerHeap (tp_heap (w_page w')) = t # ts \<and> m_nextFireTime (timer (w_page w') t) = At a" for t ts a
      using i(5) that by (simp add: w'_fields)
  qed (use i w'_fields in simp_all)
qed

theorem tick_rearms_witness:
  "\<exists>i. tp_fireInterval (w_page (snd (projr (sharedTimerFiredInternal (default_scheduler (\<lambda>_. 0) (\<lambda>t w. [])) (\<lambda>_. 0) (\<lambda>t w. []) 5
     new_DefaultScheduler (new_world (new_thread_page (\<lambda>n. 1000 * int n))))))) = Some i \<and> 0 \<le> i \<and> i \<le> 1000000"
proof -
  let ?w = "new_world (new_thread_page (\<lambda>n. 1000 * int n))"
  let ?r = "sharedTimerFiredInternal (default_scheduler (\<lambda>_. 0) (\<lambda>t w. [])) (\<lambda>_. 0) (\<lambda>t w. []) 5 new_DefaultScheduler ?w"
  have "\<not> isl ?r" "\<not> tp_firing (w_page ?w)" "tp_sharedTimer (w_page (snd (projr ?r)))" by code_simp+
  with tick_rearms [of _ _ _ 5 _ ?w "fst (projr ?r)" "snd (projr ?r)"] show ?thesis by fastforce
qed

section \<open>Happens-before\<close>

text \<open>In strict mode arcs are only added.\<close>

definition arcs_grow :: "hb_state \<Rightarrow> hb_state \<Rightarrow> bool" where
  "arcs_grow s s' = (hb_strict_inv s \<longrightarrow> hb_strict_inv s' \<and> set (hb_arcs s) \<subseteq> set (hb_arcs s'))"

lemma arcs_grow_refl [simp]: "arcs_grow s s"
  by (simp add: arcs_grow_def)

lemma arcs_grow_trans: "arcs_grow s1 s2 \<Longrightarrow> arcs_grow s2 s3 \<Longrightarrow> arcs_grow s1 s3"
  by (auto simp: arcs_grow_def)

lemma record_arc_grows: "record_arc a b d s = Inr s' \<Longrightarrow> arcs_grow s s'"
  using record_arc_strict [of s a b d s'] by (auto simp: arcs_grow_def)

lemma log_grows: "same_arcs (hb_log s) l \<Longrightarrow> arcs_grow s (s\<lparr>hb_log := l\<rparr>)"
  by (simp add: arcs_grow_def hb_inv_frame)

lemma arcs_grow_fields [simp]:
  "arcs_grow s (s'\<lparr>hb_currentEventActionId := x\<rparr>) = arcs_grow s s'" "arcs_grow s (s'\<lparr>hb_nextEventActionId := x\<rparr>) = arcs_grow s s'"
  "arcs_grow s (s'\<lparr>hb_lastUIEventAction := x\<rparr>) = arcs_grow s s'" "arcs_grow s (s'\<lparr>hb_lastEventAction := x\<rparr>) = arcs_grow s s'"
  "arcs_grow (s\<lparr>hb_currentEventActionId := x\<rparr>) s' = arcs_grow s s'"
  by (simp_all add: arcs_grow_def)

lemma hb_step_grows:
  assumes "hb_step H c s = Inr s'" "is_strict_call c"
  shows "arcs_grow s s'"
proof (cases c)
  case (HB_enter i t)
  then obtain l where l: "ActionLogEnterOperation i t (hb_log s) = Inr l"
    using assms(1) by (auto simp: HBEnterEventAction_def setCurrentEventAction_def)
  have "arcs_grow s (s\<lparr>hb_currentEventActionId := i, hb_log := l\<rparr>)"
    using log_grows [of "s\<lparr>hb_currentEventActionId := i\<rparr>" l] enter_same_arcs [OF l] by simp
  then show ?thesis using assms(1) l HB_enter
    by (auto simp: HBEnterEventAction_def setCurrentEventAction_def Let_def split: if_splits
        dest!: addExplicitArc_record record_arc_grows intro: arcs_grow_trans)
next
  case (HB_exit b)
  then obtain l where l: "ActionLogExitOperation (hb_log s) = Inr l"
    using assms(1) by (auto simp: HBExitEventAction_def setCurrentEventActionInvalid_def)
  then show ?thesis using assms(1) HB_exit log_grows [OF exit_same_arcs [OF l]]
    by (auto simp: HBExitEventAction_def setCurrentEventActionInvalid_def)
next
  case (HB_log r)
  then show ?thesis using assms by (auto intro: log_grows report_step_same_arcs)
next
  case (HB_strict b)
  then show ?thesis using assms by (auto simp: arcs_grow_def)
qed (use assms in \<open>auto simp: HBAllocateEventActionId_def allocateEventActionId_def HBAddExplicitArc_def
      HBAddTimedArc_def addTimedArc_def split: if_splits dest!: addExplicitArc_record intro: record_arc_grows\<close>)

lemma hb_calls_grow: "hb_calls H cs s = Inr s' \<Longrightarrow> \<forall>c \<in> set cs. is_strict_call c \<Longrightarrow> arcs_grow s s'"
  by (induction cs arbitrary: s) (auto dest!: hb_step_grows intro: arcs_grow_trans)

lemma setNextFireTime_calls: "setNextFireTime t a i hb p = Inr (p', cs) \<Longrightarrow> \<forall>c \<in> set cs. is_strict_call c"
  by (auto simp: setNextFireTime_def Let_def split: if_splits)

lemma timer_act_calls:
  assumes "timer_act c w = Inr (p, ds, cs)"
  shows "\<forall>c \<in> set cs. is_strict_call c"
  using assms
proof (cases c)
  case (TC_start t n r)
  then show ?thesis using assms by (auto simp: timer_start_def case_prod_unfold Let_def dest: setNextFireTime_calls)
next
  case (TC_stop t)
  then show ?thesis using assms by (auto simp: timer_stop_def Let_def split: if_splits dest: setNextFireTime_calls)
next
  case (TC_augmentFire t x)
  then show ?thesis using assms by (auto simp: augmentFireInterval_def split: fire_time.splits dest: setNextFireTime_calls)
next
  case (TC_augmentRepeat t x)
  then show ?thesis using assms
    by (auto simp: augmentRepeatInterval_def augmentFireInterval_def split: fire_time.splits dest: setNextFireTime_calls)
qed auto

lemma fired_ops_grow: "exec_ops H (map (\<lambda>c. Op_act (timer_act c)) cs) w = Inr w' \<Longrightarrow> arcs_grow (w_hb w) (w_hb w')"
proof (induction cs arbitrary: w)
  case (Cons c cs)
  then obtain w1 where w1: "exec_op H (Op_act (timer_act c)) w = Inr w1" "exec_ops H (map (\<lambda>c. Op_act (timer_act c)) cs) w1 = Inr w'"
    by auto
  have "arcs_grow (w_hb w) (w_hb w1)" using w1(1) by (auto dest!: timer_act_calls intro: hb_calls_grow)
  then show ?case using Cons.IH [OF w1(2)] arcs_grow_trans by blast
qed simp

text \<open>The arc that firing a timer records; it is timed unless the timer asks to ignore its interval.\<close>

lemma fire_records_arc:
  assumes "exec_op H (Op_act (fireTimerCallback t)) w = Inr w'" "hb_strict_inv (w_hb w)"
    and "m_starterEventAction (timer (w_page w) t) = e" "e \<noteq> 0" "\<not> m_disableImplicitHappensBeforeRelations (timer (w_page w) t)"
    and "hb_currentEventActionId (w_hb w) = n" "n \<noteq> 0" "e \<noteq> n"
  shows "hb_strict_inv (w_hb w')" "(e, n) \<in> set (hb_arcs (w_hb w'))"
proof -
  let ?T = "timer (modify_timer t (\<lambda>T. T\<lparr>m_inEventActionRegister := False,
     m_lastFireEventAction := (if HBIsCurrentEventActionValid (w_hb w) then hb_currentEventActionId (w_hb w) else 0)\<rparr>) (w_page w)) t"
  obtain p ds cs where f: "fireTimerCallback t w = Inr (p, ds, cs)" "hb_calls H cs (w_hb w) = Inr (w_hb w')"
    using assms(1) by auto
  obtain cs' where cs: "cs = fire_arcs ?T (w_hb w) @ cs'" "\<forall>c \<in> set cs'. is_strict_call c"
    using f(1) by (auto simp: fireTimerCallback_def Let_def case_prod_unfold dest: setNextFireTime_calls)
  have "HBIsCurrentEventActionValid (w_hb w)" using assms(6,7) by (simp add: HBIsCurrentEventActionValid_def isCurrentEventActionValid_def)
  then obtain c where c: "fire_arcs ?T (w_hb w) = [c]" "c = HB_arc e n \<or> c = HB_timed e n (milliseconds (m_nextFireInterval ?T))"
    using assms(3-6) by (cases "m_ignoreFireIntervalForHappensBefore (timer (w_page w) t)") (auto simp: fire_arcs_def timers_update_timer)
  obtain s1 where s1: "hb_step H c (w_hb w) = Inr s1" "hb_calls H cs' s1 = Inr (w_hb w')" using f(2) cs(1) c(1) by auto
  obtain d where "record_arc e n d (w_hb w) = Inr s1" using s1(1) c(2) assms(8)
    by (auto simp: HBAddExplicitArc_def HBAddTimedArc_def addTimedArc_def split: if_splits dest!: addExplicitArc_record)
  from record_arc_strict [OF assms(2) this] hb_calls_grow [OF s1(2) cs(2)]
  show "hb_strict_inv (w_hb w')" "(e, n) \<in> set (hb_arcs (w_hb w'))" by (auto simp: arcs_grow_def)
qed

lemma entered:
  assumes "pre_execution H n k d ob w = Inr w1" "n \<noteq> -1" "hb_strict_inv (w_hb w)"
  shows "hb_strict_inv (w_hb w1)" "hb_currentEventActionId (w_hb w1) = n"
proof -
  obtain ty s1 l where s1: "HBEnterEventAction n ty (w_hb w) = Inr s1" "ActionLogEventTriggered ob (hb_log s1) = Inr l" "w_hb w1 = s1\<lparr>hb_log := l\<rparr>"
    using assms(1,2) by (auto simp: pre_execution_def)
  have "hb_strict_inv s1" using hb_step_grows [of H "HB_enter n ty" "w_hb w" s1] s1(1) assms(3) by (simp add: arcs_grow_def)
  moreover have "same_arcs (hb_log s1) l" using report_step_same_arcs [of H "R_Triggered ob"] s1(2) by simp
  ultimately show "hb_strict_inv (w_hb w1)" using hb_inv_frame(2) s1(3) by simp
  show "hb_currentEventActionId (w_hb w1) = n" using s1(1,3)
    by (auto simp: HBEnterEventAction_def setCurrentEventAction_def Let_def addExplicitArc_def record_arc_def split: if_splits)
qed


definition fire_example :: thread_world where
  "fire_example = (new_world (modify_timer 7 (\<lambda>T. T\<lparr>m_starterEventAction := 1\<rparr>) (new_thread_page (\<lambda>n. 1000 * int n))))
     \<lparr>w_reg := registerEventActionHandler (mk_descriptor WTF_TIMER ''t'' ''7'') \<lparr>h_object = 7, h_function = 0\<rparr> new_EventActionRegister\<rparr>"


section \<open>Stopping\<close>

text \<open>
  Stopping a timer that waits in the register removes its handler and tells the register which one, but leaves
  the timer marked as waiting: it still reports to be active, and stopping it again, even after it was
  unused for long, removes whatever handlers are registered under its descriptor by then.
\<close>

theorem stopped_timer_stays_active:
  assumes "thread_after I H fired clock cs = Inr w" "tp_changes (w_page w) + 2 < 2 ^ 31 - 1"
    and "m_inEventActionRegister (timer (w_page w) t)"
  shows "\<exists>p ds calls. timer_stop t (w_hb w) (w_page w) = Inr (p, ds, calls)
     \<and> ds = [m_eventActionDescriptor (timer (w_page w) t)] \<and> isActive (timer p t) \<and> m_nextFireTime (timer p t) = At 0
     \<and> (\<forall>hb. \<exists>p' calls'. timer_stop t hb p = Inr (p', ds, calls'))"
proof -
  have ok: "heap_ok (tp_changes (w_page w)) (tp_heap (w_page w))" using after_heap_ok [OF assms(1)] assms(2) by simp
  obtain p calls where p: "timer_stop t (w_hb w) (w_page w) = Inr (p, [m_eventActionDescriptor (timer (w_page w) t)], calls)"
    "m_nextFireTime (timer p t) = At 0" "m_inEventActionRegister (timer p t)" "m_eventActionDescriptor (timer p t) = m_eventActionDescriptor (timer (w_page w) t)"
    "heap_ok (tp_changes p) (tp_heap p)" "tp_changes p \<le> tp_changes (w_page w) + 1"
    using timer_stop_ok [OF ok, of t "w_hb w"] assms(2,3) by auto
  have "\<exists>p' calls'. timer_stop t hb p = Inr (p', [m_eventActionDescriptor (timer p t)], calls')" for hb
    using timer_stop_ok [OF p(5), of t hb] p(3,6) assms(2) by auto
  then show ?thesis using p by (auto simp: isActive_def)
qed

definition waiting_example :: "thread_world result" where
  "waiting_example = thread_after (Default \<lparr>ds_stopped = True\<rparr> :: (unit, unit) installed) (\<lambda>_. 0) (\<lambda>t w. []) (\<lambda>n. 1000 * int n)
     [Th_page (TC_setDescriptor 1 (mk_descriptor WTF_TIMER ''t'' ''1'')), Th_page (TC_start 1 500 0), Th_sharedTimerFired 5]"

theorem stopped_timer_stays_active_witness:
  "\<exists>p ds calls. timer_stop 1 (w_hb (projr waiting_example)) (w_page (projr waiting_example)) = Inr (p, ds, calls) \<and> isActive (timer p 1)"
proof -
  have r: "\<not> isl waiting_example" "tp_changes (w_page (projr waiting_example)) = 1"
    "m_inEventActionRegister (timer (w_page (projr waiting_example)) 1)" by code_simp+
  have "thread_after (Default \<lparr>ds_stopped = True\<rparr> :: (unit, unit) installed) (\<lambda>_. 0) (\<lambda>t w. []) (\<lambda>n. 1000 * int n)
     [Th_page (TC_setDescriptor 1 (mk_descriptor WTF_TIMER ''t'' ''1'')), Th_page (TC_start 1 500 0), Th_sharedTimerFired 5] = Inr (projr waiting_example)"
    using r(1) unfolding waiting_example_def [symmetric] by simp
  from stopped_timer_stays_active [OF this _ r(3)] r(2) show ?thesis by auto
qed

end
