(* ===== verification/Network_Snapshot.thy ===== *)
theory Network_Snapshot
  imports Std_Containers
begin

text \<open>
  What R4 records of a network reply (\<open>QNetworkReplyInitialSnapshot\<close> and \<open>QNetworkReplySnapshot\<close> of
  \<open>Source/WebCore/platform/network/qt/QNetworkReplyHandler\<close>): the bytes received so far, a snapshot of the state for every
  signal of the reply with the number of bytes received by then, reading from the recorded bytes, and the network
  log file. \<open>QNetworkReply\<close> is Qt's: a record of what it reports at the moment. A \<open>QDataStream\<close> is the list of the
  values written to it.
\<close>

section \<open>Data\<close>

datatype NetworkSignal = INITIAL | FINISHED | READY_READ | END

fun signal_code :: "NetworkSignal \<Rightarrow> int" where
  "signal_code INITIAL = 0" | "signal_code FINISHED = 1" | "signal_code READY_READ = 2" | "signal_code END = 3"

text \<open>The state of Qt's reply: \<open>qr_data\<close> are the bytes that arrived and were not read yet.\<close>

record ('u, 'v) QNetworkReply =
  qr_rawHeaderPairs :: "(string \<times> string) list"
  qr_url :: 'u
  qr_error :: int
  qr_errorString :: string
  qr_attribute :: "nat \<Rightarrow> 'v"
  qr_cookies :: "'v option"
  qr_data :: string

definition readAll :: "('u, 'v) QNetworkReply \<Rightarrow> string \<times> ('u, 'v) QNetworkReply" where
  "readAll reply = (qr_data reply, reply\<lparr>qr_data := []\<rparr>)"

record 'v QNetworkReplySnapshot =
  m_error :: int
  m_errorString :: string
  m_attributes :: "'v list"
  m_streamSize :: int

record ('u, 'v) QNetworkReplyInitialSnapshot =
  m_headers :: "(string \<times> string) list"
  m_cookies :: "'v option"
  m_sameUrlSequenceNumber :: "32 word"
  m_url :: 'u
  m_streamPosition :: int
  m_stream :: string
  m_snapshots :: "(NetworkSignal \<times> 'v QNetworkReplySnapshot) list"

section \<open>Recording\<close>

definition qlist_insert :: "nat \<Rightarrow> 'a \<Rightarrow> 'a list \<Rightarrow> 'a list" where
  "qlist_insert i x xs = take i xs @ x # drop i xs"

text \<open>The attributes are the status code (0), the reason phrase (1) and the redirection target (2).\<close>

definition new_QNetworkReplySnapshot :: "('u, 'v) QNetworkReply \<Rightarrow> ('u, 'v) QNetworkReplyInitialSnapshot \<Rightarrow> 'v QNetworkReplySnapshot" where
  "new_QNetworkReplySnapshot reply base =
     \<lparr>m_error = qr_error reply, m_errorString = qr_errorString reply,
      m_attributes = qlist_insert 2 (qr_attribute reply 2) (qlist_insert 1 (qr_attribute reply 1) (qlist_insert 0 (qr_attribute reply 0) [])),
      m_streamSize = int (length (m_stream base))\<rparr>"

definition takeSnapshot :: "NetworkSignal \<Rightarrow> ('u, 'v) QNetworkReply \<Rightarrow> ('u, 'v) QNetworkReplyInitialSnapshot \<Rightarrow>
    ('u, 'v) QNetworkReplyInitialSnapshot \<times> ('u, 'v) QNetworkReply" where
  "takeSnapshot signal reply S =
     (let (bytes, reply1) = readAll reply;
          S1 = S\<lparr>m_stream := m_stream S @ bytes\<rparr>
      in (S1\<lparr>m_snapshots := m_snapshots S1 @ [(signal, new_QNetworkReplySnapshot reply1 S1)]\<rparr>, reply1))"

text \<open>\<open>m_nextSameUrlSequenceNumber\<close> is a map from the text of a URL to the next number.\<close>

definition getNextSameUrlSequenceNumber :: "string \<Rightarrow> (string, 32 word) smap \<Rightarrow> 32 word \<times> (string, 32 word) smap" where
  "getNextSameUrlSequenceNumber urlString numbers =
     (let i = (case smap_lookup numbers urlString of Some n \<Rightarrow> n | None \<Rightarrow> 0)
      in (i, smap_store urlString (i + 1) numbers))"

definition new_QNetworkReplyInitialSnapshot :: "('u \<Rightarrow> string) \<Rightarrow> ('u, 'v) QNetworkReply \<Rightarrow> (string, 32 word) smap \<Rightarrow>
    ('u, 'v) QNetworkReplyInitialSnapshot \<times> ('u, 'v) QNetworkReply \<times> (string, 32 word) smap" where
  "new_QNetworkReplyInitialSnapshot toText reply numbers =
     (let (number, numbers1) = getNextSameUrlSequenceNumber (toText (qr_url reply)) numbers;
          (bytes, reply1) = readAll reply;
          S = \<lparr>m_headers = qr_rawHeaderPairs reply, m_cookies = None, m_sameUrlSequenceNumber = number, m_url = qr_url reply,
               m_streamPosition = 0, m_stream = bytes, m_snapshots = []\<rparr>;
          (S1, reply2) = takeSnapshot INITIAL reply1 S
      in (S1\<lparr>m_cookies := qr_cookies reply2\<rparr>, reply2, numbers1))"

section \<open>Reading\<close>

text \<open>A \<open>QByteArray\<close> made of a pointer and a size that is not positive is empty.\<close>

definition base_peek :: "int \<Rightarrow> ('u, 'v) QNetworkReplyInitialSnapshot \<Rightarrow> string" where
  "base_peek maxlen S =
     (let chunkSize = min maxlen (int (length (m_stream S)) - m_streamPosition S)
      in take (nat chunkSize) (drop (nat (m_streamPosition S)) (m_stream S)))"

definition base_read :: "int \<Rightarrow> ('u, 'v) QNetworkReplyInitialSnapshot \<Rightarrow> string \<times> ('u, 'v) QNetworkReplyInitialSnapshot" where
  "base_read maxlen S =
     (let chunk = base_peek maxlen S
      in (chunk, S\<lparr>m_streamPosition := m_streamPosition S + int (length chunk)\<rparr>))"

definition bytesAvailable :: "'v QNetworkReplySnapshot \<Rightarrow> ('u, 'v) QNetworkReplyInitialSnapshot \<Rightarrow> int" where
  "bytesAvailable s S = m_streamSize s - m_streamPosition S"

definition snapshot_read :: "int \<Rightarrow> 'v QNetworkReplySnapshot \<Rightarrow> ('u, 'v) QNetworkReplyInitialSnapshot \<Rightarrow>
    string \<times> ('u, 'v) QNetworkReplyInitialSnapshot" where
  "snapshot_read maxlen s S = base_read (min (bytesAvailable s S) maxlen) S"

definition snapshot_peek :: "int \<Rightarrow> 'v QNetworkReplySnapshot \<Rightarrow> ('u, 'v) QNetworkReplyInitialSnapshot \<Rightarrow> string" where
  "snapshot_peek maxlen s S = base_peek (min (bytesAvailable s S) maxlen) S"

text \<open>Only three attributes are stored; \<open>QList::at\<close> asserts its bound.\<close>

definition snapshot_attribute :: "nat \<Rightarrow> 'v QNetworkReplySnapshot \<Rightarrow> 'v result" where
  "snapshot_attribute code s =
     (if \<not> code \<le> 2 then Inl ASSERT_FAILED
      else if \<not> code < length (m_attributes s) then Inl ASSERT_FAILED
      else Inr (m_attributes s ! code))"

fun header_loop :: "string \<Rightarrow> (string \<times> string) list \<Rightarrow> string" where
  "header_loop name [] = []"
| "header_loop name (p # ps) = (if fst p = name then snd p else header_loop name ps)"

definition rawHeader :: "string \<Rightarrow> ('u, 'v) QNetworkReplyInitialSnapshot \<Rightarrow> string" where
  "rawHeader headerName base = header_loop headerName (m_headers base)"

section \<open>The network log\<close>

datatype ('u, 'v) ds_value =
  DS_headers "(string \<times> string) list" | DS_uint "32 word" | DS_url 'u | DS_bytes string | DS_variant "'v option"
  | DS_int int | DS_string string | DS_variants "'v list" | DS_int64 int

type_synonym ('u, 'v) data_stream = "('u, 'v) ds_value list"

definition entry_values :: "NetworkSignal \<times> 'v QNetworkReplySnapshot \<Rightarrow> ('u, 'v) data_stream" where
  "entry_values e =
     [DS_int (signal_code (fst e)), DS_int (m_error (snd e)), DS_string (m_errorString (snd e)),
      DS_variants (m_attributes (snd e)), DS_int64 (m_streamSize (snd e))]"

definition snapshot_serialize :: "('u, 'v) QNetworkReplyInitialSnapshot \<Rightarrow> ('u, 'v) data_stream" where
  "snapshot_serialize S =
     [DS_headers (m_headers S), DS_uint (m_sameUrlSequenceNumber S), DS_url (m_url S), DS_bytes (m_stream S), DS_variant (m_cookies S)]
     @ concat (map entry_values (m_snapshots S)) @ [DS_int (signal_code END)]"

text \<open>
  At the end of the stream every read gives a default value, and \<open>deserialize\<close> never ends: the signal is 0 then, which
  is not \<open>END\<close>. Reading a value of another type than was written is not modelled.
\<close>

fun read_headers :: "('u, 'v) data_stream \<Rightarrow> ((string \<times> string) list \<times> ('u, 'v) data_stream) result" where
  "read_headers [] = Inl DIVERGES" | "read_headers (DS_headers x # s) = Inr (x, s)" | "read_headers _ = Inl UNDEFINED"

fun read_uint :: "('u, 'v) data_stream \<Rightarrow> (32 word \<times> ('u, 'v) data_stream) result" where
  "read_uint [] = Inl DIVERGES" | "read_uint (DS_uint x # s) = Inr (x, s)" | "read_uint _ = Inl UNDEFINED"

fun read_url :: "('u, 'v) data_stream \<Rightarrow> ('u \<times> ('u, 'v) data_stream) result" where
  "read_url [] = Inl DIVERGES" | "read_url (DS_url x # s) = Inr (x, s)" | "read_url _ = Inl UNDEFINED"

fun read_bytes :: "('u, 'v) data_stream \<Rightarrow> (string \<times> ('u, 'v) data_stream) result" where
  "read_bytes [] = Inl DIVERGES" | "read_bytes (DS_bytes x # s) = Inr (x, s)" | "read_bytes _ = Inl UNDEFINED"

fun read_variant :: "('u, 'v) data_stream \<Rightarrow> ('v option \<times> ('u, 'v) data_stream) result" where
  "read_variant [] = Inl DIVERGES" | "read_variant (DS_variant x # s) = Inr (x, s)" | "read_variant _ = Inl UNDEFINED"

fun read_int :: "('u, 'v) data_stream \<Rightarrow> (int \<times> ('u, 'v) data_stream) result" where
  "read_int [] = Inl DIVERGES" | "read_int (DS_int x # s) = Inr (x, s)" | "read_int _ = Inl UNDEFINED"

fun read_string :: "('u, 'v) data_stream \<Rightarrow> (string \<times> ('u, 'v) data_stream) result" where
  "read_string [] = Inl DIVERGES" | "read_string (DS_string x # s) = Inr (x, s)" | "read_string _ = Inl UNDEFINED"

fun read_variants :: "('u, 'v) data_stream \<Rightarrow> ('v list \<times> ('u, 'v) data_stream) result" where
  "read_variants [] = Inl DIVERGES" | "read_variants (DS_variants x # s) = Inr (x, s)" | "read_variants _ = Inl UNDEFINED"

fun read_int64 :: "('u, 'v) data_stream \<Rightarrow> (int \<times> ('u, 'v) data_stream) result" where
  "read_int64 [] = Inl DIVERGES" | "read_int64 (DS_int64 x # s) = Inr (x, s)" | "read_int64 _ = Inl UNDEFINED"

text \<open>The conversion of an integer to the enumeration; other integers than these four are not modelled.\<close>

definition signal_of :: "int \<Rightarrow> NetworkSignal result" where
  "signal_of i = (if i = 0 then Inr INITIAL else if i = 1 then Inr FINISHED else if i = 2 then Inr READY_READ
     else if i = 3 then Inr END else Inl UNDEFINED)"

definition deserialize_entry :: "('u, 'v) data_stream \<Rightarrow> ('v QNetworkReplySnapshot \<times> ('u, 'v) data_stream) result" where
  "deserialize_entry s =
     bindR (read_int s) (\<lambda>(error, s1).
     bindR (read_string s1) (\<lambda>(errorString, s2).
     bindR (read_variants s2) (\<lambda>(attributes, s3).
     bindR (read_int64 s3) (\<lambda>(streamSize, s4).
       Inr (\<lparr>m_error = error, m_errorString = errorString, m_attributes = attributes, m_streamSize = streamSize\<rparr>, s4)))))"

text \<open>Every round takes five values off the stream, so the length of the stream bounds the rounds.\<close>

fun deserialize_entries :: "nat \<Rightarrow> ('u, 'v) data_stream \<Rightarrow> ((NetworkSignal \<times> 'v QNetworkReplySnapshot) list \<times> ('u, 'v) data_stream) result" where
  "deserialize_entries 0 s = Inl DIVERGES"
| "deserialize_entries (Suc n) s =
     bindR (read_int s) (\<lambda>(signal, s1).
     bindR (signal_of signal) (\<lambda>sg.
       if sg = END then Inr ([], s1)
       else bindR (deserialize_entry s1) (\<lambda>(snapshot, s2).
            bindR (deserialize_entries n s2) (\<lambda>(entries, s3). Inr ((sg, snapshot) # entries, s3)))))"

definition snapshot_deserialize :: "('u, 'v) data_stream \<Rightarrow> (('u, 'v) QNetworkReplyInitialSnapshot \<times> ('u, 'v) data_stream) result" where
  "snapshot_deserialize s =
     bindR (read_headers s) (\<lambda>(headers, s1).
     bindR (read_uint s1) (\<lambda>(number, s2).
     bindR (read_url s2) (\<lambda>(url, s3).
     bindR (read_bytes s3) (\<lambda>(stream, s4).
     bindR (read_variant s4) (\<lambda>(cookies, s5).
     bindR (deserialize_entries (Suc (length s5)) s5) (\<lambda>(entries, s6).
       Inr (\<lparr>m_headers = headers, m_cookies = cookies, m_sameUrlSequenceNumber = number, m_url = url, m_streamPosition = 0,
             m_stream = stream, m_snapshots = entries\<rparr>, s6)))))))"

definition writeNetworkFile :: "('u, 'v) QNetworkReplyInitialSnapshot list \<Rightarrow> ('u, 'v) data_stream" where
  "writeNetworkFile m_networkHistory = concat (map snapshot_serialize m_networkHistory)"

section \<open>What is written is read back\<close>

lemma signal_round_trip [simp]: "signal_of (signal_code s) = Inr s"
  by (cases s) (simp_all add: signal_of_def)

lemma entry_round_trip [simp]:
  "deserialize_entry (DS_int (m_error s) # DS_string (m_errorString s) # DS_variants (m_attributes s) # DS_int64 (m_streamSize s) # rest)
     = Inr (s, rest)"
  by (simp add: deserialize_entry_def)

lemma entries_round_trip:
  "\<forall>e \<in> set es. fst e \<noteq> END \<Longrightarrow> length es < n \<Longrightarrow>
     deserialize_entries n (concat (map entry_values es) @ DS_int (signal_code END) # rest) = Inr (es, rest)"
proof (induction es arbitrary: n)
  case Nil
  then show ?case by (cases n) (simp_all add: signal_of_def)
next
  case (Cons e es)
  then obtain m where n: "n = Suc m" "length es < m" by (cases n) auto
  then show ?case using Cons by (cases e) (simp add: entry_values_def)
qed

text \<open>A snapshot as it is after recording: no entry carries the sentinel.\<close>

definition recorded :: "('u, 'v) QNetworkReplyInitialSnapshot \<Rightarrow> bool" where
  "recorded S = (\<forall>e \<in> set (m_snapshots S). fst e \<noteq> END)"

lemma length_entries: "length (concat (map entry_values es)) = 5 * length es"
  by (induction es) (auto simp: entry_values_def)

lemma snapshot_round_trip:
  assumes "recorded S"
  shows "snapshot_deserialize (snapshot_serialize S @ rest) = Inr (S\<lparr>m_streamPosition := 0\<rparr>, rest)"
proof -
  let ?s = "concat (map entry_values (m_snapshots S)) @ DS_int (signal_code END) # rest"
  have "length (m_snapshots S) < Suc (length ?s)"
    by (simp add: length_entries del: length_concat)
  then have "deserialize_entries (Suc (length ?s)) ?s = Inr (m_snapshots S, rest)"
    using assms by (intro entries_round_trip) (auto simp: recorded_def)
  then show ?thesis by (simp add: snapshot_deserialize_def snapshot_serialize_def del: deserialize_entries.simps)
qed

lemma entries_recorded:
  "deserialize_entries n (concat (map entry_values es) @ [DS_int 3] :: ('u, 'v) data_stream) = Inr (es', []) \<Longrightarrow> \<forall>e \<in> set es. fst e \<noteq> END"
proof (induction es arbitrary: n es')
  case (Cons e es)
  then obtain m where n: "n = Suc m" by (cases n) auto
  then obtain es1 where "fst e \<noteq> END" "deserialize_entries m (concat (map entry_values es) @ [DS_int 3] :: ('u, 'v) data_stream) = Inr (es1, [])"
    using Cons.prems by (cases "fst e = END") (auto simp: entry_values_def [of e] signal_of_def [of 3])
  then show ?case using Cons.IH by simp
qed simp

lemma deserialized_recorded: "snapshot_deserialize (snapshot_serialize S) = Inr (S', []) \<Longrightarrow> recorded S"
  by (auto simp: snapshot_deserialize_def snapshot_serialize_def recorded_def simp del: deserialize_entries.simps dest!: entries_recorded)

section \<open>Reading the recorded bytes\<close>

text \<open>The state of the stream: what was read is a prefix, and the sizes of the snapshots grow up to the whole.\<close>

definition stream_ok :: "('u, 'v) QNetworkReplyInitialSnapshot \<Rightarrow> bool" where
  "stream_ok S = (0 \<le> m_streamPosition S \<and> m_streamPosition S \<le> int (length (m_stream S))
     \<and> sorted (map (\<lambda>e. m_streamSize (snd e)) (m_snapshots S))
     \<and> (\<forall>e \<in> set (m_snapshots S). 0 \<le> m_streamSize (snd e) \<and> m_streamSize (snd e) \<le> int (length (m_stream S))))"

lemma takeSnapshot_ok: "stream_ok S \<Longrightarrow> stream_ok (fst (takeSnapshot signal reply S))"
  by (auto simp: stream_ok_def takeSnapshot_def readAll_def Let_def new_QNetworkReplySnapshot_def sorted_append intro: order_trans)

lemma base_read_ok:
  assumes "stream_ok S" "base_read n S = (chunk, S')"
  shows "stream_ok S'" "m_stream S' = m_stream S" "m_snapshots S' = m_snapshots S"
    "take (nat (m_streamPosition S')) (m_stream S) = take (nat (m_streamPosition S)) (m_stream S) @ chunk"
proof -
  let ?p = "nat (m_streamPosition S)" and ?k = "nat (min n (int (length (m_stream S)) - m_streamPosition S))"
  have c: "chunk = take ?k (drop ?p (m_stream S))" "S' = S\<lparr>m_streamPosition := m_streamPosition S + int (length chunk)\<rparr>"
    using assms(2) by (auto simp: base_read_def Let_def base_peek_def [of n S])
  have len: "length chunk = ?k" using assms(1) by (auto simp: c(1) stream_ok_def)
  show "stream_ok S'" using assms(1) len by (auto simp: c(2) stream_ok_def)
  show "m_stream S' = m_stream S" "m_snapshots S' = m_snapshots S" by (simp_all add: c(2))
  have "nat (m_streamPosition S') = ?p + ?k" using assms(1) len by (simp add: c(2) stream_ok_def nat_add_distrib)
  then show "take (nat (m_streamPosition S')) (m_stream S) = take ?p (m_stream S) @ chunk"
    by (simp add: c(1) take_add)
qed

text \<open>Reading everything that a snapshot offers.\<close>

definition read_rest :: "'v QNetworkReplySnapshot \<Rightarrow> ('u, 'v) QNetworkReplyInitialSnapshot \<Rightarrow> string \<times> ('u, 'v) QNetworkReplyInitialSnapshot" where
  "read_rest s S = snapshot_read (bytesAvailable s S) s S"

lemma read_rest_value:
  assumes "stream_ok S" "m_streamPosition S \<le> m_streamSize s" "m_streamSize s \<le> int (length (m_stream S))"
  shows "read_rest s S = (drop (nat (m_streamPosition S)) (take (nat (m_streamSize s)) (m_stream S)), S\<lparr>m_streamPosition := m_streamSize s\<rparr>)"
proof -
  have "min (m_streamSize s - m_streamPosition S) (int (length (m_stream S)) - m_streamPosition S) = m_streamSize s - m_streamPosition S"
    using assms(3) by simp
  then have "base_peek (m_streamSize s - m_streamPosition S) S = drop (nat (m_streamPosition S)) (take (nat (m_streamSize s)) (m_stream S))"
    using assms by (simp add: base_peek_def Let_def nat_diff_distrib drop_take stream_ok_def)
  moreover have "int (length (drop (nat (m_streamPosition S)) (take (nat (m_streamSize s)) (m_stream S)))) = m_streamSize s - m_streamPosition S"
    using assms by (simp add: stream_ok_def)
  ultimately show ?thesis by (simp add: read_rest_def snapshot_read_def bytesAvailable_def base_read_def Let_def)
qed

section \<open>A recording and its replay\<close>

text \<open>The snapshots that the signals of a live reply take, in the order in which they arrive.\<close>

fun take_snapshots :: "(NetworkSignal \<times> ('u, 'v) QNetworkReply) list \<Rightarrow> ('u, 'v) QNetworkReplyInitialSnapshot \<Rightarrow> ('u, 'v) QNetworkReplyInitialSnapshot" where
  "take_snapshots [] S = S"
| "take_snapshots ((signal, reply) # arrivals) S = take_snapshots arrivals (fst (takeSnapshot signal reply S))"

text \<open>What the page reads when it reads everything each time the current snapshot changes.\<close>

fun read_each :: "'v QNetworkReplySnapshot list \<Rightarrow> ('u, 'v) QNetworkReplyInitialSnapshot \<Rightarrow> string list" where
  "read_each [] S = []"
| "read_each (s # ss) S = (let (chunk, S1) = read_rest s S in chunk # read_each ss S1)"

lemma read_each_append_stream:
  assumes "\<forall>s \<in> set ss. m_streamSize s \<le> int (length (m_stream S))" "sorted (m_streamPosition S # map m_streamSize ss)" "stream_ok S"
  shows "read_each ss S = map (\<lambda>(a, b). drop (nat a) (take (nat b) (m_stream S)))
    (zip (m_streamPosition S # map m_streamSize ss) (map m_streamSize ss))"
  using assms
proof (induction ss arbitrary: S)
  case (Cons s ss)
  let ?S1 = "S\<lparr>m_streamPosition := m_streamSize s\<rparr>"
  have r: "read_rest s S = (drop (nat (m_streamPosition S)) (take (nat (m_streamSize s)) (m_stream S)), ?S1)"
    using Cons.prems by (intro read_rest_value) simp_all
  have "stream_ok ?S1" using Cons.prems by (auto simp: stream_ok_def)
  then have "read_each ss ?S1 = map (\<lambda>(a, b). drop (nat a) (take (nat b) (m_stream S))) (zip (m_streamSize s # map m_streamSize ss) (map m_streamSize ss))"
    using Cons.IH [of ?S1] Cons.prems by simp
  then show ?case by (simp add: r)
qed simp

text \<open>The byte counts after each of a list of chunks.\<close>

fun sizes :: "int \<Rightarrow> string list \<Rightarrow> int list" where
  "sizes n [] = []"
| "sizes n (c # cs) = (n + int (length c)) # sizes (n + int (length c)) cs"

lemma sizes_bounds: "x \<in> set (sizes n cs) \<Longrightarrow> n \<le> x \<and> x \<le> n + int (length (concat cs))"
  by (induction n cs rule: sizes.induct) force+

lemma sizes_sorted: "sorted (n # sizes n cs)"
  using sizes_bounds by (induction n cs rule: sizes.induct) fastforce+

lemma sizes_chunks:
  "map (\<lambda>(a, b). drop (nat a) (take (nat b) (pre @ concat cs))) (zip (int (length pre) # sizes (int (length pre)) cs) (sizes (int (length pre)) cs)) = cs"
proof (induction cs arbitrary: pre)
  case (Cons c cs)
  have n: "int (length pre) + int (length c) = int (length (pre @ c))" by simp
  have first: "drop (nat (int (length pre))) (take (nat (int (length (pre @ c)))) (pre @ concat (c # cs))) = c" by simp
  have "pre @ concat (c # cs) = (pre @ c) @ concat cs" by simp
  with Cons.IH [of "pre @ c"] first show ?case unfolding sizes.simps n by (simp only: zip_Cons_Cons list.map case_prod_conv)
qed simp

lemma take_snapshots_fields:
  "m_stream (take_snapshots arrivals S) = m_stream S @ concat (map (\<lambda>a. qr_data (snd a)) arrivals)
   \<and> m_streamPosition (take_snapshots arrivals S) = m_streamPosition S
   \<and> map (\<lambda>e. m_streamSize (snd e)) (m_snapshots (take_snapshots arrivals S))
     = map (\<lambda>e. m_streamSize (snd e)) (m_snapshots S) @ sizes (int (length (m_stream S))) (map (\<lambda>a. qr_data (snd a)) arrivals)
   \<and> map fst (m_snapshots (take_snapshots arrivals S)) = map fst (m_snapshots S) @ map fst arrivals"
  by (induction arrivals S rule: take_snapshots.induct)
    (simp_all add: takeSnapshot_def readAll_def Let_def new_QNetworkReplySnapshot_def)

text \<open>A whole recording: the constructor and then the signals.\<close>

definition record_reply :: "('u \<Rightarrow> string) \<Rightarrow> ('u, 'v) QNetworkReply \<Rightarrow> (string, 32 word) smap \<Rightarrow> (NetworkSignal \<times> ('u, 'v) QNetworkReply) list \<Rightarrow>
    ('u, 'v) QNetworkReplyInitialSnapshot" where
  "record_reply toText reply numbers arrivals = take_snapshots arrivals (fst (new_QNetworkReplyInitialSnapshot toText reply numbers))"

lemma record_reply_fields:
  fixes reply :: "('u, 'v) QNetworkReply"
  assumes "S = record_reply toText reply numbers arrivals"
  shows "m_stream S = concat (qr_data reply # map (\<lambda>a. qr_data (snd a)) arrivals)" "m_streamPosition S = 0"
    "map (\<lambda>e. m_streamSize (snd e)) (m_snapshots S) = sizes 0 (qr_data reply # map (\<lambda>a. qr_data (snd a)) arrivals)"
    "map fst (m_snapshots S) = INITIAL # map fst arrivals"
  using take_snapshots_fields [of arrivals "fst (new_QNetworkReplyInitialSnapshot toText reply numbers)"]
  by (simp_all add: assms record_reply_def new_QNetworkReplyInitialSnapshot_def getNextSameUrlSequenceNumber_def readAll_def
      takeSnapshot_def Let_def new_QNetworkReplySnapshot_def)

text \<open>
  C34: The network log keeps the division of a response into messages: when a reply is recorded, saved and loaded, the
  page reads at each replayed event exactly the bytes that had arrived between the corresponding events of the
  recording, however late the page got to read them.
\<close>

theorem replayed_chunks:
  assumes "\<forall>a \<in> set arrivals. fst a \<noteq> END"
  shows "\<exists>S. snapshot_deserialize (snapshot_serialize (record_reply toText reply numbers arrivals) @ rest) = Inr (S, rest)
     \<and> map fst (m_snapshots S) = INITIAL # map fst arrivals
     \<and> read_each (map snd (m_snapshots S)) S = qr_data reply # map (\<lambda>a. qr_data (snd a)) arrivals"
proof -
  let ?S = "record_reply toText reply numbers arrivals" and ?cs = "qr_data reply # map (\<lambda>a. qr_data (snd a)) arrivals"
  have f: "m_stream ?S = concat ?cs" "m_streamPosition ?S = 0" "map m_streamSize (map snd (m_snapshots ?S)) = sizes 0 ?cs"
    "map fst (m_snapshots ?S) = INITIAL # map fst arrivals"
    using record_reply_fields [OF refl, of toText reply numbers arrivals] by (simp_all add: comp_def)
  have "fst e \<in> insert INITIAL (fst ` set arrivals)" if "e \<in> set (m_snapshots ?S)" for e
    using that arg_cong [OF f(4), of set] by (auto simp: image_iff)
  then have "recorded ?S" using assms by (fastforce simp: recorded_def)
  from snapshot_round_trip [OF this] have d: "snapshot_deserialize (snapshot_serialize ?S @ rest) = Inr (?S, rest)"
    using f(2) by simp
  have sz: "\<forall>s \<in> set (map snd (m_snapshots ?S)). 0 \<le> m_streamSize s \<and> m_streamSize s \<le> int (length (m_stream ?S))"
  proof
    fix s assume "s \<in> set (map snd (m_snapshots ?S))"
    then have "m_streamSize s \<in> set (sizes 0 ?cs)" unfolding f(3) [symmetric] set_map [of m_streamSize] by (rule imageI)
    from sizes_bounds [OF this] show "0 \<le> m_streamSize s \<and> m_streamSize s \<le> int (length (m_stream ?S))" unfolding f(1) by simp
  qed
  have so: "sorted (m_streamPosition ?S # map m_streamSize (map snd (m_snapshots ?S)))" unfolding f(2,3) by (rule sizes_sorted)
  then have "stream_ok ?S" using sz f(2) by (simp add: stream_ok_def comp_def)
  from read_each_append_stream [OF _ so this] sz have "read_each (map snd (m_snapshots ?S)) ?S
     = map (\<lambda>(a, b). drop (nat a) (take (nat b) (concat ?cs))) (zip (0 # sizes 0 ?cs) (sizes 0 ?cs))"
    unfolding f(1,2,3) by simp
  also have "\<dots> = ?cs" using sizes_chunks [of "[]" ?cs] by (simp only: list.size append_Nil int_ops(1))
  finally have r: "read_each (map snd (m_snapshots ?S)) ?S = ?cs" .
  show ?thesis by (rule exI [of _ ?S], intro conjI, rule d, rule f(4), rule r)
qed

definition sample_reply :: "string \<Rightarrow> (string, nat) QNetworkReply" where
  "sample_reply bytes = \<lparr>qr_rawHeaderPairs = [], qr_url = ''http://a/'', qr_error = 0, qr_errorString = [], qr_attribute = (\<lambda>i. i),
     qr_cookies = None, qr_data = bytes\<rparr>"

theorem replayed_chunks_witness:
  "\<exists>S. snapshot_deserialize (snapshot_serialize (record_reply id (sample_reply []) [] [(READY_READ, sample_reply ''ab''), (FINISHED, sample_reply ''c'')]))
       = Inr (S, [])
     \<and> read_each (map snd (m_snapshots S)) S = [[], ''ab'', ''c'']"
  using replayed_chunks [of "[(READY_READ, sample_reply ''ab''), (FINISHED, sample_reply ''c'')]" id "sample_reply []" "[]" "[]"]
  by (auto simp: sample_reply_def)

section \<open>Truncated logs\<close>

lemma entry_truncated: "k < 4 \<Longrightarrow> deserialize_entry (take k (tl (entry_values e))) = Inl DIVERGES"
  by (cases e, cases k rule: nat.exhaust, simp add: deserialize_entry_def)
    (auto simp: deserialize_entry_def entry_values_def less_Suc_eq numeral_eq_Suc)

lemma entries_truncated:
  "\<forall>e \<in> set es. fst e \<noteq> END \<Longrightarrow> k \<le> 5 * length es \<Longrightarrow>
     deserialize_entries n (take k (concat (map entry_values es)) :: ('u, 'v) data_stream) = Inl DIVERGES"
proof (induction es arbitrary: k n)
  case Nil
  then show ?case by (cases n) simp_all
next
  case (Cons e es)
  show ?case
  proof (cases n)
    case (Suc m)
    have "k = 0 \<or> (\<exists>j. k = Suc j \<and> j < 4) \<or> (\<exists>j. k = 5 + j)" by presburger
    then consider "k = 0" | j where "k = Suc j" "j < 4" | j where "k = 5 + j" by blast
    then show ?thesis
    proof cases
      case (2 j)
      then have "(take k (concat (map entry_values (e # es))) :: ('u, 'v) data_stream) = DS_int (signal_code (fst e)) # take j (tl (entry_values e))"
        by (auto simp: entry_values_def less_Suc_eq numeral_eq_Suc)
      then show ?thesis using Suc Cons.prems(1) by (simp add: entry_truncated [OF 2(2)] del: list.map concat.simps take_append)
    next
      case (3 j)
      then have "(take k (concat (map entry_values (e # es))) :: ('u, 'v) data_stream) = entry_values e @ take j (concat (map entry_values es))"
        by (simp add: entry_values_def numeral_eq_Suc)
      moreover have "deserialize_entries m (take j (concat (map entry_values es)) :: ('u, 'v) data_stream) = Inl DIVERGES"
        using Cons 3 by simp
      ultimately show ?thesis using Suc Cons.prems(1) by (simp add: entry_values_def [of e] del: list.map concat.simps)
    qed (use Suc in simp)
  qed simp
qed



end
