(* ===== verification/Network_Reply.thy ===== *)
theory Network_Reply
  imports Network_Snapshot Thread_Timers
begin

text \<open>
  Network replies under the control of the scheduler (\<open>QNetworkReplyControllable\<close>, its live and its replaying
  subclass and their factories: \<open>Source/WebCore/platform/network/qt/QNetworkReplyHandler\<close>,
  \<open>R4/clients/Replay/network\<close>). Every change of a reply is queued as a snapshot and handed to the page in an event
  action of its own, by a timer; on replay the snapshots come from the network log. An operation returns the new
  state and the calls it makes on its timer and on the happens-before recorder.
\<close>

section \<open>Controllable replies\<close>

text \<open>
  \<open>c_origin\<close> and \<open>c_sender\<close> are the event actions with which the request was annotated (\<open>HBQNetworkHelper\<close>);
  \<open>c_url\<close> is the URL of Qt's reply, and \<open>c_hasReply\<close> tells whether \<open>m_reply\<close> is still set.
\<close>

record ('u, 'v) QNetworkReplyControllable =
  c_snapshotQueue :: "(NetworkSignal \<times> 'v QNetworkReplySnapshot) list"
  c_sequenceNumber :: "64 word"
  c_timerRunning :: bool
  c_initialSnapshot :: "('u, 'v) QNetworkReplyInitialSnapshot"
  c_currentSnapshot :: "'v QNetworkReplySnapshot"
  c_hasReply :: bool
  c_url :: 'u
  c_origin :: "int option"
  c_sender :: "int option"
  c_lastNetworkEventAction :: int
  c_creatingEventAction :: int

text \<open>A request without annotation ends the program.\<close>

definition HBQNetworkRequestGetEventAction :: "int option \<Rightarrow> int result" where
  "HBQNetworkRequestGetEventAction annotation = (case annotation of None \<Rightarrow> Inl (EXIT 1) | Some e \<Rightarrow> Inr e)"

text \<open>\<open>t\<close> is the timer of the reply.\<close>

definition new_QNetworkReplyControllable :: "nat \<Rightarrow> ('u, 'v) QNetworkReplyInitialSnapshot \<Rightarrow> 'u \<Rightarrow> int option \<Rightarrow> int option \<Rightarrow> hb_state \<Rightarrow>
    (('u, 'v) QNetworkReplyControllable \<times> timer_call list) result" where
  "new_QNetworkReplyControllable t initial url origin sender hb =
     (case m_snapshots initial of [] \<Rightarrow> Inl ASSERT_FAILED
      | (signal, snapshot) # _ \<Rightarrow>
          if signal \<noteq> INITIAL then Inl ASSERT_FAILED
          else bindR (if HBIsCurrentEventActionValid hb then HBCurrentEventAction hb else Inr 0) (\<lambda>creating.
            Inr (\<lparr>c_snapshotQueue = [], c_sequenceNumber = 0, c_timerRunning = False, c_initialSnapshot = initial,
                  c_currentSnapshot = snapshot, c_hasReply = True, c_url = url, c_origin = origin, c_sender = sender,
                  c_lastNetworkEventAction = 0, c_creatingEventAction = creating\<rparr>, [TC_disableImplicit t])))"

definition network_params :: "string \<Rightarrow> 32 word \<Rightarrow> 64 word \<Rightarrow> string" where
  "network_params url number sequence =
     escapeParam url @ '','' @ nat_dec (unat number) @ '','' @ nat_dec (unat sequence)"

text \<open>The last event of a request carries \<open>ULONG_MAX\<close>.\<close>

definition scheduleNextSnapshotUpdate :: "('u \<Rightarrow> string) \<Rightarrow> nat \<Rightarrow> ('u, 'v) QNetworkReplyControllable \<Rightarrow>
    (('u, 'v) QNetworkReplyControllable \<times> timer_call list) result" where
  "scheduleNextSnapshotUpdate toText t c =
     (if c_timerRunning c then Inr (c, [])
      else (case c_snapshotQueue c of [] \<Rightarrow> Inr (c, [])
        | (signal, _) # _ \<Rightarrow>
            if \<not> c_hasReply c then Inl UNDEFINED
            else
              (let c1 = c\<lparr>c_timerRunning := True\<rparr>;
                   (sequence, c2) = (if signal = NetworkSignal.FINISHED then (- 1, c1)
                      else (c_sequenceNumber c1, c1\<lparr>c_sequenceNumber := c_sequenceNumber c1 + 1\<rparr>));
                   params = network_params (toText (c_url c2)) (m_sameUrlSequenceNumber (c_initialSnapshot c2)) sequence
               in Inr (c2, [TC_setDescriptor t (mk_descriptor WTF_NETWORK ''Network'' params), TC_start t 0 0]))))"

definition enqueueSnapshot :: "('u \<Rightarrow> string) \<Rightarrow> nat \<Rightarrow> NetworkSignal \<Rightarrow> 'v QNetworkReplySnapshot \<Rightarrow> ('u, 'v) QNetworkReplyControllable \<Rightarrow>
    (('u, 'v) QNetworkReplyControllable \<times> timer_call list) result" where
  "enqueueSnapshot toText t signal snapshot c =
     scheduleNextSnapshotUpdate toText t (c\<lparr>c_snapshotQueue := c_snapshotQueue c @ [(signal, snapshot)]\<rparr>)"

text \<open>
  The timer fires. The result tells whether the cookies of the reply are stored, the arcs recorded, the calls on the timer and
  the signal that the page receives.
\<close>

definition updateSnapshot :: "('u \<Rightarrow> string) \<Rightarrow> nat \<Rightarrow> hb_state \<Rightarrow> ('u, 'v) QNetworkReplyControllable \<Rightarrow>
    (('u, 'v) QNetworkReplyControllable \<times> bool \<times> hb_call list \<times> timer_call list \<times> NetworkSignal) result" where
  "updateSnapshot toText t hb c =
     (if \<not> c_hasReply c then Inl UNDEFINED
      else (let setCookies = (c_lastNetworkEventAction c = 0) in
        bindR (HBCurrentEventAction hb) (\<lambda>now.
        bindR (if c_lastNetworkEventAction c \<noteq> 0 then Inr [HB_arc (c_lastNetworkEventAction c) now]
               else bindR (HBQNetworkRequestGetEventAction (c_origin c)) (\<lambda>origin.
                    bindR (HBQNetworkRequestGetEventAction (c_sender c)) (\<lambda>sender.
                      Inr ([HB_arc origin now, HB_arc sender now]
                           @ (if c_creatingEventAction c \<noteq> 0 then [HB_arc (c_creatingEventAction c) now] else []))))) (\<lambda>arcs.
        case c_snapshotQueue c of [] \<Rightarrow> Inl UNDEFINED
        | (signal, snapshot) # queue \<Rightarrow>
            bindR (scheduleNextSnapshotUpdate toText t
                     (c\<lparr>c_lastNetworkEventAction := now, c_snapshotQueue := queue, c_currentSnapshot := snapshot, c_timerRunning := False\<rparr>))
              (\<lambda>(c1, calls).
                if signal = NetworkSignal.FINISHED \<or> signal = READY_READ then Inr (c1, setCookies, arcs, calls, signal)
                else Inl CRASH)))))"

text \<open>\<open>active\<close> tells whether the timer is active.\<close>

definition detachFromReply :: "nat \<Rightarrow> bool \<Rightarrow> ('u, 'v) QNetworkReplyControllable \<Rightarrow> ('u, 'v) QNetworkReplyControllable \<times> timer_call list" where
  "detachFromReply t active c = (c\<lparr>c_snapshotQueue := []\<rparr>, if active then [TC_stop t] else [])"

definition release :: "nat \<Rightarrow> bool \<Rightarrow> ('u, 'v) QNetworkReplyControllable \<Rightarrow> bool \<times> ('u, 'v) QNetworkReplyControllable \<times> timer_call list" where
  "release t active c =
     (if \<not> c_hasReply c then (False, c, [])
      else (let (c1, calls) = detachFromReply t active c in (True, c1\<lparr>c_hasReply := False\<rparr>, calls)))"

text \<open>The live reply: every signal of Qt's reply takes a snapshot and queues it.\<close>

definition live_signal :: "('u \<Rightarrow> string) \<Rightarrow> nat \<Rightarrow> NetworkSignal \<Rightarrow> ('u, 'v) QNetworkReply \<Rightarrow> ('u, 'v) QNetworkReplyControllable \<Rightarrow>
    (('u, 'v) QNetworkReplyControllable \<times> timer_call list) result" where
  "live_signal toText t signal reply c =
     (let S = fst (takeSnapshot signal reply (c_initialSnapshot c))
      in enqueueSnapshot toText t signal (snd (last (m_snapshots S))) (c\<lparr>c_initialSnapshot := S\<rparr>))"

definition slFinished :: "('u \<Rightarrow> string) \<Rightarrow> nat \<Rightarrow> ('u, 'v) QNetworkReply \<Rightarrow> ('u, 'v) QNetworkReplyControllable \<Rightarrow>
    (('u, 'v) QNetworkReplyControllable \<times> timer_call list) result" where
  "slFinished toText t reply c = live_signal toText t NetworkSignal.FINISHED reply c"

definition slReadyRead :: "('u \<Rightarrow> string) \<Rightarrow> nat \<Rightarrow> ('u, 'v) QNetworkReply \<Rightarrow> ('u, 'v) QNetworkReplyControllable \<Rightarrow>
    (('u, 'v) QNetworkReplyControllable \<times> timer_call list) result" where
  "slReadyRead toText t reply c = live_signal toText t READY_READ reply c"

text \<open>The replaying reply queues all snapshots but the initial one when it is constructed.\<close>

fun enqueue_all :: "('u \<Rightarrow> string) \<Rightarrow> nat \<Rightarrow> (NetworkSignal \<times> 'v QNetworkReplySnapshot) list \<Rightarrow> ('u, 'v) QNetworkReplyControllable \<Rightarrow>
    (('u, 'v) QNetworkReplyControllable \<times> timer_call list) result" where
  "enqueue_all toText t [] c = Inr (c, [])"
| "enqueue_all toText t ((signal, snapshot) # es) c =
     bindR (enqueueSnapshot toText t signal snapshot c) (\<lambda>(c1, calls).
     bindR (enqueue_all toText t es c1) (\<lambda>(c2, calls2). Inr (c2, calls @ calls2)))"

definition new_QNetworkReplyControllableReplay :: "('u \<Rightarrow> string) \<Rightarrow> nat \<Rightarrow> ('u, 'v) QNetworkReplyInitialSnapshot \<Rightarrow> 'u \<Rightarrow> int option \<Rightarrow> int option \<Rightarrow>
    hb_state \<Rightarrow> (('u, 'v) QNetworkReplyControllable \<times> timer_call list) result" where
  "new_QNetworkReplyControllableReplay toText t initial url origin sender hb =
     bindR (new_QNetworkReplyControllable t initial url origin sender hb) (\<lambda>(c, calls).
     bindR (enqueue_all toText t (tl (m_snapshots initial)) c) (\<lambda>(c1, calls1). Inr (c1, calls @ calls1)))"

section \<open>The factories\<close>

record 'i factory =
  f_doneCounter :: "32 word"
  f_networkHistory :: "'i list"

definition controllableDone :: "'i factory \<Rightarrow> 'i factory" where
  "controllableDone F = F\<lparr>f_doneCounter := f_doneCounter F + 1\<rparr>"

definition controllableConstructed :: "'i \<Rightarrow> 'i factory \<Rightarrow> 'i factory" where
  "controllableConstructed initial F = F\<lparr>f_networkHistory := f_networkHistory F @ [initial]\<rparr>"

record ('u, 'v) QNetworkReplyControllableFactoryReplay =
  fr_mode :: ReplayMode
  fr_snapshots :: "(string, ('u, 'v) QNetworkReplyInitialSnapshot list) smap"
  fr_warnings :: warning_state

definition add_snapshot :: "('u \<Rightarrow> string) \<Rightarrow> ('u, 'v) QNetworkReplyInitialSnapshot \<Rightarrow> (string, ('u, 'v) QNetworkReplyInitialSnapshot list) smap \<Rightarrow>
    (string, ('u, 'v) QNetworkReplyInitialSnapshot list) smap" where
  "add_snapshot toText snapshot m =
     (let url = toText (m_url snapshot) in
      case smap_lookup m url of None \<Rightarrow> smap_store url [snapshot] m
      | Some l \<Rightarrow> smap_store url (l @ [snapshot]) m)"

text \<open>The constructor reads the log to its end; every round takes values off the stream.\<close>

fun load_loop :: "nat \<Rightarrow> ('u \<Rightarrow> string) \<Rightarrow> ('u, 'v) data_stream \<Rightarrow> (string, ('u, 'v) QNetworkReplyInitialSnapshot list) smap \<Rightarrow>
    (string, ('u, 'v) QNetworkReplyInitialSnapshot list) smap result" where
  "load_loop 0 toText s m = Inl DIVERGES"
| "load_loop (Suc n) toText s m =
     (if s = [] then Inr m
      else bindR (snapshot_deserialize s) (\<lambda>(snapshot, rest). load_loop n toText rest (add_snapshot toText snapshot m)))"

definition new_QNetworkReplyControllableFactoryReplay :: "('u \<Rightarrow> string) \<Rightarrow> ('u, 'v) data_stream \<Rightarrow> warning_state \<Rightarrow>
    ('u, 'v) QNetworkReplyControllableFactoryReplay result" where
  "new_QNetworkReplyControllableFactoryReplay toText log ws =
     bindR (load_loop (Suc (length log)) toText log []) (\<lambda>m. Inr \<lparr>fr_mode = STRICT, fr_snapshots = m, fr_warnings = ws\<rparr>)"

definition fr_setMode :: "ReplayMode \<Rightarrow> ('u, 'v) QNetworkReplyControllableFactoryReplay \<Rightarrow> ('u, 'v) QNetworkReplyControllableFactoryReplay" where
  "fr_setMode value F = F\<lparr>fr_mode := value\<rparr>"

text \<open>
  The loop that looks for the best match, over the entries in the order in which the hash table is iterated. The best
  candidate is an entry with a non-empty list; its first snapshot is the match.
\<close>

fun fuzzy_snapshot_loop :: "'u qurl \<Rightarrow> 'u \<Rightarrow> (string \<times> ('u, 'v) QNetworkReplyInitialSnapshot list) list \<Rightarrow>
    32 word \<times> (string \<times> ('u, 'v) QNetworkReplyInitialSnapshot) option \<Rightarrow> (32 word \<times> (string \<times> ('u, 'v) QNetworkReplyInitialSnapshot) option) result" where
  "fuzzy_snapshot_loop Q url [] best = Inr best"
| "fuzzy_snapshot_loop Q url ((key, l) # es) best =
     (case l of [] \<Rightarrow> fuzzy_snapshot_loop Q url es best
      | snapshot # _ \<Rightarrow>
          bindR (url_score Q url (m_url snapshot)) (\<lambda>score.
            fuzzy_snapshot_loop Q url es (if score > fst best then (score, Some (key, snapshot)) else best)))"

text \<open>What \<open>construct\<close> makes: a live reply, or one that replays a snapshot.\<close>

datatype ('u, 'v) constructed = Live | Replaying "('u, 'v) QNetworkReplyInitialSnapshot"

definition take_from :: "string \<Rightarrow> ('u, 'v) QNetworkReplyControllableFactoryReplay \<Rightarrow> ('u, 'v) QNetworkReplyControllableFactoryReplay" where
  "take_from key F = F\<lparr>fr_snapshots := smap_store key (case smap_lookup (fr_snapshots F) key of None \<Rightarrow> [] | Some l \<Rightarrow> tl l) (fr_snapshots F)\<rparr>"

definition construct_fuzzy :: "'u qurl \<Rightarrow> ('u \<Rightarrow> string) \<Rightarrow> ((string \<times> ('u, 'v) QNetworkReplyInitialSnapshot list) list \<Rightarrow> (string \<times> ('u, 'v) QNetworkReplyInitialSnapshot list) list) \<Rightarrow>
    'u \<Rightarrow> ('u, 'v) QNetworkReplyControllableFactoryReplay \<Rightarrow> (('u, 'v) constructed \<times> ('u, 'v) QNetworkReplyControllableFactoryReplay) result" where
  "construct_fuzzy Q toText hash_order url F =
     bindR (fuzzy_snapshot_loop Q url (hash_order (fr_snapshots F)) (0, None)) (\<lambda>(bestScore, best).
       case best of
         Some (key, bestSnapshot) \<Rightarrow>
           (let details = ''Network request '' @ toText url @ '' fuzzy matched with '' @ toText (m_url bestSnapshot) @ ''.'';
                F1 = F\<lparr>fr_warnings := WarningCollectorReport ''WEBERA_NETWORK_DATA'' ''Network message fuzzy matched in best effort mode.''
                         details (fr_warnings F)\<rparr>
            in Inr (Replaying bestSnapshot, take_from key F1))
       | None \<Rightarrow>
           Inr (Live, F\<lparr>fr_warnings := WarningCollectorReport ''WEBERA_NETWORK_DATA'' ''New network request in best effort mode.''
                          (''Network request '' @ toText url @ ''.'') (fr_warnings F)\<rparr>))"

definition construct :: "'u qurl \<Rightarrow> ('u \<Rightarrow> string) \<Rightarrow> ((string \<times> ('u, 'v) QNetworkReplyInitialSnapshot list) list \<Rightarrow> (string \<times> ('u, 'v) QNetworkReplyInitialSnapshot list) list) \<Rightarrow>
    'u \<Rightarrow> ('u, 'v) QNetworkReplyControllableFactoryReplay \<Rightarrow> (('u, 'v) constructed \<times> ('u, 'v) QNetworkReplyControllableFactoryReplay) result" where
  "construct Q toText hash_order url F =
     (if fr_mode F = STOP then Inr (Live, F)
      else (case smap_lookup (fr_snapshots F) (toText url) of
          Some (snapshot # _) \<Rightarrow> Inr (Replaying snapshot, take_from (toText url) F)
        | _ \<Rightarrow>
            if fr_mode F = BEST_EFFORT \<or> fr_mode F = BEST_EFFORT_NOND then construct_fuzzy Q toText hash_order url F
            else Inl (EXIT 1)))"

section \<open>The names of network events\<close>

text \<open>What happens to a reply: a signal of Qt's reply (in a live one), or the firing of its timer.\<close>

datatype ('u, 'v) reply_op = RO_signal NetworkSignal "('u, 'v) QNetworkReply" | RO_update hb_state

fun reply_step :: "('u \<Rightarrow> string) \<Rightarrow> nat \<Rightarrow> ('u, 'v) reply_op \<Rightarrow> ('u, 'v) QNetworkReplyControllable \<Rightarrow>
    (('u, 'v) QNetworkReplyControllable \<times> timer_call list) result" where
  "reply_step toText t (RO_signal signal reply) c = live_signal toText t signal reply c"
| "reply_step toText t (RO_update hb) c = bindR (updateSnapshot toText t hb c) (\<lambda>(c1, _, _, calls, _). Inr (c1, calls))"

fun reply_run :: "('u \<Rightarrow> string) \<Rightarrow> nat \<Rightarrow> ('u, 'v) reply_op list \<Rightarrow> ('u, 'v) QNetworkReplyControllable \<Rightarrow>
    (('u, 'v) QNetworkReplyControllable \<times> timer_call list) result" where
  "reply_run toText t [] c = Inr (c, [])"
| "reply_run toText t (x # xs) c =
     bindR (reply_step toText t x c) (\<lambda>(c1, calls). bindR (reply_run toText t xs c1) (\<lambda>(c2, calls2). Inr (c2, calls @ calls2)))"

text \<open>The event actions announced by calls on the timer.\<close>

fun descriptors :: "timer_call list \<Rightarrow> EventActionDescriptor list" where
  "descriptors [] = []"
| "descriptors (TC_setDescriptor t d # cs) = d # descriptors cs"
| "descriptors (_ # cs) = descriptors cs"

lemma descriptors_append [simp]: "descriptors (xs @ ys) = descriptors xs @ descriptors ys"
  by (induction xs rule: descriptors.induct) auto

text \<open>The names that a sequence of signals gets: numbered from \<open>k\<close>, and the last number for the end.\<close>

definition event_name :: "string \<Rightarrow> 32 word \<Rightarrow> 64 word \<Rightarrow> NetworkSignal \<Rightarrow> EventActionDescriptor" where
  "event_name u n k signal = mk_descriptor WTF_NETWORK ''Network'' (network_params u n (if signal = NetworkSignal.FINISHED then - 1 else k))"

fun names :: "string \<Rightarrow> 32 word \<Rightarrow> 64 word \<Rightarrow> NetworkSignal list \<Rightarrow> EventActionDescriptor list" where
  "names u n k [] = []"
| "names u n k (s # ss) = event_name u n k s # names u n (if s = NetworkSignal.FINISHED then k else k + 1) ss"

abbreviation unfinished :: "NetworkSignal list \<Rightarrow> nat" where
  "unfinished ss \<equiv> length (filter (\<lambda>s. s \<noteq> NetworkSignal.FINISHED) ss)"

lemma names_snoc: "names u n k (ss @ [s]) = names u n k ss @ [event_name u n (k + of_nat (unfinished ss)) s]"
  by (induction ss arbitrary: k) (auto simp: add.assoc)

text \<open>The state after \<open>es\<close> were queued, \<open>ups\<close> of them were handed out and \<open>k\<close> were announced.\<close>

definition reply_inv :: "('u \<Rightarrow> string) \<Rightarrow> string \<Rightarrow> 32 word \<Rightarrow> (NetworkSignal \<times> 'v QNetworkReplySnapshot) list \<Rightarrow> nat \<Rightarrow> nat \<Rightarrow>
    ('u, 'v) QNetworkReplyControllable \<Rightarrow> EventActionDescriptor list \<Rightarrow> bool" where
  "reply_inv toText u n es ups k c ds =
     (c_hasReply c \<and> toText (c_url c) = u \<and> m_sameUrlSequenceNumber (c_initialSnapshot c) = n
      \<and> c_snapshotQueue c = drop ups es \<and> ups \<le> k \<and> k \<le> ups + 1 \<and> k \<le> length es \<and> (c_timerRunning c \<longleftrightarrow> k = ups + 1)
      \<and> c_sequenceNumber c = of_nat (unfinished (map fst (take k es))) \<and> ds = names u n 0 (map fst (take k es)))"

lemma schedule_inv:
  assumes "reply_inv toText u n es ups k c ds" "scheduleNextSnapshotUpdate toText t c = Inr (c', calls)"
  shows "reply_inv toText u n es ups (if ups < length es then ups + 1 else ups) c' (ds @ descriptors calls)
     \<and> c_initialSnapshot c' = c_initialSnapshot c"
proof (cases "c_timerRunning c \<or> c_snapshotQueue c = []")
  case True
  then show ?thesis using assms by (auto simp: reply_inv_def scheduleNextSnapshotUpdate_def split: list.splits)
next
  case False
  then have k: "k = ups" "ups < length es" using assms(1) by (auto simp: reply_inv_def)
  obtain sg s where e: "es ! ups = (sg, s)" by fastforce
  have q: "c_snapshotQueue c = (sg, s) # drop (Suc ups) es"
    using assms(1) k(2) e Cons_nth_drop_Suc [OF k(2)] by (simp add: reply_inv_def)
  have taken: "take (Suc ups) es = take ups es @ [(sg, s)]" using take_Suc_conv_app_nth [OF k(2)] e by simp
  have inv: "c_hasReply c" "toText (c_url c) = u" "m_sameUrlSequenceNumber (c_initialSnapshot c) = n"
    "c_sequenceNumber c = of_nat (unfinished (map fst (take ups es)))" "ds = names u n 0 (map fst (take ups es))"
    "c_snapshotQueue c = drop ups es"
    using assms(1) k(1) by (simp_all add: reply_inv_def)
  have calls: "descriptors calls = [event_name u n (c_sequenceNumber c) sg]"
    and c': "c' = (if sg = NetworkSignal.FINISHED then c\<lparr>c_timerRunning := True\<rparr>
       else c\<lparr>c_timerRunning := True, c_sequenceNumber := c_sequenceNumber c + 1\<rparr>)"
    using assms(2) False q inv(1-3) by (auto simp: scheduleNextSnapshotUpdate_def Let_def event_name_def split: if_splits)
  show ?thesis using k(2) inv unfolding reply_inv_def calls c' by (simp add: taken names_snoc)
qed

abbreviation announced :: "nat \<Rightarrow> 'a list \<Rightarrow> nat" where
  "announced ups es \<equiv> (if ups < length es then ups + 1 else ups)"

lemma enqueue_inv:
  assumes "reply_inv toText u n es ups k c ds" "enqueueSnapshot toText t sg s c = Inr (c', calls)"
  shows "reply_inv toText u n (es @ [(sg, s)]) ups (announced ups (es @ [(sg, s)])) c' (ds @ descriptors calls)
     \<and> c_initialSnapshot c' = c_initialSnapshot c"
proof -
  have "reply_inv toText u n (es @ [(sg, s)]) ups k (c\<lparr>c_snapshotQueue := c_snapshotQueue c @ [(sg, s)]\<rparr>) ds"
    using assms(1) by (auto simp: reply_inv_def)
  from schedule_inv [OF this] assms(2) show ?thesis by (simp add: enqueueSnapshot_def)
qed

lemma update_inv:
  assumes "reply_inv toText u n es ups (announced ups es) c ds" "updateSnapshot toText t hb c = Inr (c', b, arcs, calls, sg)"
  shows "reply_inv toText u n es (ups + 1) (announced (ups + 1) es) c' (ds @ descriptors calls)
     \<and> c_initialSnapshot c' = c_initialSnapshot c \<and> ups < length es"
proof -
  have lt: "ups < length es" using assms by (auto simp: updateSnapshot_def reply_inv_def Let_def split: if_splits list.splits)
  then obtain x where q: "c_snapshotQueue c = x # drop (ups + 1) es" using assms(1) by (simp add: reply_inv_def Cons_nth_drop_Suc [symmetric])
  obtain now s where c1: "scheduleNextSnapshotUpdate toText t
      (c\<lparr>c_lastNetworkEventAction := now, c_snapshotQueue := drop (ups + 1) es, c_currentSnapshot := s, c_timerRunning := False\<rparr>) = Inr (c', calls)"
    using assms(2) q by (auto simp: updateSnapshot_def Let_def split: if_splits prod.splits)
  have "reply_inv toText u n es (ups + 1) (ups + 1)
      (c\<lparr>c_lastNetworkEventAction := now, c_snapshotQueue := drop (ups + 1) es, c_currentSnapshot := s, c_timerRunning := False\<rparr>) ds"
    using assms(1) lt by (simp add: reply_inv_def)
  from schedule_inv [OF this c1] lt show ?thesis by simp
qed

lemma new_reply_inv:
  assumes "new_QNetworkReplyControllable t S url origin sender hb = Inr (c, calls)"
  shows "reply_inv toText (toText url) (m_sameUrlSequenceNumber S) [] 0 0 c (descriptors calls)" "c_initialSnapshot c = S" "m_snapshots S \<noteq> []"
  using assms by (auto simp: new_QNetworkReplyControllable_def reply_inv_def split: list.splits if_splits)

lemma live_signal_inv:
  assumes "reply_inv toText u n es ups k c ds" "live_signal toText t sg reply c = Inr (c', calls)"
    and "m_snapshots (c_initialSnapshot c) = i # es"
  shows "\<exists>es'. reply_inv toText u n es' ups (announced ups es') c' (ds @ descriptors calls) \<and> m_snapshots (c_initialSnapshot c') = i # es'"
proof -
  let ?S = "fst (takeSnapshot sg reply (c_initialSnapshot c))"
  obtain s where S: "m_snapshots ?S = i # es @ [(sg, s)]" "m_sameUrlSequenceNumber ?S = m_sameUrlSequenceNumber (c_initialSnapshot c)"
    using assms(3) by (simp add: takeSnapshot_def readAll_def Let_def)
  have "reply_inv toText u n es ups k (c\<lparr>c_initialSnapshot := ?S\<rparr>) ds" using assms(1) S(2) by (simp add: reply_inv_def)
  from enqueue_inv [OF this, of t sg s c' calls] assms(2) S(1) show ?thesis by (simp add: live_signal_def Let_def)
qed

lemma live_run_inv:
  "reply_inv toText u n es ups (announced ups es) c ds \<Longrightarrow> m_snapshots (c_initialSnapshot c) = i # es \<Longrightarrow>
     reply_run toText t ops c = Inr (c', calls) \<Longrightarrow>
     \<exists>es' ups'. reply_inv toText u n es' ups' (announced ups' es') c' (ds @ descriptors calls) \<and> m_snapshots (c_initialSnapshot c') = i # es'"
proof (induction ops arbitrary: es ups c ds calls)
  case Nil
  then show ?case by (intro exI [of _ es] exI [of _ ups]) simp
next
  case (Cons x ops)
  obtain c1 calls1 calls2 where s: "reply_step toText t x c = Inr (c1, calls1)" "reply_run toText t ops c1 = Inr (c', calls2)"
    "calls = calls1 @ calls2" using Cons.prems(3) by auto
  obtain es1 ups1 where "reply_inv toText u n es1 ups1 (announced ups1 es1) c1 (ds @ descriptors calls1)"
    "m_snapshots (c_initialSnapshot c1) = i # es1"
  proof (cases x)
    case (RO_signal sg reply)
    then have "live_signal toText t sg reply c = Inr (c1, calls1)" using s(1) by simp
    from live_signal_inv [OF Cons.prems(1) this Cons.prems(2)] that show ?thesis by blast
  next
    case (RO_update hb)
    then obtain b arcs sg where "updateSnapshot toText t hb c = Inr (c1, b, arcs, calls1, sg)" using s(1) by auto
    note u = update_inv [OF Cons.prems(1) this]
    show ?thesis by (rule that [OF conjunct1 [OF u]]) (use u Cons.prems(2) in simp)
  qed
  from Cons.IH [OF this s(2)] show ?case by (simp add: s(3))
qed

lemma enqueue_all_inv:
  "reply_inv toText u n es 0 (announced 0 es) c ds \<Longrightarrow> enqueue_all toText t es' c = Inr (c', calls) \<Longrightarrow>
     reply_inv toText u n (es @ es') 0 (announced 0 (es @ es')) c' (ds @ descriptors calls)"
proof (induction es' arbitrary: es c ds calls)
  case (Cons e es')
  obtain sg s where e: "e = (sg, s)" by fastforce
  obtain c1 calls1 calls2 where s: "enqueueSnapshot toText t sg s c = Inr (c1, calls1)" "enqueue_all toText t es' c1 = Inr (c', calls2)"
    "calls = calls1 @ calls2" using Cons.prems(2) e by auto
  from Cons.IH [OF _ s(2), of "es @ [e]" "ds @ descriptors calls1"] enqueue_inv [OF Cons.prems(1) s(1)] show ?case by (simp add: e s(3))
qed simp

lemma replay_run_inv:
  "reply_inv toText u n es ups (announced ups es) c ds \<Longrightarrow> \<forall>x \<in> set ops. \<exists>hb. x = RO_update hb \<Longrightarrow>
     reply_run toText t ops c = Inr (c', calls) \<Longrightarrow> \<exists>ups'. reply_inv toText u n es ups' (announced ups' es) c' (ds @ descriptors calls)"
proof (induction ops arbitrary: ups c ds calls)
  case Nil
  then show ?case by (intro exI [of _ ups]) simp
next
  case (Cons x ops)
  obtain hb c1 calls1 calls2 b arcs sg where s: "updateSnapshot toText t hb c = Inr (c1, b, arcs, calls1, sg)"
    "reply_run toText t ops c1 = Inr (c', calls2)" "calls = calls1 @ calls2" using Cons.prems(2,3) by auto
  from Cons.IH [OF _ _ s(2), of "ups + 1" "ds @ descriptors calls1"] update_inv [OF Cons.prems(1) s(1)] Cons.prems(2)
  show ?case by (simp add: s(3))
qed

text \<open>Once every queued snapshot has been handed out, all names were announced.\<close>

lemma all_announced: "reply_inv toText u n es ups (announced ups es) c ds \<Longrightarrow> c_snapshotQueue c = [] \<Longrightarrow> ds = names u n 0 (map fst es)"
  by (auto simp: reply_inv_def split: if_splits)

text \<open>
  C33: Replaying a reply announces the same event actions as recording it did: the names under which the scheduler
  knows the events of a live reply, whenever they arrived and were handled, are the names of the events of its
  replay from the network log, in the same order.
\<close>

theorem replay_announces_recorded:
  assumes "new_QNetworkReplyControllable t S url origin sender hb = Inr (c0, calls0)" "m_snapshots S = [i]"
    and "reply_run toText t ops c0 = Inr (c, calls)" "c_snapshotQueue c = []"
    and "snapshot_deserialize (snapshot_serialize (c_initialSnapshot c)) = Inr (S', [])"
    and "new_QNetworkReplyControllableReplay toText t' S' url' origin' sender' hb' = Inr (r0, calls0')" "toText url' = toText url"
    and "\<forall>x \<in> set ops'. \<exists>hb. x = RO_update hb" "reply_run toText t' ops' r0 = Inr (r, calls')" "c_snapshotQueue r = []"
  shows "descriptors (calls0 @ calls) = descriptors (calls0' @ calls')"
proof -
  note new = new_reply_inv [OF assms(1)]
  have fresh: "reply_inv toText (toText url) (m_sameUrlSequenceNumber S) [] 0 (announced 0 ([] :: (NetworkSignal \<times> _ QNetworkReplySnapshot) list)) c0 (descriptors calls0)"
    using new(1) by simp
  obtain es ups where live: "reply_inv toText (toText url) (m_sameUrlSequenceNumber S) es ups (announced ups es) c (descriptors (calls0 @ calls))"
    "m_snapshots (c_initialSnapshot c) = i # es"
    using live_run_inv [OF fresh _ assms(3), of i] new(2) assms(2) by auto
  have n: "m_sameUrlSequenceNumber (c_initialSnapshot c) = m_sameUrlSequenceNumber S" using live(1) by (simp add: reply_inv_def)
  have "S' = (c_initialSnapshot c)\<lparr>m_streamPosition := 0\<rparr>"
    using assms(5) snapshot_round_trip [OF deserialized_recorded [OF assms(5)], of "[]"] by simp
  then have S': "m_snapshots S' = i # es" "m_sameUrlSequenceNumber S' = m_sameUrlSequenceNumber S" using live(2) n by simp_all
  obtain r1 k1 k2 where r1: "new_QNetworkReplyControllable t' S' url' origin' sender' hb' = Inr (r1, k1)"
    "enqueue_all toText t' es r1 = Inr (r0, k2)" "calls0' = k1 @ k2"
    using assms(6) S'(1) by (auto simp: new_QNetworkReplyControllableReplay_def)
  have fresh': "reply_inv toText (toText url) (m_sameUrlSequenceNumber S) [] 0 (announced 0 ([] :: (NetworkSignal \<times> _ QNetworkReplySnapshot) list)) r1 (descriptors k1)"
    using new_reply_inv(1) [OF r1(1), of toText] S'(2) assms(7) by simp
  have "reply_inv toText (toText url) (m_sameUrlSequenceNumber S) es 0 (announced 0 es) r0 (descriptors calls0')"
    using enqueue_all_inv [OF fresh' r1(2)] by (simp add: r1(3))
  from replay_run_inv [OF this assms(8,9)] obtain ups' where
    "reply_inv toText (toText url) (m_sameUrlSequenceNumber S) es ups' (announced ups' es) r (descriptors (calls0' @ calls'))" by auto
  then show ?thesis using all_announced live(1) assms(4,10) by metis
qed

definition busy :: hb_state where
  "busy = new_hb_state\<lparr>hb_currentEventActionId := 5\<rparr>"

theorem replay_announces_recorded_witness:
  "\<exists>c0 calls0 c calls S' r0 calls0' r calls'.
     new_QNetworkReplyControllable 1 (fst (new_QNetworkReplyInitialSnapshot id (sample_reply []) [])) ''u'' (Some 1) (Some 1) busy = Inr (c0, calls0)
   \<and> reply_run id 1 [RO_signal READY_READ (sample_reply ''a''), RO_signal READY_READ (sample_reply ''b''), RO_update busy, RO_update busy] c0 = Inr (c, calls)
   \<and> snapshot_deserialize (snapshot_serialize (c_initialSnapshot c)) = Inr (S', [])
   \<and> new_QNetworkReplyControllableReplay id 2 S' ''u'' (Some 1) (Some 1) busy = Inr (r0, calls0')
   \<and> reply_run id 2 [RO_update busy, RO_update busy] r0 = Inr (r, calls')
   \<and> descriptors (calls0 @ calls) = descriptors (calls0' @ calls')"
proof -
  let ?S = "fst (new_QNetworkReplyInitialSnapshot id (sample_reply []) [])"
  let ?ops = "[RO_signal READY_READ (sample_reply ''a''), RO_signal READY_READ (sample_reply ''b''), RO_update busy, RO_update busy]"
  define n where "n = new_QNetworkReplyControllable 1 ?S ''u'' (Some 1) (Some 1) busy"
  define l where "l = reply_run id 1 ?ops (fst (projr n))"
  define d where "d = snapshot_deserialize (snapshot_serialize (c_initialSnapshot (fst (projr l))))"
  define p where "p = new_QNetworkReplyControllableReplay id 2 (fst (projr d)) ''u'' (Some 1) (Some 1) busy"
  define q where "q = reply_run id 2 [RO_update busy, RO_update busy] (fst (projr p))"
  have "\<not> isl n" "\<not> isl l" "c_snapshotQueue (fst (projr l)) = []" "\<not> isl d" "snd (projr d) = []" "\<not> isl p" "\<not> isl q" "c_snapshotQueue (fst (projr q)) = []"
    "m_snapshots ?S = [hd (m_snapshots ?S)]"
    unfolding q_def p_def d_def l_def n_def by code_simp+
  then have r: "n = Inr (fst (projr n), snd (projr n))" "l = Inr (fst (projr l), snd (projr l))" "d = Inr (fst (projr d), [])"
    "p = Inr (fst (projr p), snd (projr p))" "q = Inr (fst (projr q), snd (projr q))"
    "c_snapshotQueue (fst (projr l)) = []" "c_snapshotQueue (fst (projr q)) = []" "m_snapshots ?S = [hd (m_snapshots ?S)]"
    by (simp, simp, metis prod.collapse sum.collapse(2), simp_all)
  note x = trans [OF n_def [symmetric] r(1)] trans [OF l_def [symmetric] r(2)] trans [OF d_def [symmetric] r(3)]
    trans [OF p_def [symmetric] r(4)] trans [OF q_def [symmetric] r(5)]
  have "descriptors (snd (projr n) @ snd (projr l)) = descriptors (snd (projr p) @ snd (projr q))"
    by (rule replay_announces_recorded [OF x(1) r(8) x(2) r(6) x(3,4) refl _ x(5) r(7)]) simp
  with x show ?thesis by blast
qed

end
