(* ===== verification/Network_Replay.thy ===== *)
theory Network_Replay
  imports Network_Reply
begin

text \<open>
  What the replaying factory of network replies promises: a saved log is loaded as it was written, each request is
  answered with the next recorded reply to its URL, and a request that was not recorded is answered in best-effort
  mode with the reply to the most similar URL.
\<close>

section \<open>Loading the log\<close>

definition entries_for :: "string \<Rightarrow> (string, 'a list) smap \<Rightarrow> 'a list" where
  "entries_for u m = (case smap_lookup m u of None \<Rightarrow> [] | Some l \<Rightarrow> l)"

lemma add_snapshot_inv: "smap_inv m \<Longrightarrow> smap_inv (add_snapshot toText S m)"
  by (simp add: add_snapshot_def Let_def split: option.splits)

lemma add_snapshot_entries:
  "smap_inv m \<Longrightarrow> entries_for u (add_snapshot toText S m) = entries_for u m @ (if toText (m_url S) = u then [S] else [])"
  by (auto simp: add_snapshot_def entries_for_def Let_def split: option.splits)

lemma serialize_nonempty [simp]: "snapshot_serialize S \<noteq> []"
  by (simp add: snapshot_serialize_def)

lemma load_written:
  "\<forall>S \<in> set hist. recorded S \<Longrightarrow> length hist < n \<Longrightarrow>
     load_loop n toText (writeNetworkFile hist) m = Inr (fold (\<lambda>S. add_snapshot toText (S\<lparr>m_streamPosition := 0\<rparr>)) hist m)"
proof (induction hist arbitrary: n m)
  case Nil
  then show ?case by (cases n) (simp_all add: writeNetworkFile_def)
next
  case (Cons S hist)
  then obtain k where n: "n = Suc k" "length hist < k" by (cases n) auto
  have w: "writeNetworkFile (S # hist) = snapshot_serialize S @ writeNetworkFile hist" by (simp add: writeNetworkFile_def)
  have "snapshot_deserialize (writeNetworkFile (S # hist)) = Inr (S\<lparr>m_streamPosition := 0\<rparr>, writeNetworkFile hist)"
    unfolding w using Cons.prems(1) by (intro snapshot_round_trip) simp
  moreover have "writeNetworkFile (S # hist) \<noteq> []" by (simp add: w)
  ultimately show ?case using Cons.IH [of k] Cons.prems(1) n by simp
qed

lemma loaded_entries:
  "smap_inv m \<Longrightarrow> smap_inv (fold (\<lambda>S. add_snapshot toText (f S)) hist m)
    \<and> entries_for u (fold (\<lambda>S. add_snapshot toText (f S)) hist m) = entries_for u m @ map f (filter (\<lambda>S. toText (m_url (f S)) = u) hist)"
  by (induction hist arbitrary: m) (auto simp: add_snapshot_inv add_snapshot_entries)

lemma length_writeNetworkFile: "length hist \<le> length (writeNetworkFile hist)"
  by (induction hist) (auto simp: writeNetworkFile_def snapshot_serialize_def)

lemma loaded_factory:
  assumes "\<forall>S \<in> set hist. recorded S"
  obtains F where "new_QNetworkReplyControllableFactoryReplay toText (writeNetworkFile hist) ws = Inr F" "fr_mode F = STRICT" "fr_warnings F = ws"
    "smap_inv (fr_snapshots F)" "\<And>u. entries_for u (fr_snapshots F) = map (\<lambda>S. S\<lparr>m_streamPosition := 0\<rparr>) (filter (\<lambda>S. toText (m_url S) = u) hist)"
proof -
  have "length hist < Suc (length (writeNetworkFile hist))" using length_writeNetworkFile [of hist] by simp
  note load = load_written [OF assms this, of toText "[]"]
  let ?f = "\<lambda>S. S\<lparr>m_streamPosition := 0\<rparr>"
  have e: "smap_inv (fold (\<lambda>S. add_snapshot toText (?f S)) hist [])"
    "entries_for u (fold (\<lambda>S. add_snapshot toText (?f S)) hist []) = map ?f (filter (\<lambda>S. toText (m_url S) = u) hist)" for u
    using loaded_entries [of "[]" toText ?f hist u] by (simp_all add: entries_for_def)
  show ?thesis
    by (rule that [of "\<lparr>fr_mode = STRICT, fr_snapshots = fold (\<lambda>S. add_snapshot toText (?f S)) hist [], fr_warnings = ws\<rparr>"])
      (simp_all add: new_QNetworkReplyControllableFactoryReplay_def load e del: load_loop.simps)
qed

section \<open>Answering requests\<close>

text \<open>The abstract contract: a queue of recorded replies for each URL.\<close>

fun serve :: "(string \<Rightarrow> 'a list) \<Rightarrow> string list \<Rightarrow> 'a list result" where
  "serve queues [] = Inr []"
| "serve queues (u # us) =
     (case queues u of [] \<Rightarrow> Inl (EXIT 1)
      | S # l \<Rightarrow> bindR (serve (queues(u := l)) us) (\<lambda>rs. Inr (S # rs)))"

text \<open>The requests of a page, answered one after the other.\<close>

fun construct_all :: "'u qurl \<Rightarrow> ('u \<Rightarrow> string) \<Rightarrow> ((string \<times> ('u, 'v) QNetworkReplyInitialSnapshot list) list \<Rightarrow> (string \<times> ('u, 'v) QNetworkReplyInitialSnapshot list) list) \<Rightarrow>
    'u list \<Rightarrow> ('u, 'v) QNetworkReplyControllableFactoryReplay \<Rightarrow> ('u, 'v) constructed list result" where
  "construct_all Q toText hash_order [] F = Inr []"
| "construct_all Q toText hash_order (u # us) F =
     bindR (construct Q toText hash_order u F) (\<lambda>(r, F1). bindR (construct_all Q toText hash_order us F1) (\<lambda>rs. Inr (r # rs)))"

lemma take_from_fields [simp]:
  "fr_mode (take_from key F) = fr_mode F" "fr_warnings (take_from key F) = fr_warnings F"
  "smap_inv (fr_snapshots F) \<Longrightarrow> smap_inv (fr_snapshots (take_from key F))"
  "smap_inv (fr_snapshots F) \<Longrightarrow> entries_for u (fr_snapshots (take_from key F)) = (if u = key then tl (entries_for u (fr_snapshots F)) else entries_for u (fr_snapshots F))"
  by (auto simp: take_from_def entries_for_def split: option.splits)

lemma construct_exact:
  assumes "fr_mode F \<noteq> STOP" "entries_for (toText u) (fr_snapshots F) = S # l"
  shows "construct Q toText hash_order u F = Inr (Replaying S, take_from (toText u) F)"
  using assms by (auto simp: construct_def entries_for_def split: option.splits)

lemma construct_strict_miss:
  assumes "fr_mode F = STRICT" "entries_for (toText u) (fr_snapshots F) = []"
  shows "construct Q toText hash_order u F = Inl (EXIT 1)"
  using assms by (auto simp: construct_def entries_for_def split: option.splits)

lemma construct_all_serve:
  "fr_mode F = STRICT \<Longrightarrow> smap_inv (fr_snapshots F) \<Longrightarrow>
     construct_all Q toText hash_order us F = bindR (serve (\<lambda>u. entries_for u (fr_snapshots F)) (map toText us)) (\<lambda>rs. Inr (map Replaying rs))"
proof (induction us arbitrary: F)
  case (Cons u us)
  show ?case
  proof (cases "entries_for (toText u) (fr_snapshots F)")
    case Nil
    then show ?thesis using construct_strict_miss [OF Cons.prems(1), of toText u Q hash_order] by simp
  next
    case (Cons S l)
    have "(\<lambda>x. entries_for x (fr_snapshots (take_from (toText u) F))) = (\<lambda>x. entries_for x (fr_snapshots F))(toText u := l)"
      using Cons Cons.prems(2) by (auto simp: fun_eq_iff)
    then show ?thesis using Cons.IH [of "take_from (toText u) F"] Cons.prems construct_exact [of F toText u S l Q hash_order] Cons
      by (simp add: bindR_assoc)
  qed
qed simp

text \<open>
  C32: In strict mode the replay answers requests from the log alone, as queues of recorded replies by URL would: the
  first request for a URL gets the first reply that was recorded for it, the next one the second, and the
  program ends with an error exactly when more requests come for a URL than were recorded.
\<close>

theorem replay_serves_log:
  assumes "\<forall>S \<in> set hist. recorded S"
  shows "bindR (new_QNetworkReplyControllableFactoryReplay toText (writeNetworkFile hist) ws) (construct_all Q toText hash_order us)
     = bindR (serve (\<lambda>u. map (\<lambda>S. S\<lparr>m_streamPosition := 0\<rparr>) (filter (\<lambda>S. toText (m_url S) = u) hist)) (map toText us)) (\<lambda>rs. Inr (map Replaying rs))"
proof -
  obtain F where F: "new_QNetworkReplyControllableFactoryReplay toText (writeNetworkFile hist) ws = Inr F" "fr_mode F = STRICT"
    "smap_inv (fr_snapshots F)" "\<And>u. entries_for u (fr_snapshots F) = map (\<lambda>S. S\<lparr>m_streamPosition := 0\<rparr>) (filter (\<lambda>S. toText (m_url S) = u) hist)"
    using loaded_factory [OF assms] by metis
  then show ?thesis using construct_all_serve [OF F(2,3), of Q toText hash_order us] by simp
qed

definition sample_log :: "(string, nat) QNetworkReplyInitialSnapshot list" where
  "sample_log = [record_reply id (sample_reply ''x'') [] [(NetworkSignal.FINISHED, sample_reply ''y'')]]"

theorem replay_serves_log_witness:
  "\<forall>Q ws. bindR (new_QNetworkReplyControllableFactoryReplay id (writeNetworkFile sample_log) ws) (construct_all Q id (\<lambda>es. es) [''http://a/'', ''http://a/''])
     = Inl (EXIT 1)"
proof (intro allI)
  fix Q ws
  have "\<forall>S \<in> set sample_log. recorded S" by code_simp
  note served = replay_serves_log [OF this, of id ws Q "\<lambda>es. es" "[''http://a/'', ''http://a/'']"]
  have "serve (\<lambda>u. map (\<lambda>S. S\<lparr>m_streamPosition := 0\<rparr>) (filter (\<lambda>S. id (m_url S) = u) sample_log)) (map id [''http://a/'', ''http://a/'']) = Inl (EXIT 1)"
    by code_simp
  then show "bindR (new_QNetworkReplyControllableFactoryReplay id (writeNetworkFile sample_log) ws) (construct_all Q id (\<lambda>es. es) [''http://a/'', ''http://a/''])
     = Inl (EXIT 1)" unfolding served by (simp only: bindR.simps)
qed

section \<open>Fuzzy matching\<close>

fun heads :: "(string \<times> 'a list) list \<Rightarrow> (string \<times> 'a) list" where
  "heads [] = []"
| "heads ((k, l) # es) = (case l of [] \<Rightarrow> heads es | S # _ \<Rightarrow> (k, S) # heads es)"

lemma heads_iff: "(k, S) \<in> set (heads es) \<longleftrightarrow> (\<exists>l. (k, S # l) \<in> set es)"
  by (induction es rule: heads.induct) (auto split: list.splits)

definition score_of :: "'u qurl \<Rightarrow> 'u \<Rightarrow> string \<times> ('u, 'v) QNetworkReplyInitialSnapshot \<Rightarrow> 32 word" where
  "score_of Q u e = projr (url_score Q u (m_url (snd e)))"

lemma score_of_value: "url_score Q u (m_url S) = Inr (score_of Q u (k, S))"
  by (simp add: score_of_def url_score_value)

lemma fuzzy_loop_best: "fuzzy_snapshot_loop Q u es best = Inr (best_loop (score_of Q u) (heads es) best)"
proof (induction es arbitrary: best)
  case (Cons e es)
  obtain k l where e: "e = (k, l)" by fastforce
  show ?case
  proof (cases l)
    case (Cons S l')
    then show ?thesis using Cons.IH by (simp add: e score_of_value [of Q u S k])
  qed (use Cons.IH e in simp)
qed simp

lemma smap_entries: "smap_inv m \<Longrightarrow> (k, l) \<in> set m \<longleftrightarrow> smap_lookup m k = Some l"
  by (auto simp: smap_inv_def strict_sorted_iff intro: map_of_is_SomeI map_of_SomeD)

text \<open>The first waiting reply of each URL, whatever order the hash table has.\<close>

lemma heads_waiting:
  assumes "smap_inv m" "mset es = mset m"
  shows "(k, S) \<in> set (heads es) \<longleftrightarrow> (\<exists>l. entries_for k m = S # l)"
proof -
  have "set es = set m" using assms(2) by (rule mset_eq_setD)
  then show ?thesis using smap_entries [OF assms(1)] by (auto simp: heads_iff entries_for_def split: option.splits)
qed

definition waiting :: "('u, 'v) QNetworkReplyControllableFactoryReplay \<Rightarrow> string \<Rightarrow> ('u, 'v) QNetworkReplyInitialSnapshot \<Rightarrow> bool" where
  "waiting F v S = (\<exists>l. entries_for v (fr_snapshots F) = S # l)"

text \<open>
  C35: A request that is not in the log is answered, in best-effort mode, with the first waiting reply whose URL scores
  highest, which is taken from its queue; only when no waiting reply has a comparable URL is the request made
  live. Either way one warning is reported, and the iteration order of the hash table does not matter for the score.
\<close>

theorem fuzzy_match_best:
  assumes "fr_mode F = BEST_EFFORT \<or> fr_mode F = BEST_EFFORT_NOND" "smap_inv (fr_snapshots F)"
    and "mset (hash_order (fr_snapshots F)) = mset (fr_snapshots F)" "entries_for (toText u) (fr_snapshots F) = []"
  shows "\<exists>r F'. construct Q toText hash_order u F = Inr (r, F')
     \<and> length (warningCollector (fr_warnings F')) = length (warningCollector (fr_warnings F)) + 1
     \<and> (case r of
          Live \<Rightarrow> fr_snapshots F' = fr_snapshots F \<and> (\<forall>v S. waiting F v S \<longrightarrow> url_score Q u (m_url S) = Inr MISMATCH)
        | Replaying S \<Rightarrow> \<exists>v. waiting F v S \<and> fr_snapshots F' = smap_store v (tl (entries_for v (fr_snapshots F))) (fr_snapshots F)
            \<and> (\<exists>s. url_score Q u (m_url S) = Inr s \<and> MISMATCH < s
                \<and> (\<forall>v' S' s'. waiting F v' S' \<and> url_score Q u (m_url S') = Inr s' \<longrightarrow> s' \<le> s)))"
proof -
  let ?es = "hash_order (fr_snapshots F)"
  have waits: "waiting F v S \<longleftrightarrow> (v, S) \<in> set (heads ?es)" for v S
    using heads_waiting [OF assms(2,3)] by (simp add: waiting_def)
  have c: "construct Q toText hash_order u F = construct_fuzzy Q toText hash_order u F"
    using assms(1,4) by (auto simp: construct_def entries_for_def split: option.splits)
  obtain s b where best: "best_loop (score_of Q u) (heads ?es) (0, None) = (s, b)" by fastforce
  have max: "\<forall>e \<in> set (heads ?es). score_of Q u e \<le> s"
    and found: "s = 0 \<and> b = None \<or> 0 < s \<and> (\<exists>e \<in> set (heads ?es). b = Some e \<and> score_of Q u e = s)"
    using best_loop_max [where f = "score_of Q u" and cs = "heads ?es" and s = 0 and b = None] best by simp_all
  show ?thesis
  proof (cases b)
    case None
    then have "url_score Q u (m_url S) = Inr MISMATCH" if "waiting F v S" for v S
      using max found that waits score_of_value [of Q u S v] by fastforce
    then show ?thesis using None by (simp add: c construct_fuzzy_def fuzzy_loop_best best WarningCollectorReport_def collect_def)
  next
    case (Some e)
    obtain v S where e: "e = (v, S)" by fastforce
    have "waiting F v S" "url_score Q u (m_url S) = Inr s" "0 < s" using found Some e waits score_of_value [of Q u S v] by auto
    moreover have "s' \<le> s" if "waiting F v' S'" "url_score Q u (m_url S') = Inr s'" for v' S' s'
      using max that waits score_of_value [of Q u S' v'] by auto
    ultimately show ?thesis using Some e
      by (auto simp: c construct_fuzzy_def fuzzy_loop_best best WarningCollectorReport_def collect_def take_from_def entries_for_def
          split: option.splits)
  qed
qed

text \<open>URLs as their path, for an example.\<close>

definition path_url :: "string qurl" where
  "path_url = \<lparr>q_eq = (=), q_host = (\<lambda>u. []), q_path = id, q_hasQuery = (\<lambda>u. False), q_queryItems = (\<lambda>u. []),
     q_hasFragment = (\<lambda>u. False), q_hasQueryItem = (\<lambda>u k. False), q_queryItemValue = (\<lambda>u k. [])\<rparr>"

definition sample_factory :: "warning_state \<Rightarrow> (string, nat) QNetworkReplyControllableFactoryReplay" where
  "sample_factory ws = fr_setMode BEST_EFFORT \<lparr>fr_mode = STRICT, fr_snapshots = [(''http://a/'', sample_log)], fr_warnings = ws\<rparr>"

theorem fuzzy_match_best_witness:
  "\<forall>ws. \<exists>r F'. construct path_url id (\<lambda>es. es) ''http://b/'' (sample_factory ws) = Inr (r, F')
     \<and> length (warningCollector (fr_warnings F')) = length (warningCollector ws) + 1"
proof
  fix ws
  have "fr_mode (sample_factory ws) = BEST_EFFORT \<or> fr_mode (sample_factory ws) = BEST_EFFORT_NOND" "smap_inv (fr_snapshots (sample_factory ws))"
    "entries_for (id ''http://b/'') (fr_snapshots (sample_factory ws)) = []" "fr_warnings (sample_factory ws) = ws"
    by (simp_all add: sample_factory_def fr_setMode_def smap_inv_def entries_for_def)
  with fuzzy_match_best [OF this(1,2), where hash_order = "\<lambda>es. es" and toText = id and u = "''http://b/''" and Q = path_url]
  show "\<exists>r F'. construct path_url id (\<lambda>es. es) ''http://b/'' (sample_factory ws) = Inr (r, F')
     \<and> length (warningCollector (fr_warnings F')) = length (warningCollector ws) + 1" by auto
qed

end
