(* ===== verification/Dom_Timer.thy ===== *)
theory Dom_Timer
  imports Thread_Timers
begin

text \<open>
  The timers of JavaScript (\<open>Source/WebCore/page/DOMTimer\<close>, \<open>SuspendableTimer\<close>): \<open>setTimeout\<close> and \<open>setInterval\<close> install a
  timer, give it a name under which the scheduler knows it and report it to the action log. An operation returns the new
  state and its effects in order: reports to the log and calls on its timer. The scripts that timers run are not
  part of the model: \<open>fired\<close> ends where the script is executed, and \<open>fired_end\<close> is what follows.
\<close>

section \<open>State\<close>

datatype dom_effect = DE_log report_call | DE_timer timer_call

record 'a ScheduledAction =
  a_calledUrl :: string
  a_calledLine :: "32 word"
  a_script :: 'a

record 'a DOMTimer =
  m_timeoutId :: int
  m_nestingLevel :: int
  m_action :: "'a ScheduledAction option"
  m_originalInterval :: int
  m_shouldForwardUserGesture :: bool
  st_nextFireInterval :: int
  st_repeatInterval :: int
  st_active :: bool
  st_suspended :: bool

text \<open>
  The timers by the number of their \<open>TimerBase\<close>, the timeouts of the context, and the static variables. Times are in
  microseconds.
\<close>

record 'a dom_state =
  d_timers :: "nat \<Rightarrow> 'a DOMTimer option"
  d_timeouts :: "(int, nat) smap"
  d_minimumTimerInterval :: int
  d_lastUsedTimeoutId :: int
  d_timerNestingLevel :: int
  d_nextSameUrlSequenceNumber :: "(string, 32 word) smap"

definition new_dom_state :: "int \<Rightarrow> 'a dom_state" where
  "new_dom_state minimum = \<lparr>d_timers = (\<lambda>_. None), d_timeouts = [], d_minimumTimerInterval = minimum, d_lastUsedTimeoutId = 0,
     d_timerNestingLevel = 0, d_nextSameUrlSequenceNumber = []\<rparr>"

section \<open>Operations\<close>

text \<open>The increment of the \<open>int\<close> wraps.\<close>

definition timeoutId :: "'a dom_state \<Rightarrow> int \<times> 'a dom_state" where
  "timeoutId s =
     (let next = (if d_lastUsedTimeoutId s = 2 ^ 31 - 1 then - (2 ^ 31) else d_lastUsedTimeoutId s + 1);
          used = (if next \<le> 0 then 1 else next)
      in (used, s\<lparr>d_lastUsedTimeoutId := used\<rparr>))"

definition shouldForwardUserGesture :: "bool \<Rightarrow> int \<Rightarrow> int \<Rightarrow> bool" where
  "shouldForwardUserGesture processingUserGesture interval nestingLevel =
     (processingUserGesture \<and> interval \<le> 1000 \<and> nestingLevel = 1)"

definition intervalClampedToMinimum :: "int \<Rightarrow> int \<Rightarrow> int \<Rightarrow> int" where
  "intervalClampedToMinimum nestingLevel timeout_ms minimumTimerInterval =
     (let interval = max 1000 (timeout_ms * 1000) in
      if interval < minimumTimerInterval \<and> 5 \<le> nestingLevel then minimumTimerInterval else interval)"

definition addTimeout :: "int \<Rightarrow> nat \<Rightarrow> 'a dom_state \<Rightarrow> 'a dom_state result" where
  "addTimeout i t s =
     (if smap_lookup (d_timeouts s) i \<noteq> None then Inl ASSERT_FAILED else Inr (s\<lparr>d_timeouts := smap_store i t (d_timeouts s)\<rparr>))"

definition removeTimeout :: "int \<Rightarrow> 'a dom_state \<Rightarrow> 'a dom_state" where
  "removeTimeout i s = s\<lparr>d_timeouts := smap_erase i (d_timeouts s)\<rparr>"

definition new_DOMTimer :: "nat \<Rightarrow> 'a ScheduledAction \<Rightarrow> int \<Rightarrow> bool \<Rightarrow> bool \<Rightarrow> 'a dom_state \<Rightarrow> ('a dom_state \<times> dom_effect list) result" where
  "new_DOMTimer t action interval singleShot gesture s =
     (let (i, s1) = timeoutId s;
          nesting = d_timerNestingLevel s1 + 1;
          dt = \<lparr>m_timeoutId = i, m_nestingLevel = nesting, m_action = Some action, m_originalInterval = interval,
            m_shouldForwardUserGesture = shouldForwardUserGesture gesture interval nesting, st_nextFireInterval = 0,
            st_repeatInterval = 0, st_active = False, st_suspended = False\<rparr>
      in bindR (addTimeout i t (s1\<lparr>d_timers := (d_timers s1)(t \<mapsto> dt)\<rparr>)) (\<lambda>s2.
           let us = intervalClampedToMinimum nesting interval (d_minimumTimerInterval s2)
           in Inr (s2, [DE_timer (TC_start t us (if singleShot then 0 else us))])))"

definition delete_DOMTimer :: "nat \<Rightarrow> 'a dom_state \<Rightarrow> 'a dom_state \<times> dom_effect list" where
  "delete_DOMTimer t s =
     (case d_timers s t of None \<Rightarrow> (s, [])
      | Some dt \<Rightarrow> (removeTimeout (m_timeoutId dt) (s\<lparr>d_timers := (d_timers s)(t := None)\<rparr>), [DE_timer (TC_stop t)]))"

definition sequence_ident :: "string \<Rightarrow> 32 word \<Rightarrow> int \<Rightarrow> string" where
  "sequence_ident url line callee = url @ ''-'' @ nat_dec (unat line) @ int_dec callee"

definition dom_getNextSameUrlSequenceNumber :: "string \<Rightarrow> 32 word \<Rightarrow> int \<Rightarrow> 'a dom_state \<Rightarrow> 32 word \<times> 'a dom_state" where
  "dom_getNextSameUrlSequenceNumber url line callee s =
     (let ident = sequence_ident url line callee; numbers = d_nextSameUrlSequenceNumber s in
      case smap_lookup numbers ident of
        Some i \<Rightarrow> (i, s\<lparr>d_nextSameUrlSequenceNumber := smap_store ident (i + 1) numbers\<rparr>)
      | None \<Rightarrow> (0, s\<lparr>d_nextSameUrlSequenceNumber := smap_insert_new ident 1 numbers\<rparr>))"

text \<open>\<open>T\<close> is the \<open>TimerBase\<close> and \<open>now\<close> the time; \<open>suspended\<close> tells whether the active objects of the context are suspended.\<close>

definition suspend :: "TimerBase \<Rightarrow> int \<Rightarrow> nat \<Rightarrow> 'a DOMTimer \<Rightarrow> ('a DOMTimer \<times> dom_effect list) result" where
  "suspend T now t dt =
     (if st_suspended dt then Inl ASSERT_FAILED
      else (let dt1 = dt\<lparr>st_suspended := True, st_active := isActive T\<rparr> in
        if isActive T
        then bindR (nextFireInterval now T) (\<lambda>interval.
          case interval of Neg_Infinity \<Rightarrow> Inl UNDEFINED
          | At i \<Rightarrow> Inr (dt1\<lparr>st_nextFireInterval := i, st_repeatInterval := m_repeatInterval T\<rparr>, [DE_timer (TC_stop t)]))
        else Inr (dt1, [])))"

definition resume :: "nat \<Rightarrow> 'a DOMTimer \<Rightarrow> ('a DOMTimer \<times> dom_effect list) result" where
  "resume t dt =
     (if \<not> st_suspended dt then Inl ASSERT_FAILED
      else Inr (dt\<lparr>st_suspended := False\<rparr>,
                if st_active dt then [DE_timer (TC_start t (st_nextFireInterval dt) (st_repeatInterval dt))] else []))"

text \<open>
  The name of a timer. \<open>suspendIfNeeded\<close> suspends the new timer when the context is suspended: \<open>T\<close> is its \<open>TimerBase\<close>
  by then, and \<open>pointer\<close> the text of its address.
\<close>

definition timer_params :: "string \<Rightarrow> 32 word \<Rightarrow> int \<Rightarrow> bool \<Rightarrow> int \<Rightarrow> 32 word \<Rightarrow> string" where
  "timer_params url line timeout_ms singleShot callee number =
     url @ '','' @ nat_dec (unat line) @ '','' @ int_dec timeout_ms @ '','' @ (if singleShot then ''true'' else ''false'')
       @ '','' @ int_dec callee @ '','' @ nat_dec (unat number)"

definition install :: "nat \<Rightarrow> string \<Rightarrow> 'a ScheduledAction \<Rightarrow> int \<Rightarrow> bool \<Rightarrow> bool \<Rightarrow> hb_state \<Rightarrow> (TimerBase \<times> int) option \<Rightarrow> 'a dom_state \<Rightarrow>
    (int \<times> EventActionDescriptor \<times> 'a dom_state \<times> dom_effect list) result" where
  "install t pointer action timeout_ms singleShot gesture hb suspended s =
     (let url = (if a_calledUrl action = [] then ''-'' else escapeParam (a_calledUrl action)) in
      bindR (if HBIsCurrentEventActionValid hb then HBCurrentEventAction hb else Inr (- 1)) (\<lambda>callee.
      let (number, s1) = dom_getNextSameUrlSequenceNumber url (a_calledLine action) callee s;
          descriptor = mk_descriptor WTF_TIMER ''DOMTimer'' (timer_params url (a_calledLine action) timeout_ms singleShot callee number)
      in bindR (new_DOMTimer t action timeout_ms singleShot gesture s1) (\<lambda>(s2, started).
         bindR (case d_timers s2 t of None \<Rightarrow> Inl UNDEFINED | Some dt \<Rightarrow> Inr dt) (\<lambda>dt.
         bindR (case suspended of None \<Rightarrow> Inr (dt, []) | Some (T, now) \<Rightarrow> suspend T now t dt) (\<lambda>(dt1, stopped).
           Inr (m_timeoutId dt, descriptor, s2\<lparr>d_timers := (d_timers s2)(t \<mapsto> dt1)\<rparr>,
                [DE_log (R_ScopeStart ''DOM Timer'')] @ started
                @ [DE_log (R_Format WRITE_MEMORY (''Timer:'' @ int_dec (m_timeoutId dt))),
                   DE_log (R_Format MEMORY_VALUE (''DOMTimer['' @ pointer @ '']'')), DE_timer (TC_setDescriptor t descriptor)]
                @ stopped @ [DE_log R_ScopeEnd]))))))"

definition removeById :: "int \<Rightarrow> 'a dom_state \<Rightarrow> 'a dom_state \<times> dom_effect list" where
  "removeById i s =
     (if i \<le> 0 then (s, [])
      else (let logged = [DE_log (R_Format WRITE_MEMORY (''Timer:'' @ int_dec i)), DE_log (R_Format MEMORY_VALUE ''undefined'')] in
        case smap_lookup (d_timeouts s) i of None \<Rightarrow> (s, logged)
        | Some t \<Rightarrow> (let (s1, stopped) = delete_DOMTimer t s in (s1, logged @ stopped))))"

text \<open>Up to the execution of the script; \<open>None\<close> is an action that was released before.\<close>

definition fired :: "nat \<Rightarrow> string \<Rightarrow> TimerBase \<Rightarrow> bool \<Rightarrow> 'a dom_state \<Rightarrow> ('a ScheduledAction option \<times> 'a dom_state \<times> dom_effect list) result" where
  "fired t pointer T suspended s =
     (case d_timers s t of None \<Rightarrow> Inl UNDEFINED
      | Some dt \<Rightarrow>
        let s1 = s\<lparr>d_timerNestingLevel := m_nestingLevel dt\<rparr> in
        if suspended then Inl ASSERT_FAILED
        else
          (let dt1 = dt\<lparr>m_shouldForwardUserGesture := False\<rparr> in
           if isActive T
           then (let minimum = d_minimumTimerInterval s1;
                     short = (m_repeatInterval T \<noteq> 0 \<and> m_repeatInterval T < minimum);
                     dt2 = (if short then dt1\<lparr>m_nestingLevel := m_nestingLevel dt1 + 1\<rparr> else dt1);
                     augmented = (if short \<and> 5 \<le> m_nestingLevel dt2 then [DE_timer (TC_augmentRepeat t (minimum - m_repeatInterval T))] else [])
                 in Inr (m_action dt2, s1\<lparr>d_timers := (d_timers s1)(t \<mapsto> dt2)\<rparr>,
                         augmented @ [DE_log (R_Format READ_MEMORY (''Timer:'' @ int_dec (m_timeoutId dt2))),
                                      DE_log (R_Format MEMORY_VALUE (''DOMTimer['' @ pointer @ '']''))]))
           else (let (s2, stopped) = delete_DOMTimer t (s1\<lparr>d_timers := (d_timers s1)(t \<mapsto> dt1\<lparr>m_action := None\<rparr>)\<rparr>)
                 in Inr (m_action dt1, s2, stopped))))"

text \<open>After the script of a one-shot timer.\<close>

definition fired_end :: "'a dom_state \<Rightarrow> 'a dom_state" where
  "fired_end s = s\<lparr>d_timerNestingLevel := 0\<rparr>"

definition dom_stop :: "nat \<Rightarrow> 'a DOMTimer \<Rightarrow> 'a DOMTimer \<times> dom_effect list" where
  "dom_stop t dt = (dt\<lparr>m_action := None\<rparr>, [DE_timer (TC_stop t)])"

definition dom_adjustMinimumTimerInterval :: "int \<Rightarrow> TimerBase \<Rightarrow> nat \<Rightarrow> int \<Rightarrow> 'a DOMTimer \<Rightarrow> dom_effect list" where
  "dom_adjustMinimumTimerInterval oldMinimum T t newMinimum dt =
     (if m_nestingLevel dt < 5 then []
      else (let newClamped = intervalClampedToMinimum (m_nestingLevel dt) (m_originalInterval dt) newMinimum in
        if m_repeatInterval T \<noteq> 0 then [DE_timer (TC_augmentRepeat t (newClamped - m_repeatInterval T))]
        else [DE_timer (TC_augmentFire t (newClamped - intervalClampedToMinimum (m_nestingLevel dt) (m_originalInterval dt) oldMinimum))]))"

section \<open>The names of timers\<close>

text \<open>What can happen to the timers of a page, with all that the operations take from their surroundings.\<close>

datatype 'a dom_call =
  DC_install nat string "'a ScheduledAction" int bool bool hb_state "(TimerBase \<times> int) option"
  | DC_removeById int | DC_fired nat string TimerBase bool | DC_fired_end | DC_suspend nat TimerBase int | DC_resume nat | DC_stop nat
  | DC_adjust nat TimerBase int | DC_minimum int

definition on_timer :: "nat \<Rightarrow> ('a DOMTimer \<Rightarrow> ('a DOMTimer \<times> dom_effect list) result) \<Rightarrow> 'a dom_state \<Rightarrow> ('a dom_state \<times> dom_effect list) result" where
  "on_timer t f s =
     (case d_timers s t of None \<Rightarrow> Inl UNDEFINED
      | Some dt \<Rightarrow> bindR (f dt) (\<lambda>(dt1, es). Inr (s\<lparr>d_timers := (d_timers s)(t \<mapsto> dt1)\<rparr>, es)))"

fun dom_step :: "'a dom_call \<Rightarrow> 'a dom_state \<Rightarrow> ('a dom_state \<times> (int \<times> EventActionDescriptor) list) result" where
  "dom_step (DC_install t p a ms single g hb sus) s = bindR (install t p a ms single g hb sus s) (\<lambda>(i, d, s1, es). Inr (s1, [(i, d)]))"
| "dom_step (DC_removeById i) s = Inr (fst (removeById i s), [])"
| "dom_step (DC_fired t p T sus) s = bindR (fired t p T sus s) (\<lambda>(a, s1, es). Inr (s1, []))"
| "dom_step DC_fired_end s = Inr (fired_end s, [])"
| "dom_step (DC_suspend t T now) s = bindR (on_timer t (suspend T now t) s) (\<lambda>(s1, es). Inr (s1, []))"
| "dom_step (DC_resume t) s = bindR (on_timer t (resume t) s) (\<lambda>(s1, es). Inr (s1, []))"
| "dom_step (DC_stop t) s = bindR (on_timer t (\<lambda>dt. Inr (dom_stop t dt)) s) (\<lambda>(s1, es). Inr (s1, []))"
| "dom_step (DC_adjust t T old) s =
     bindR (on_timer t (\<lambda>dt. Inr (dt, dom_adjustMinimumTimerInterval old T t (d_minimumTimerInterval s) dt)) s) (\<lambda>(s1, es). Inr (s1, []))"
| "dom_step (DC_minimum m) s = Inr (s\<lparr>d_minimumTimerInterval := m\<rparr>, [])"

fun dom_run :: "'a dom_call list \<Rightarrow> 'a dom_state \<Rightarrow> ('a dom_state \<times> (int \<times> EventActionDescriptor) list) result" where
  "dom_run [] s = Inr (s, [])"
| "dom_run (c # cs) s = bindR (dom_step c s) (\<lambda>(s1, ds). bindR (dom_run cs s1) (\<lambda>(s2, ds2). Inr (s2, ds @ ds2)))"

lemma sequence_number_next:
  "dom_getNextSameUrlSequenceNumber url line e s =
     (let (i, m) = next_number (sequence_ident url line e) (d_nextSameUrlSequenceNumber s) in (i, s\<lparr>d_nextSameUrlSequenceNumber := m\<rparr>))"
  by (auto simp: dom_getNextSameUrlSequenceNumber_def next_number_def smap_insert_new_def Let_def split: option.splits)

text \<open>What determines a name: the URL, the line and the event action, and what follows.\<close>

record timer_name =
  n_url :: string
  n_line :: "32 word"
  n_ms :: int
  n_single :: bool
  n_callee :: int

definition name_ident :: "timer_name \<Rightarrow> string" where
  "name_ident x = sequence_ident (n_url x) (n_line x) (n_callee x)"

definition name_text :: "timer_name \<Rightarrow> 32 word \<Rightarrow> EventActionDescriptor" where
  "name_text x k = mk_descriptor WTF_TIMER ''DOMTimer'' (timer_params (n_url x) (n_line x) (n_ms x) (n_single x) (n_callee x) k)"

lemma install_name:
  assumes "install t p a ms single g hb sus s = Inr (i, d, s', es)"
  shows "\<exists>x. comma_free (n_url x) \<and> d = name_text x (fst (next_number (name_ident x) (d_nextSameUrlSequenceNumber s)))
     \<and> d_nextSameUrlSequenceNumber s' = snd (next_number (name_ident x) (d_nextSameUrlSequenceNumber s))
     \<and> i = fst (timeoutId s) \<and> d_lastUsedTimeoutId s' = i"
proof -
  let ?url = "if a_calledUrl a = [] then ''-'' else escapeParam (a_calledUrl a)"
  obtain e where e: "(if HBIsCurrentEventActionValid hb then HBCurrentEventAction hb else Inr (- 1)) = Inr e"
    using assms by (auto simp: install_def Let_def)
  let ?x = "\<lparr>n_url = ?url, n_line = a_calledLine a, n_ms = ms, n_single = single, n_callee = e\<rparr>"
  obtain k m where nx: "next_number (name_ident ?x) (d_nextSameUrlSequenceNumber s) = (k, m)" by fastforce
  have nx': "next_number (sequence_ident ?url (a_calledLine a) e) (d_nextSameUrlSequenceNumber s) = (k, m)"
    using nx by (simp add: name_ident_def)
  obtain s2 started dt dt1 where new: "new_DOMTimer t a ms single g (s\<lparr>d_nextSameUrlSequenceNumber := m\<rparr>) = Inr (s2, started)"
    "(case d_timers s2 t of None \<Rightarrow> Inl UNDEFINED | Some dt \<Rightarrow> Inr dt) = Inr dt" "i = m_timeoutId dt" "s' = s2\<lparr>d_timers := (d_timers s2)(t \<mapsto> dt1)\<rparr>"
    and d: "d = name_text ?x k"
    using assms unfolding install_def Let_def [of ?url] e bindR.simps sequence_number_next nx' by (auto simp: name_text_def Let_def)
  have "d_timers s2 t = Some dt" using new(2) by (simp split: option.splits)
  then have "d_nextSameUrlSequenceNumber s' = m \<and> i = fst (timeoutId s) \<and> d_lastUsedTimeoutId s' = i"
    using new(1,3,4) by (auto simp: new_DOMTimer_def addTimeout_def timeoutId_def Let_def split: if_splits)
  moreover have "comma_free ?url" by simp
  ultimately show ?thesis using d nx by (intro exI [of _ ?x]) simp
qed

lemma on_timer_static:
  "on_timer t f s = Inr (s', es) \<Longrightarrow> d_nextSameUrlSequenceNumber s' = d_nextSameUrlSequenceNumber s \<and> d_lastUsedTimeoutId s' = d_lastUsedTimeoutId s"
  by (auto simp: on_timer_def split: option.splits)

lemma delete_static:
  "d_nextSameUrlSequenceNumber (fst (delete_DOMTimer t s)) = d_nextSameUrlSequenceNumber s"
  "d_lastUsedTimeoutId (fst (delete_DOMTimer t s)) = d_lastUsedTimeoutId s"
  by (auto simp: delete_DOMTimer_def removeTimeout_def split: option.splits)

lemma delete_static':
  "delete_DOMTimer t s = (s', es) \<Longrightarrow> d_nextSameUrlSequenceNumber s' = d_nextSameUrlSequenceNumber s \<and> d_lastUsedTimeoutId s' = d_lastUsedTimeoutId s"
  using delete_static [of t s] by simp

lemma fired_static:
  "fired t p T sus s = Inr (a, s', es) \<Longrightarrow> d_nextSameUrlSequenceNumber s' = d_nextSameUrlSequenceNumber s \<and> d_lastUsedTimeoutId s' = d_lastUsedTimeoutId s"
  by (auto simp: fired_def Let_def split: option.splits if_splits prod.splits dest: delete_static')

abbreviation draws :: "timer_name list \<Rightarrow> (string, 32 word) smap \<Rightarrow> (string, 32 word) smap" where
  "draws xs m \<equiv> fold (\<lambda>k m. snd (next_number k m)) (map name_ident xs) m"

lemma dom_step_names:
  assumes "dom_step c s = Inr (s', ds)"
  shows "(ds = [] \<and> d_nextSameUrlSequenceNumber s' = d_nextSameUrlSequenceNumber s \<and> d_lastUsedTimeoutId s' = d_lastUsedTimeoutId s)
     \<or> (\<exists>x i. comma_free (n_url x) \<and> ds = [(i, name_text x (fst (next_number (name_ident x) (d_nextSameUrlSequenceNumber s))))]
          \<and> d_nextSameUrlSequenceNumber s' = snd (next_number (name_ident x) (d_nextSameUrlSequenceNumber s))
          \<and> i = fst (timeoutId s) \<and> d_lastUsedTimeoutId s' = i)"
proof (cases c)
  case (DC_install t p a ms single g hb sus)
  then obtain i d es where "install t p a ms single g hb sus s = Inr (i, d, s', es)" "ds = [(i, d)]" using assms by auto
  then show ?thesis using install_name by blast
next
  case (DC_removeById i)
  then show ?thesis using assms
    by (auto simp: removeById_def Let_def case_prod_unfold delete_static split: option.splits if_splits)
next
  case (DC_fired t p T sus)
  then show ?thesis using assms by (auto dest: fired_static)
qed (use assms in \<open>auto simp: fired_end_def dest: on_timer_static\<close>)

lemma timeoutId_bounds:
  assumes "0 \<le> d_lastUsedTimeoutId s" "d_lastUsedTimeoutId s < 2 ^ 31"
  shows "1 \<le> fst (timeoutId s)" "fst (timeoutId s) < 2 ^ 31"
  using assms by (auto simp: timeoutId_def Let_def)

lemma dom_run_names:
  "dom_run cs s = Inr (s', ds) \<Longrightarrow> 0 \<le> d_lastUsedTimeoutId s \<Longrightarrow> d_lastUsedTimeoutId s < 2 ^ 31 \<Longrightarrow>
     (\<forall>e \<in> set ds. 1 \<le> fst e \<and> fst e < 2 ^ 31)
     \<and> (\<exists>xs. length xs = length ds \<and> (\<forall>x \<in> set xs. comma_free (n_url x))
       \<and> (\<forall>j < length ds. snd (ds ! j) = name_text (xs ! j) (fst (next_number (name_ident (xs ! j)) (draws (take j xs) (d_nextSameUrlSequenceNumber s))))))"
proof (induction cs arbitrary: s ds)
  case (Cons c cs)
  obtain s1 ds1 ds2 where st: "dom_step c s = Inr (s1, ds1)" "dom_run cs s1 = Inr (s', ds2)" "ds = ds1 @ ds2"
    using Cons.prems(1) by auto
  from dom_step_names [OF st(1)] show ?case
  proof (elim disjE exE conjE)
    assume "ds1 = []" "d_nextSameUrlSequenceNumber s1 = d_nextSameUrlSequenceNumber s" "d_lastUsedTimeoutId s1 = d_lastUsedTimeoutId s"
    then show ?thesis using Cons.IH [OF st(2)] Cons.prems(2,3) st(3) by simp
  next
    fix x i assume x: "comma_free (n_url x)" "ds1 = [(i, name_text x (fst (next_number (name_ident x) (d_nextSameUrlSequenceNumber s))))]"
      "d_nextSameUrlSequenceNumber s1 = snd (next_number (name_ident x) (d_nextSameUrlSequenceNumber s))" "i = fst (timeoutId s)" "d_lastUsedTimeoutId s1 = i"
    note i = timeoutId_bounds [OF Cons.prems(2,3)]
    obtain xs where xs: "length xs = length ds2" "\<forall>x \<in> set xs. comma_free (n_url x)"
      "\<forall>j < length ds2. snd (ds2 ! j) = name_text (xs ! j) (fst (next_number (name_ident (xs ! j)) (draws (take j xs) (d_nextSameUrlSequenceNumber s1))))"
      and b: "\<forall>e \<in> set ds2. 1 \<le> fst e \<and> fst e < 2 ^ 31"
      using Cons.IH [OF st(2)] i x(4,5) by auto
    have "snd (ds ! j) = name_text ((x # xs) ! j) (fst (next_number (name_ident ((x # xs) ! j)) (draws (take j (x # xs)) (d_nextSameUrlSequenceNumber s))))"
      if "j < length ds" for j
      using that xs(3) x(2,3) st(3) by (cases j) auto
    then show ?thesis using xs(1,2) x(1,2,4) i b st(3) by (intro conjI exI [of _ "x # xs"]) auto
  qed
qed simp

lemma timer_params_split:
  assumes "comma_free url"
  shows "split_commas (timer_params url line ms single callee k)
     = [url, nat_dec (unat line), int_dec ms, if single then ''true'' else ''false'', int_dec callee, nat_dec (unat k)]"
proof -
  let ?ps = "[url, nat_dec (unat line), int_dec ms, if single then ''true'' else ''false'', int_dec callee, nat_dec (unat k)]"
  have "timer_params url line ms single callee k = join_commas ?ps" by (simp add: timer_params_def)
  moreover have "comma_free (nat_dec n)" "comma_free (int_dec i)" for n i
    using nat_dec_digits [of "CHR '',''" n] int_dec_chars [of "CHR '',''" i] by (auto simp: is_digit_def)
  then have "comma_free p" if "p \<in> set ?ps" for p using that assms by (auto split: if_splits)
  ultimately show ?thesis using split_join [of ?ps] by simp
qed

lemma nat_dec_inj: "nat_dec a = nat_dec b \<Longrightarrow> a = b"
  using dec_value_nat_dec by metis

lemma name_text_inj:
  assumes "name_text x j = name_text y k" "comma_free (n_url x)" "comma_free (n_url y)"
  shows "name_ident x = name_ident y" "j = k"
proof -
  have "timer_params (n_url x) (n_line x) (n_ms x) (n_single x) (n_callee x) j = timer_params (n_url y) (n_line y) (n_ms y) (n_single y) (n_callee y) k"
    using assms(1) by (simp add: name_text_def mk_descriptor_def)
  then have "[n_url x, nat_dec (unat (n_line x)), int_dec (n_callee x), nat_dec (unat j)] = [n_url y, nat_dec (unat (n_line y)), int_dec (n_callee y), nat_dec (unat k)]"
    using timer_params_split [OF assms(2), of "n_line x" "n_ms x" "n_single x" "n_callee x" j]
      timer_params_split [OF assms(3), of "n_line y" "n_ms y" "n_single y" "n_callee y" k] by simp
  then show "name_ident x = name_ident y" "j = k"
    using nat_dec_inj [of "unat j" "unat k"] by (auto simp: name_ident_def sequence_ident_def intro: unsigned_word_eqI)
qed

lemma count_list_take_less: "i < j \<Longrightarrow> j \<le> length ks \<Longrightarrow> count_list (take i ks) (ks ! i) < count_list (take j ks) (ks ! i)"
proof -
  assume "i < j" "j \<le> length ks"
  then have "take j ks = take (Suc i) ks @ take (j - Suc i) (drop (Suc i) ks)" using take_add [of "Suc i" "j - Suc i" ks] by simp
  moreover have "take (Suc i) ks = take i ks @ [ks ! i]" using \<open>i < j\<close> \<open>j \<le> length ks\<close> by (simp add: take_Suc_conv_app_nth)
  ultimately show ?thesis by simp
qed


definition two_timers :: "unit dom_call list" where
  "two_timers = [DC_install 1 ''0x1'' \<lparr>a_calledUrl = ''http://a/'', a_calledLine = 1, a_script = ()\<rparr> 10 True False new_hb_state None,
     DC_removeById 1, DC_install 1 ''0x1'' \<lparr>a_calledUrl = ''http://a/'', a_calledLine = 1, a_script = ()\<rparr> 10 True False new_hb_state None]"


end
