(* ===== verification/Auto_Explorer.thy ===== *)
theory Auto_Explorer
  imports Prelude
begin

text \<open>
  The automatic exploration of a page (\<open>R4/clients/Record/autoexplorer\<close>): once all frames are loaded it triggers an event
  handler of the page every half second, until it has triggered enough of them, keeps failing, runs out of time or leaves the
  page. Qt's timers and signals are modelled by what the class does with them: a timer is active or not, a
  signal that is connected calls its slot. \<open>explore\<close> is called once.
\<close>

section \<open>State\<close>

record qtimer =
  qt_interval :: "32 word"
  qt_singleShot :: bool
  qt_active :: bool

text \<open>The last fields are the connections, the signals \<open>done\<close> that were emitted and the warnings printed.\<close>

record AutoExplorer =
  m_numFramesLoading :: "32 word"
  m_preExplorationTimer :: qtimer
  m_explorationTimer :: qtimer
  m_explorationKeepAliveTimer :: qtimer
  m_numEventActionsExploredLimit :: "32 word"
  m_numFailedExplorationAttempts :: "32 word"
  on_preExploration :: bool
  on_exploration :: bool
  on_keepAlive :: bool
  on_pageChanged :: bool
  on_urlChanged :: bool
  ae_done :: nat
  ae_warnings :: nat

definition new_qtimer :: qtimer where
  "new_qtimer = \<lparr>qt_interval = 0, qt_singleShot = False, qt_active = False\<rparr>"

definition qt_start :: "qtimer \<Rightarrow> qtimer" where
  "qt_start t = t\<lparr>qt_active := True\<rparr>"

definition qt_stop :: "qtimer \<Rightarrow> qtimer" where
  "qt_stop t = t\<lparr>qt_active := False\<rparr>"

definition new_AutoExplorer :: AutoExplorer where
  "new_AutoExplorer = \<lparr>m_numFramesLoading = 0, m_preExplorationTimer = new_qtimer, m_explorationTimer = new_qtimer,
     m_explorationKeepAliveTimer = new_qtimer, m_numEventActionsExploredLimit = 128, m_numFailedExplorationAttempts = 0,
     on_preExploration = False, on_exploration = False, on_keepAlive = False, on_pageChanged = True, on_urlChanged = False,
     ae_done = 0, ae_warnings = 0\<rparr>"

section \<open>Operations\<close>

definition explore :: "32 word \<Rightarrow> 32 word \<Rightarrow> AutoExplorer \<Rightarrow> AutoExplorer" where
  "explore preExploreTimeout explorationTimeout s =
     (let s1 = (if preExploreTimeout > 0
                then s\<lparr>m_preExplorationTimer := qt_start ((m_preExplorationTimer s)\<lparr>qt_interval := preExploreTimeout * 1000, qt_singleShot := True\<rparr>),
                       on_preExploration := True\<rparr>
                else s);
          s2 = (if explorationTimeout > 0
                then s1\<lparr>m_explorationTimer := (m_explorationTimer s1)\<lparr>qt_interval := explorationTimeout * 1000, qt_singleShot := True\<rparr>,
                        on_exploration := True\<rparr>
                else s1)
      in s2\<lparr>m_explorationKeepAliveTimer := (m_explorationKeepAliveTimer s2)\<lparr>qt_interval := 500\<rparr>, on_keepAlive := True\<rparr>)"

definition explorer_stop :: "AutoExplorer \<Rightarrow> AutoExplorer" where
  "explorer_stop s =
     (let s1 = (if m_numFailedExplorationAttempts s = 10 then s\<lparr>ae_warnings := ae_warnings s + 1\<rparr> else s)
      in s1\<lparr>on_pageChanged := False, on_urlChanged := False, ae_done := ae_done s1 + 1\<rparr>)"

text \<open>\<open>success\<close> is the result of \<open>runAutomaticExploration\<close>.\<close>

definition explorationKeepAlive :: "bool \<Rightarrow> AutoExplorer \<Rightarrow> AutoExplorer" where
  "explorationKeepAlive success s =
     (if m_numFramesLoading s \<noteq> 0 then s\<lparr>m_explorationKeepAliveTimer := qt_start (m_explorationKeepAliveTimer s)\<rparr>
      else (let s1 = (if success
                      then s\<lparr>m_numFailedExplorationAttempts := 0, m_numEventActionsExploredLimit := m_numEventActionsExploredLimit s - 1\<rparr>
                      else s\<lparr>m_numFailedExplorationAttempts := m_numFailedExplorationAttempts s + 1\<rparr>)
            in if m_numEventActionsExploredLimit s1 = 0 \<or> m_numFailedExplorationAttempts s1 = 10 then explorer_stop s1
               else s1\<lparr>m_explorationKeepAliveTimer := qt_start (m_explorationKeepAliveTimer s1)\<rparr>))"

definition frameLoadStarted :: "AutoExplorer \<Rightarrow> AutoExplorer" where
  "frameLoadStarted s = s\<lparr>m_numFramesLoading := m_numFramesLoading s + 1\<rparr>"

definition startAutoExploration :: "AutoExplorer \<Rightarrow> AutoExplorer" where
  "startAutoExploration s = s\<lparr>on_urlChanged := True, m_explorationKeepAliveTimer := qt_start (m_explorationKeepAliveTimer s),
     m_explorationTimer := qt_start (m_explorationTimer s), m_preExplorationTimer := qt_stop (m_preExplorationTimer s)\<rparr>"

definition frameLoadFinished :: "AutoExplorer \<Rightarrow> AutoExplorer" where
  "frameLoadFinished s =
     (let s1 = (if m_numFramesLoading s > 0 then s\<lparr>m_numFramesLoading := m_numFramesLoading s - 1\<rparr> else s)
      in if m_numFramesLoading s1 = 0 \<and> \<not> qt_active (m_explorationTimer s1) then startAutoExploration s1 else s1)"

definition differentUrl :: "AutoExplorer \<Rightarrow> AutoExplorer" where
  "differentUrl s = explorer_stop s"

definition differentPage :: "AutoExplorer \<Rightarrow> AutoExplorer" where
  "differentPage s = explorer_stop s"

section \<open>Signals\<close>

text \<open>\<open>Sig_frameStarted\<close> is \<open>loadStarted\<close> of the main frame, \<open>Sig_loadStarted\<close> that of the page.\<close>

datatype explorer_signal =
  Sig_explore "32 word" "32 word" | Sig_loadStarted | Sig_frameStarted | Sig_loadFinished | Sig_preTimeout | Sig_timeout
  | Sig_keepAlive bool | Sig_urlChanged | Sig_pageChanged

text \<open>What a timer does when it runs out.\<close>

definition qt_expire :: "qtimer \<Rightarrow> qtimer" where
  "qt_expire t = t\<lparr>qt_active := \<not> qt_singleShot t\<rparr>"

fun explorer_step :: "explorer_signal \<Rightarrow> AutoExplorer \<Rightarrow> AutoExplorer" where
  "explorer_step (Sig_explore a b) s = explore a b s"
| "explorer_step Sig_loadStarted s = frameLoadStarted s"
| "explorer_step Sig_frameStarted s =
     (if on_preExploration s then s\<lparr>m_preExplorationTimer := qt_start (m_preExplorationTimer s)\<rparr> else s)"
| "explorer_step Sig_loadFinished s = frameLoadFinished s"
| "explorer_step Sig_preTimeout s =
     (if qt_active (m_preExplorationTimer s)
      then (let s1 = s\<lparr>m_preExplorationTimer := qt_expire (m_preExplorationTimer s)\<rparr> in if on_preExploration s1 then explorer_stop s1 else s1)
      else s)"
| "explorer_step Sig_timeout s =
     (if qt_active (m_explorationTimer s)
      then (let s1 = s\<lparr>m_explorationTimer := qt_expire (m_explorationTimer s)\<rparr> in if on_exploration s1 then explorer_stop s1 else s1)
      else s)"
| "explorer_step (Sig_keepAlive success) s =
     (if qt_active (m_explorationKeepAliveTimer s)
      then (let s1 = s\<lparr>m_explorationKeepAliveTimer := qt_expire (m_explorationKeepAliveTimer s)\<rparr>
            in if on_keepAlive s1 then explorationKeepAlive success s1 else s1)
      else s)"
| "explorer_step Sig_urlChanged s = (if on_urlChanged s then differentUrl s else s)"
| "explorer_step Sig_pageChanged s = (if on_pageChanged s then differentPage s else s)"

fun explorer_run :: "explorer_signal list \<Rightarrow> AutoExplorer \<Rightarrow> AutoExplorer" where
  "explorer_run [] s = s"
| "explorer_run (c # cs) s = explorer_run cs (explorer_step c s)"

section \<open>The exploration ends\<close>

text \<open>The ticks at which an exploration is attempted: nothing is being loaded.\<close>

fun attempts :: "explorer_signal list \<Rightarrow> AutoExplorer \<Rightarrow> nat" where
  "attempts [] s = 0"
| "attempts (c # cs) s =
     (case c of Sig_keepAlive _ \<Rightarrow>
        if qt_active (m_explorationKeepAliveTimer s) \<and> on_keepAlive s \<and> m_numFramesLoading s = 0 then 1 else 0
      | _ \<Rightarrow> 0) + attempts cs (explorer_step c s)"

text \<open>What is left before the limits: ten attempts for every event action that may still be explored.\<close>

definition budget :: "AutoExplorer \<Rightarrow> nat" where
  "budget s = 10 * (unat (m_numEventActionsExploredLimit s) - 1) + (10 - unat (m_numFailedExplorationAttempts s))"

definition within_limits :: "AutoExplorer \<Rightarrow> bool" where
  "within_limits s = (0 < unat (m_numEventActionsExploredLimit s) \<and> unat (m_numFailedExplorationAttempts s) < 10)"

lemma within_budget: "within_limits s \<Longrightarrow> 0 < budget s"
  by (simp add: within_limits_def budget_def)

lemma stop_done: "ae_done (explorer_stop s) = Suc (ae_done s)"
  by (simp add: explorer_stop_def Let_def)

lemmas explorer_defs = explore_def frameLoadStarted_def frameLoadFinished_def startAutoExploration_def differentUrl_def
  differentPage_def Let_def

lemma keepAlive_budget:
  assumes "within_limits s" "m_numFramesLoading s = 0" "ae_done (explorationKeepAlive success s) = ae_done s"
  shows "within_limits (explorationKeepAlive success s)" "budget (explorationKeepAlive success s) < budget s"
proof -
  let ?n = "m_numEventActionsExploredLimit s" and ?f = "m_numFailedExplorationAttempts s"
  let ?t = "explorationKeepAlive success s"
  have "?n \<noteq> 0" using assms(1) by (auto simp: within_limits_def)
  then have u: "unat (?n - 1) = unat ?n - 1" "unat (?f + 1) = unat ?f + 1"
    using assms(1) by (simp_all add: within_limits_def unat_minus_one unat_word_ariths)
  have l: "m_numEventActionsExploredLimit ?t = (if success then ?n - 1 else ?n)"
    "m_numFailedExplorationAttempts ?t = (if success then 0 else ?f + 1)"
    "m_numEventActionsExploredLimit ?t \<noteq> 0" "m_numFailedExplorationAttempts ?t \<noteq> 10"
    using assms(2,3) by (auto simp: explorationKeepAlive_def Let_def stop_done split: if_splits)
  have "unat (m_numEventActionsExploredLimit ?t) \<noteq> 0" "unat (m_numFailedExplorationAttempts ?t) \<noteq> 10"
    using l(3,4) word_unat_eq_iff [of "m_numEventActionsExploredLimit ?t" 0]
      word_unat_eq_iff [of "m_numFailedExplorationAttempts ?t" 10] by simp_all
  then show "within_limits ?t" "budget ?t < budget s"
    using assms(1) u l(1,2) by (auto simp: within_limits_def budget_def split: if_splits)
qed

text \<open>Every signal that does not end the exploration keeps the limits; an attempt uses up budget.\<close>

lemma step_budget:
  assumes "within_limits s" "ae_done (explorer_step c s) = ae_done s"
  shows "within_limits (explorer_step c s) \<and> budget (explorer_step c s) + attempts [c] s \<le> budget s"
proof (cases c)
  case (Sig_keepAlive b)
  let ?s1 = "s\<lparr>m_explorationKeepAliveTimer := qt_expire (m_explorationKeepAliveTimer s)\<rparr>"
  have s1: "within_limits ?s1 = within_limits s" "budget ?s1 = budget s" by (simp_all add: within_limits_def budget_def)
  have "within_limits (explorationKeepAlive b ?s1)" "budget (explorationKeepAlive b ?s1) < budget s"
    if "qt_active (m_explorationKeepAliveTimer s)" "on_keepAlive s" "m_numFramesLoading s = 0"
    using that assms Sig_keepAlive keepAlive_budget [of ?s1 b] s1 by simp_all
  moreover have "within_limits (explorationKeepAlive b ?s1)" "budget (explorationKeepAlive b ?s1) = budget s" if "m_numFramesLoading s \<noteq> 0"
    using that assms(1) by (simp_all add: explorationKeepAlive_def within_limits_def budget_def)
  ultimately show ?thesis using Sig_keepAlive assms(1) s1 by (auto simp: Let_def)
qed (use assms in \<open>auto simp: explorer_defs stop_done within_limits_def budget_def split: if_splits\<close>)

lemma done_mono: "ae_done s \<le> ae_done (explorer_step c s)"
  by (cases c) (simp_all add: explorer_defs explorationKeepAlive_def stop_done)

lemma run_done_mono: "ae_done s \<le> ae_done (explorer_run cs s)"
  by (induction cs arbitrary: s) (auto intro: order_trans [OF done_mono])

lemma attempts_Cons: "attempts (c # cs) s = attempts [c] s + attempts cs (explorer_step c s)"
  by simp

lemma run_budget:
  "within_limits s \<Longrightarrow> ae_done (explorer_run cs s) = ae_done s \<Longrightarrow> attempts cs s < budget s"
proof (induction cs arbitrary: s)
  case Nil
  then show ?case using within_budget by simp
next
  case (Cons c cs)
  have d: "ae_done (explorer_step c s) = ae_done s"
    using Cons.prems(2) done_mono [of s c] run_done_mono [of "explorer_step c s" cs] by simp
  note b = step_budget [OF Cons.prems(1) d]
  have "attempts cs (explorer_step c s) < budget (explorer_step c s)" using Cons b d by simp
  then show ?case using attempts_Cons [of c cs s] b by linarith
qed

text \<open>
  C38: An exploration ends. Whatever the page does and in whatever order timers run out, after 1280 attempts at the
  latest (128 successes with at most nine failures before each) the explorer has reported that it is done.
\<close>

theorem exploration_ends:
  assumes "1280 \<le> attempts cs new_AutoExplorer"
  shows "0 < ae_done (explorer_run cs new_AutoExplorer)"
proof (rule ccontr)
  assume "\<not> 0 < ae_done (explorer_run cs new_AutoExplorer)"
  then have "attempts cs new_AutoExplorer < budget new_AutoExplorer"
    by (intro run_budget) (simp_all add: within_limits_def new_AutoExplorer_def)
  then show False using assms by (simp add: budget_def new_AutoExplorer_def)
qed

definition long_run :: "explorer_signal list" where
  "long_run = [Sig_explore 30 30, Sig_loadStarted, Sig_loadFinished] @ replicate 1280 (Sig_keepAlive True)"

definition ticking :: "AutoExplorer \<Rightarrow> bool" where
  "ticking s = (qt_active (m_explorationKeepAliveTimer s) \<and> \<not> qt_singleShot (m_explorationKeepAliveTimer s) \<and> on_keepAlive s
     \<and> m_numFramesLoading s = 0)"

lemma ticking_step: "ticking s \<Longrightarrow> ticking (explorer_step (Sig_keepAlive b) s)"
  by (auto simp: ticking_def explorationKeepAlive_def explorer_stop_def qt_expire_def qt_start_def Let_def)

lemma ticking_attempts: "ticking s \<Longrightarrow> attempts (replicate n (Sig_keepAlive b)) s = n"
proof (induction n arbitrary: s)
  case (Suc n)
  then show ?case using ticking_step [OF Suc.prems, of b] by (simp add: ticking_def del: explorer_step.simps)
qed simp

theorem exploration_ends_witness: "0 < ae_done (explorer_run long_run new_AutoExplorer)"
proof (rule exploration_ends)
  let ?s = "explorer_run [Sig_explore 30 30, Sig_loadStarted, Sig_loadFinished] new_AutoExplorer"
  have "ticking ?s" by code_simp
  then have "attempts (replicate 1280 (Sig_keepAlive True)) ?s = 1280" by (rule ticking_attempts)
  then show "1280 \<le> attempts long_run new_AutoExplorer" by (simp add: long_run_def)
qed

text \<open>
  The signal \<open>done\<close> does not stop the timers: the next tick after the last event action makes the counter of the limit wrap, and
  the exploration goes on.
\<close>

lemma exploration_goes_on:
  assumes "m_numEventActionsExploredLimit s = 1" "m_numFramesLoading s = 0" "m_numFailedExplorationAttempts s = 0"
    and "qt_active (m_explorationKeepAliveTimer s)" "\<not> qt_singleShot (m_explorationKeepAliveTimer s)" "on_keepAlive s"
  shows "ae_done (explorer_run [Sig_keepAlive True] s) = Suc (ae_done s)"
    "m_numEventActionsExploredLimit (explorer_run [Sig_keepAlive True, Sig_keepAlive True] s) = - 1"
    "ae_done (explorer_run [Sig_keepAlive True, Sig_keepAlive True] s) = Suc (ae_done s)"
  using assms by (simp_all add: explorationKeepAlive_def explorer_stop_def qt_expire_def Let_def)

end
