(* ===== verification/Clients.thy ===== *)
theory Clients
  imports Network_Replay Spec_Scheduler Auto_Explorer
begin

text \<open>
  The two programs of R4 (\<open>R4/clients/Record/main.cpp\<close> and \<open>R4/clients/Replay/main.cpp\<close>): their command lines, what
  they write when they end and what a replay reads. The file system is a map from paths to contents. The lemmas
  follow a recording through its files into a replay: the replay executes what was recorded.
\<close>

section \<open>Command lines\<close>

definition startsWith_dash :: "string \<Rightarrow> bool" where
  "startsWith_dash s = (s \<noteq> [] \<and> hd s = CHR ''-'')"

text \<open>\<open>takeOptionValue\<close> of \<open>BaseClient/utils.cpp\<close>: the value of an option is removed from the arguments.\<close>

definition takeOptionValue :: "string list \<Rightarrow> nat \<Rightarrow> string \<times> string list" where
  "takeOptionValue arguments index =
     (if index + 1 < length arguments \<and> \<not> startsWith_dash (arguments ! (index + 1))
      then (arguments ! (index + 1), take (index + 1) arguments @ drop (index + 2) arguments)
      else ([], arguments))"

text \<open>\<open>QStringList::indexOf\<close>, \<open>QStringList::lastIndexOf\<close> for the pattern of an option, and \<open>QString::split\<close>.\<close>

fun indexOf :: "string \<Rightarrow> string list \<Rightarrow> nat option" where
  "indexOf x [] = None"
| "indexOf x (a # as) = (if a = x then Some 0 else map_option Suc (indexOf x as))"

definition indexOf_from :: "string \<Rightarrow> nat \<Rightarrow> string list \<Rightarrow> nat option" where
  "indexOf_from x start as = map_option (\<lambda>i. start + i) (indexOf x (drop start as))"

fun lastOption :: "string list \<Rightarrow> nat option" where
  "lastOption [] = None"
| "lastOption (a # as) =
     (case lastOption as of Some i \<Rightarrow> Some (Suc i) | None \<Rightarrow> if startsWith_dash a then Some 0 else None)"

fun split_on :: "char \<Rightarrow> string \<Rightarrow> string list" where
  "split_on d [] = [[]]"
| "split_on d (c # cs) =
     (if c = d then [] # split_on d cs
      else (case split_on d cs of [] \<Rightarrow> [[c]] | p # ps \<Rightarrow> (c # p) # ps))"

text \<open>The pattern of the options with a value: \<open>None\<close> when the option is absent.\<close>

definition option_value :: "string \<Rightarrow> string list \<Rightarrow> string option \<times> string list" where
  "option_value name args =
     (case indexOf name args of None \<Rightarrow> (None, args)
      | Some i \<Rightarrow> (let (v, args') = takeOptionValue args i in (Some v, args')))"

text \<open>The conversions of Qt, which give 0 for a text that is not a number.\<close>

record conversions =
  q_toInt :: "string \<Rightarrow> int"
  q_toShort :: "string \<Rightarrow> int"

definition proxy_of :: "conversions \<Rightarrow> string \<Rightarrow> string \<times> 16 word option" where
  "proxy_of Q proxyUrl =
     (let parts = split_on (CHR '':'') proxyUrl
      in (hd parts, if length parts > 1 then Some (of_int (q_toShort Q (parts ! 1))) else None))"

subsection \<open>Recording\<close>

record record_options =
  ro_verbose :: bool
  ro_proxy :: "(string \<times> 16 word option) option"
  ro_ignoreMouseMove :: bool
  ro_outdir :: string
  ro_autoExploreTimout :: "32 word"
  ro_autoExplorePreTimout :: "32 word"
  ro_autoExplore :: bool
  ro_showWindow :: bool
  ro_presetCookies :: "(string \<times> string) list"
  ro_url :: string

text \<open>The loop over the cookies; a cookie without a value is an access outside the list of its parts.\<close>

lemma indexOf_less: "indexOf x as = Some i \<Longrightarrow> i < length as"
  by (induction as arbitrary: i) (auto split: if_splits)

lemma indexOf_from_bounds: "indexOf_from x start as = Some i \<Longrightarrow> start \<le> i \<and> i < length as"
  by (auto simp: indexOf_from_def dest: indexOf_less)

lemma takeOptionValue_length: "takeOptionValue as i = (v, as') \<Longrightarrow> length as' \<le> length as"
  by (auto simp: takeOptionValue_def split: if_splits)

function cookie_loop :: "nat \<Rightarrow> string list \<Rightarrow> ((string \<times> string) list \<times> string list) result" where
  "cookie_loop cookieIndex args =
     (case indexOf_from ''-cookie'' cookieIndex args of None \<Rightarrow> Inr ([], args)
      | Some i \<Rightarrow>
          (case takeOptionValue args i of (cookieRaw, args1) \<Rightarrow>
            let parts = split_on (CHR ''='') cookieRaw in
            if length parts < 2 then Inl UNDEFINED
            else bindR (cookie_loop (i + 1) args1) (\<lambda>(cookies, args2). Inr ((parts ! 0, parts ! 1) # cookies, args2))))"
  by pat_completeness auto
termination
  by (relation "measure (\<lambda>(i, as). length as - i)") (auto dest!: indexOf_from_bounds dest: takeOptionValue_length [OF sym])

declare cookie_loop.simps [simp del]

definition record_handleUserOptions :: "conversions \<Rightarrow> string list \<Rightarrow> record_options result" where
  "record_handleUserOptions Q args =
     (if ''-help'' \<in> set args then Inl (EXIT 0)
      else
        (let verbose = (''-verbose'' \<in> set args);
             (proxyUrl, args1) = option_value ''-proxy'' args;
             ignoreMouseMove = (''-ignore-mouse-move'' \<in> set args1);
             (outdir, args2) = option_value ''-out_dir'' args1;
             (timeout, args3) = option_value ''-autoexplore-timeout'' args2;
             (preTimeout, args4) = option_value ''-pre-autoexplore-timeout'' args3;
             autoexplore = (''-autoexplore'' \<in> set args4);
             hide = (''-hidewindow'' \<in> set args4)
         in bindR (cookie_loop 0 args4) (\<lambda>(cookies, args5).
              let urls = (case lastOption args5 of Some i \<Rightarrow> drop (i + 1) args5 | None \<Rightarrow> drop 1 args5)
              in if urls = [] then Inl (EXIT 1)
                 else Inr \<lparr>ro_verbose = verbose, ro_proxy = map_option (proxy_of Q) proxyUrl,
                    ro_ignoreMouseMove = ignoreMouseMove,
                    ro_outdir = (case outdir of None \<Rightarrow> ''/tmp/'' | Some d \<Rightarrow> d),
                    ro_autoExploreTimout = (case timeout of None \<Rightarrow> 30 | Some t \<Rightarrow> of_int (q_toInt Q t)),
                    ro_autoExplorePreTimout = (case preTimeout of None \<Rightarrow> 30 | Some t \<Rightarrow> of_int (q_toInt Q t)),
                    ro_autoExplore = autoexplore, ro_showWindow = \<not> hide, ro_presetCookies = cookies, ro_url = hd urls\<rparr>)))"

subsection \<open>Replaying\<close>

text \<open>\<open>po_timeout\<close> is the time in milliseconds after which the replay is stopped.\<close>

record replay_options =
  po_showWindow :: bool
  po_outdir :: string
  po_verbose :: bool
  po_proxy :: "(string \<times> 16 word option) option"
  po_timeout :: "int option"
  po_schedulerTimeout :: int
  po_url :: string
  po_schedulePath :: string
  po_logNetworkPath :: string
  po_logRandomPath :: string
  po_logTimePath :: string

definition replay_handleUserOptions :: "conversions \<Rightarrow> string list \<Rightarrow> replay_options result" where
  "replay_handleUserOptions Q args =
     (if ''-help'' \<in> set args \<or> length args = 1 then Inl (EXIT 0)
      else
        (let hide = (''-hidewindow'' \<in> set args);
             (outdir, args1) = option_value ''-out_dir'' args;
             (indir, args2) = option_value ''-in_dir'' args1;
             in_dir = (case indir of Some d \<Rightarrow> d | None \<Rightarrow> (case outdir of Some d \<Rightarrow> d | None \<Rightarrow> ''/tmp/''));
             verbose = (''-verbose'' \<in> set args2);
             (proxyUrl, args3) = option_value ''-proxy'' args2;
             (timeout, args4) = option_value ''-timeout'' args3;
             (schedulerTimeout, args5) = option_value ''-scheduler_timeout_ms'' args4;
             lastArg = (case lastOption args5 of None \<Rightarrow> 0 | Some i \<Rightarrow> i);
             numArgs = length args5 - lastArg
         in if numArgs \<noteq> 6 \<and> numArgs \<noteq> 3 then Inl (EXIT 1)
            else Inr \<lparr>po_showWindow = \<not> hide, po_outdir = (case outdir of None \<Rightarrow> ''/tmp/'' | Some d \<Rightarrow> d), po_verbose = verbose,
              po_proxy = map_option (proxy_of Q) proxyUrl, po_timeout = map_option (\<lambda>t. q_toInt Q t * 1000) timeout,
              po_schedulerTimeout = (case schedulerTimeout of None \<Rightarrow> 20000 | Some t \<Rightarrow> q_toInt Q t),
              po_url = args5 ! (lastArg + 1), po_schedulePath = args5 ! (lastArg + 2),
              po_logNetworkPath = (if numArgs > 3 then args5 ! (lastArg + 3) else in_dir @ ''/log.network.data''),
              po_logRandomPath = (if numArgs > 3 then args5 ! (lastArg + 4) else in_dir @ ''/log.random.data''),
              po_logTimePath = (if numArgs > 3 then args5 ! (lastArg + 5) else in_dir @ ''/log.time.data'')\<rparr>))"

section \<open>Files\<close>

datatype ('u, 'v, 'd) contents =
  Text string | Log_bytes bytes | Network_log "('u, 'v) data_stream" | Time_log "'d value_hash"
  | Random_log "'d value_hash \<times> 32 word value_hash" | Picture

type_synonym ('u, 'v, 'd) file_system = "string \<rightharpoonup> ('u, 'v, 'd) contents"

text \<open>A frame of the page with its HTML text and the frames inside it.\<close>

datatype web_frame = Web_Frame (toHtml: string) (childFrames: "web_frame list")

text \<open>The sum of the hashes of all frames, which wraps; the frames wait in a queue.\<close>

lemma size_list_append [simp]: "size_list f (xs @ ys) = size_list f xs + size_list f ys"
  by (induction xs) auto

lemma size_childFrames: "size_list size (childFrames f) < size f"
  by (cases f) simp

function htmlHash_loop :: "(string \<Rightarrow> 32 word) \<Rightarrow> web_frame list \<Rightarrow> 32 word \<Rightarrow> 32 word" where
  "htmlHash_loop qHash [] htmlHash = htmlHash"
| "htmlHash_loop qHash (current # queue) htmlHash =
     htmlHash_loop qHash (queue @ childFrames current) (htmlHash + qHash (toHtml current))"
  by pat_completeness auto
termination
  by (relation "measure (\<lambda>(q, fs, h). size_list size fs)") (auto simp: size_childFrames less_SucI)

definition html_hash :: "(string \<Rightarrow> 32 word) \<Rightarrow> web_frame \<Rightarrow> 32 word" where
  "html_hash qHash mainFrame = htmlHash_loop qHash [mainFrame] 0"

definition hash_line :: "32 word \<Rightarrow> string" where
  "hash_line h = ''HTML-hash: '' @ nat_dec (unat h) @ [newline]"

definition arcs_text :: "Arc list \<Rightarrow> string" where
  "arcs_text arcs = concat (map (\<lambda>a. int_dec (m_tail a) @ '' -> '' @ int_dec (m_head a) @ [newline]) arcs)"

text \<open>What both clients write in \<open>snapshotState\<close>, in this order; \<open>status\<close> is the text of the status file.\<close>

definition write_snapshot :: "string \<Rightarrow> string \<Rightarrow> string \<Rightarrow> hb_state \<Rightarrow> EventActionSchedule \<Rightarrow>
    ('u, 'v) QNetworkReplyInitialSnapshot list \<Rightarrow> 'd value_hash \<Rightarrow> 'd value_hash \<times> 32 word value_hash \<Rightarrow> warning_state \<Rightarrow>
    ('u, 'v, 'd) file_system \<Rightarrow> ('u, 'v, 'd) file_system" where
  "write_snapshot outdir i status hb history network timeLog randomLog ws fs =
     (let path = (\<lambda>name. outdir @ ''/'' @ i @ name)
      in fs(path ''status.data'' \<mapsto> Text status,
            path ''ER_actionlog'' \<mapsto> Log_bytes (ActionLogSave (hb_log hb)),
            path ''schedule.data'' \<mapsto> Text (fst (schedule_serialize history)),
            path ''log.network.data'' \<mapsto> Network_log (writeNetworkFile network),
            path ''log.time.data'' \<mapsto> Time_log timeLog,
            path ''log.random.data'' \<mapsto> Random_log randomLog,
            path ''screenshot.png'' \<mapsto> Picture,
            path ''errors.log'' \<mapsto> Text (WarningCollecterWriteToLogFile ws)))"

section \<open>The recording client\<close>

record ('u, 'v, 'd, 'm) RecordClient =
  rc_running :: bool
  rc_outdir :: string
  rc_world :: "'m world"
  rc_network :: "('u, 'v) QNetworkReplyInitialSnapshot factory"
  rc_timeProvider :: "'d TimeProvider"
  rc_randomProvider :: "'d RandomProvider"
  rc_scheduler :: DefaultScheduler
  rc_mainFrame :: web_frame
  rc_warnings :: warning_state
  rc_windowOpen :: bool
  rc_cookieJar :: "(string \<times> string \<times> string) list"
  rc_autoExplorer :: AutoExplorer

text \<open>
  The constructor. \<open>host\<close> is \<open>QUrl::host\<close>; a cookie is its name, its value and its domain. With \<open>-autoexplore\<close> the explorer loads
  the page, and its signal \<open>done\<close> is connected to \<open>slOnCloseEvent\<close>.
\<close>

definition new_RecordClient :: "(string \<Rightarrow> string) \<Rightarrow> record_options \<Rightarrow> web_frame \<Rightarrow> warning_state \<Rightarrow> 'm world \<Rightarrow> ('u, 'v, 'd, 'm) RecordClient" where
  "new_RecordClient host opts frame ws w =
     \<lparr>rc_running = True, rc_outdir = ro_outdir opts, rc_world = w, rc_network = \<lparr>f_doneCounter = 0, f_networkHistory = []\<rparr>,
      rc_timeProvider = \<lparr>t_log = Map.empty\<rparr>, rc_randomProvider = \<lparr>r_double_log = Map.empty, r_unsigned_log = Map.empty\<rparr>,
      rc_scheduler = new_DefaultScheduler, rc_mainFrame = frame, rc_warnings = ws, rc_windowOpen = ro_showWindow opts,
      rc_cookieJar = map (\<lambda>(name, v). (name, v, host (ro_url opts))) (ro_presetCookies opts),
      rc_autoExplorer = (if ro_autoExplore opts
        then explore (ro_autoExplorePreTimout opts) (ro_autoExploreTimout opts) new_AutoExplorer else new_AutoExplorer)\<rparr>"

definition record_snapshotState :: "(string \<Rightarrow> 32 word) \<Rightarrow> string \<Rightarrow> ('u, 'v, 'd, 'm) RecordClient \<Rightarrow>
    ('u, 'v, 'd) file_system \<Rightarrow> ('u, 'v, 'd) file_system" where
  "record_snapshotState qHash i c fs =
     write_snapshot (rc_outdir c) i (hash_line (html_hash qHash (rc_mainFrame c))) (w_hb (rc_world c))
       (m_dispatchHistory (w_reg (rc_world c))) (f_networkHistory (rc_network c)) (time_writeLogFile (rc_timeProvider c))
       (random_writeLogFile (rc_randomProvider c)) (rc_warnings c) fs"

definition slOnCloseEvent :: "(string \<Rightarrow> 32 word) \<Rightarrow> ('u, 'v, 'd, 'm) RecordClient \<Rightarrow> ('u, 'v, 'd) file_system \<Rightarrow>
    ('u, 'v, 'd, 'm) RecordClient \<times> ('u, 'v, 'd) file_system" where
  "slOnCloseEvent qHash c fs =
     (if \<not> rc_running c then (c, fs)
      else (let c1 = c\<lparr>rc_running := False\<rparr>;
                fs1 = record_snapshotState qHash [] c1 fs;
                hb = w_hb (rc_world c1);
                c2 = c1\<lparr>rc_world := (rc_world c1)\<lparr>w_hb := hb\<lparr>hb_log := ActionLogStrictMode False (hb_log hb)\<rparr>\<rparr>\<rparr>;
                fs2 = fs1(rc_outdir c2 @ ''/arcs.log'' \<mapsto> Text (arcs_text (ActionLogReportArcs (hb_log (w_hb (rc_world c2))))))
            in (c2\<lparr>rc_scheduler := default_stop (rc_scheduler c2), rc_windowOpen := False\<rparr>, fs2)))"

section \<open>The replaying client\<close>

text \<open>
  \<open>pc_factory\<close> is the base class of the network factory, whose history every constructed reply extends. The time and random
  providers belong to the scheduler. \<open>pc_warnings\<close> is the global collector of warnings when the client writes it out.
\<close>

record ('u, 'v, 'd, 'm) ReplayClient =
  pc_outdir :: string
  pc_isStopping :: bool
  pc_scheduler :: "'d ReplayScheduler"
  pc_network :: "('u, 'v) QNetworkReplyControllableFactoryReplay"
  pc_factory :: "('u, 'v) QNetworkReplyInitialSnapshot factory"
  pc_world :: "'m world"
  pc_mainFrame :: web_frame
  pc_warnings :: warning_state
  pc_windowOpen :: bool
  pc_output :: string

text \<open>
  Reading the inputs. A schedule or a network log that cannot be opened reads as empty; the time and random logs are
  asserted to be open.
\<close>

definition read_schedule :: "string \<Rightarrow> ('u, 'v, 'd) file_system \<Rightarrow> string result" where
  "read_schedule path fs = (case fs path of None \<Rightarrow> Inr [] | Some (Text t) \<Rightarrow> Inr t | Some _ \<Rightarrow> Inl UNDEFINED)"

definition read_network :: "string \<Rightarrow> ('u, 'v, 'd) file_system \<Rightarrow> ('u, 'v) data_stream result" where
  "read_network path fs = (case fs path of None \<Rightarrow> Inr [] | Some (Network_log s) \<Rightarrow> Inr s | Some _ \<Rightarrow> Inl UNDEFINED)"

definition read_time :: "string \<Rightarrow> ('u, 'v, 'd) file_system \<Rightarrow> 'd value_hash result" where
  "read_time path fs = (case fs path of None \<Rightarrow> Inl ASSERT_FAILED | Some (Time_log m) \<Rightarrow> Inr m | Some _ \<Rightarrow> Inl UNDEFINED)"

definition read_random :: "string \<Rightarrow> ('u, 'v, 'd) file_system \<Rightarrow> ('d value_hash \<times> 32 word value_hash) result" where
  "read_random path fs = (case fs path of None \<Rightarrow> Inl ASSERT_FAILED | Some (Random_log m) \<Rightarrow> Inr m | Some _ \<Rightarrow> Inl UNDEFINED)"

definition new_ReplayClient :: "('u \<Rightarrow> string) \<Rightarrow> replay_options \<Rightarrow> ('u, 'v, 'd) file_system \<Rightarrow> warning_state \<Rightarrow> web_frame \<Rightarrow> 'm world \<Rightarrow>
    ('u, 'v, 'd, 'm) ReplayClient result" where
  "new_ReplayClient toText opts fs ws frame w =
     bindR (read_network (po_logNetworkPath opts) fs) (\<lambda>log.
     bindR (new_QNetworkReplyControllableFactoryReplay toText log ws) (\<lambda>network.
     bindR (read_time (po_logTimePath opts) fs) (\<lambda>timeLog.
     bindR (read_random (po_logRandomPath opts) fs) (\<lambda>randomLog.
     bindR (read_schedule (po_schedulePath opts) fs) (\<lambda>schedule.
     bindR (new_ReplayScheduler schedule (new_TimeProviderReplay timeLog ws) (new_RandomProviderReplay randomLog ws) ws
              (po_schedulerTimeout opts) w) (\<lambda>(scheduler, w1).
       Inr \<lparr>pc_outdir = po_outdir opts, pc_isStopping = False, pc_scheduler = scheduler, pc_network = network,
            pc_factory = \<lparr>f_doneCounter = 0, f_networkHistory = []\<rparr>, pc_world = w1, pc_mainFrame = frame,
            pc_warnings = ws, pc_windowOpen = po_showWindow opts, pc_output = []\<rparr>))))))"

definition result_line :: "ReplaySchedulerState \<Rightarrow> string" where
  "result_line st = ''Result: '' @ (case st of FINISHED \<Rightarrow> ''FINISHED'' | TIMEOUT \<Rightarrow> ''TIMEOUT'' | _ \<Rightarrow> ''ERROR'') @ [newline]"

definition outcome_text :: "ReplaySchedulerState \<Rightarrow> string" where
  "outcome_text st =
     (case st of FINISHED \<Rightarrow> ''Schedule executed successfully''
      | TIMEOUT \<Rightarrow> ''Schedule partially executed, timed out before finishing.''
      | ERROR \<Rightarrow> ''Schedule partially executed, could not finish schedule!''
      | RUNNING \<Rightarrow> ''Scheduler stopped for an unknown reason.'') @ [newline]"

definition replay_snapshotState :: "(string \<Rightarrow> 32 word) \<Rightarrow> string \<Rightarrow> ('u, 'v, 'd, 'm) ReplayClient \<Rightarrow>
    ('u, 'v, 'd) file_system \<Rightarrow> ('u, 'v, 'd) file_system" where
  "replay_snapshotState qHash i c fs =
     write_snapshot (pc_outdir c) i (result_line (s_state (pc_scheduler c)) @ hash_line (html_hash qHash (pc_mainFrame c)))
       (w_hb (pc_world c)) (m_dispatchHistory (w_reg (pc_world c))) (f_networkHistory (pc_factory c))
       (time_writeLogFile (s_timeProvider (pc_scheduler c))) (random_writeLogFile (s_randomProvider (pc_scheduler c)))
       (pc_warnings c) fs"

definition slSchedulerDone :: "(string \<Rightarrow> 32 word) \<Rightarrow> ('u, 'v, 'd, 'm) ReplayClient \<Rightarrow> ('u, 'v, 'd) file_system \<Rightarrow>
    ('u, 'v, 'd, 'm) ReplayClient \<times> ('u, 'v, 'd) file_system" where
  "slSchedulerDone qHash c fs =
     (if pc_isStopping c then (c, fs)
      else (let fs1 = replay_snapshotState qHash ''out.'' c fs;
                hb = w_hb (pc_world c);
                c1 = c\<lparr>pc_world := (pc_world c)\<lparr>w_hb := hb\<lparr>hb_log := ActionLogStrictMode False (hb_log hb)\<rparr>\<rparr>\<rparr>;
                fs2 = fs1(pc_outdir c1 @ ''/arcs.log'' \<mapsto> Text (arcs_text (ActionLogReportArcs (hb_log (w_hb (pc_world c1))))));
                st = s_state (pc_scheduler c1)
            in (c1\<lparr>pc_output := pc_output c1 @ outcome_text st @ result_line st @ hash_line (html_hash qHash (pc_mainFrame c1)),
                   pc_windowOpen := False, pc_isStopping := True\<rparr>, fs2)))"

definition slTimeout :: "('u, 'v, 'd, 'm) ReplayClient \<Rightarrow> ('u, 'v, 'd, 'm) ReplayClient" where
  "slTimeout c = c\<lparr>pc_scheduler := timeout (pc_scheduler c)\<rparr>"

section \<open>The sum of the hashes\<close>

fun frame_texts :: "web_frame \<Rightarrow> string list" where
  "frame_texts (Web_Frame html frames) = html # concat (map frame_texts frames)"

lemma htmlHash_loop_sum:
  "htmlHash_loop qHash fs h = h + sum_list (map qHash (concat (map frame_texts fs)))"
proof (induction qHash fs h rule: htmlHash_loop.induct)
  case (2 qHash f fs h)
  then show ?case by (cases f) (simp add: algebra_simps)
qed simp

section \<open>From a recording to its replay\<close>

definition plain_item :: "EventActionScheduleItem \<Rightarrow> EventActionScheduleItem" where
  "plain_item it = (fst it, mk_descriptor (m_category (snd it)) (m_type (snd it)) (m_params (snd it)))"

lemma recorded_schedule:
  assumes "\<forall>it \<in> set history. item_ok it"
  shows "schedule_deserialize (fst (schedule_serialize history)) = Inr (map plain_item history)"
    "tokens (map plain_item history) = 0"
    "executed_texts (map plain_item history) = map (\<lambda>it. fst (toString (snd it))) history"
proof -
  show "schedule_deserialize (fst (schedule_serialize history)) = Inr (map plain_item history)"
    using assms schedule_deserialize_lines [of history] schedule_serialize_lines [of history] by (simp add: plain_item_def [abs_def])
  have null: "m_isNull (snd (plain_item it)) = False" for it by (simp add: plain_item_def mk_descriptor_def)
  then show "tokens (map plain_item history) = 0" by simp
  have "item_text (snd (plain_item it)) = fst (toString (snd it))" if "it \<in> set history" for it
    using assms that
    by (auto simp: plain_item_def item_ok_def item_text_def toUnpatchedString_def toString_render mk_descriptor_def cache_ok_def render_def)
  then show "executed_texts (map plain_item history) = map (\<lambda>it. fst (toString (snd it))) history"
    by (simp add: executed_texts_def filter_map o_def null)
qed

lemma executed_texts_take:
  "tokens items = 0 \<Longrightarrow> executed_texts (take n items) = take n (executed_texts items)"
  by (simp add: executed_texts_def filter_empty_conv) (metis filter_True in_set_takeD take_map)

lemma replay_paths:
  assumes "\<not> startsWith_dash program" "\<not> startsWith_dash url" "\<not> startsWith_dash dir"
  shows "replay_handleUserOptions Q [program, ''-in_dir'', dir, url, dir @ ''/schedule.data''] =
     Inr \<lparr>po_showWindow = True, po_outdir = ''/tmp/'', po_verbose = False, po_proxy = None, po_timeout = None, po_schedulerTimeout = 20000,
       po_url = url, po_schedulePath = dir @ ''/schedule.data'', po_logNetworkPath = dir @ ''/log.network.data'',
       po_logRandomPath = dir @ ''/log.random.data'', po_logTimePath = dir @ ''/log.time.data''\<rparr>"
proof -
  have d: "\<not> startsWith_dash (dir @ ''/schedule.data'')" using assms(3) by (cases dir) (auto simp: startsWith_dash_def)
  have n: "CHR ''-'' # a \<noteq> x" "x \<noteq> CHR ''-'' # a" if "\<not> startsWith_dash x" for x a using that by (auto simp: startsWith_dash_def)
  have "startsWith_dash ''-in_dir''" by (simp add: startsWith_dash_def)
  then show ?thesis
    using assms d by (simp add: replay_handleUserOptions_def option_value_def takeOptionValue_def n)
qed

lemma new_scheduler_starts:
  assumes "schedule_deserialize f = Inr items"
  shows "\<exists>s w. new_ReplayScheduler f tp rp ws to w0 = Inr (s, w) \<and> s_timeProvider s = tp \<and> s_randomProvider s = rp"
  by (simp add: new_ReplayScheduler_def assms case_prod_unfold Let_def)

lemma written_files:
  fixes c :: "('u, 'v, 'd, 'm) RecordClient" and fs :: "('u, 'v, 'd) file_system" and qHash :: "string \<Rightarrow> 32 word"
  assumes "rc_running c"
  defines "fs' \<equiv> snd (slOnCloseEvent qHash c fs)"
  shows "read_schedule (rc_outdir c @ ''/schedule.data'') fs' = Inr (fst (schedule_serialize (m_dispatchHistory (w_reg (rc_world c)))))"
    "read_network (rc_outdir c @ ''/log.network.data'') fs' = Inr (writeNetworkFile (f_networkHistory (rc_network c)))"
    "read_time (rc_outdir c @ ''/log.time.data'') fs' = Inr (time_writeLogFile (rc_timeProvider c))"
    "read_random (rc_outdir c @ ''/log.random.data'') fs' = Inr (random_writeLogFile (rc_randomProvider c))"
  using assms(1)
  by (simp_all add: fs'_def slOnCloseEvent_def record_snapshotState_def write_snapshot_def Let_def read_schedule_def
      read_network_def read_time_def read_random_def)


text \<open>A recording with two timers.\<close>

definition sample_client :: "(string, nat, int, unit) RecordClient" where
  "sample_client = \<lparr>rc_running = True, rc_outdir = ''/tmp'',
     rc_world = (new_world ())\<lparr>w_reg := new_EventActionRegister\<lparr>m_dispatchHistory :=
       [(4, mk_descriptor WTF_TIMER ''t'' ''1''), (6, mk_descriptor WTF_TIMER ''t'' ''2'')]\<rparr>\<rparr>,
     rc_network = \<lparr>f_doneCounter = 0, f_networkHistory = sample_log\<rparr>, rc_timeProvider = \<lparr>t_log = [''1-t(1)'' \<mapsto> [7]]\<rparr>,
     rc_randomProvider = \<lparr>r_double_log = Map.empty, r_unsigned_log = Map.empty\<rparr>, rc_scheduler = new_DefaultScheduler,
     rc_mainFrame = Web_Frame ''a'' [Web_Frame ''b'' []], rc_warnings = sample_warnings, rc_windowOpen = True,
     rc_cookieJar = [], rc_autoExplorer = new_AutoExplorer\<rparr>"


end
