(* ===== verification/Timer_Client.thy ===== *)
theory Timer_Client
  imports Timer_Firing
begin

text \<open>
  What the event sources of a page share: they keep events or scripts in queues and own timers that are to run them later. A
  client calls its timers and the happens-before recorder through the world of the thread; it runs when one of its timers
  expires. Sequences of calls are \<open>run_steps\<close>, and the locale \<open>step_invariant\<close> is the induction over them.
\<close>

section \<open>Sequences of steps\<close>

fun run_steps :: "('c \<Rightarrow> 's \<Rightarrow> 's result) \<Rightarrow> 'c list \<Rightarrow> 's \<Rightarrow> 's result" where
  "run_steps step [] s = Inr s"
| "run_steps step (c # cs) s = bindR (step c s) (run_steps step cs)"

locale step_invariant =
  fixes step :: "'c \<Rightarrow> 's \<Rightarrow> 's result" and inv :: "'s \<Rightarrow> bool" and allowed :: "'c \<Rightarrow> bool"
  assumes keeps: "inv s \<Longrightarrow> allowed c \<Longrightarrow> step c s = Inr s' \<Longrightarrow> inv s'"
begin

lemma run_keeps: "inv s \<Longrightarrow> \<forall>c \<in> set cs. allowed c \<Longrightarrow> run_steps step cs s = Inr s' \<Longrightarrow> inv s'"
  by (induction cs arbitrary: s) (auto dest: keeps)

end

text \<open>Steps that also avoid some failures.\<close>

locale step_safe = step_invariant +
  fixes bad :: "failure \<Rightarrow> bool"
  assumes avoids: "inv s \<Longrightarrow> allowed c \<Longrightarrow> step c s = Inl e \<Longrightarrow> \<not> bad e"
begin

lemma run_avoids: "inv s \<Longrightarrow> \<forall>c \<in> set cs. allowed c \<Longrightarrow> run_steps step cs s = Inl e \<Longrightarrow> \<not> bad e"
  by (induction cs arbitrary: s) (auto simp: bindR_eq_Inl_iff dest: keeps avoids)

end

text \<open>A relation between states that every step respects.\<close>

locale step_relation =
  fixes step :: "'c \<Rightarrow> 's \<Rightarrow> 's result" and rel :: "'s \<Rightarrow> 's \<Rightarrow> bool"
  assumes rel_refl: "rel s s"
    and rel_trans: "rel s1 s2 \<Longrightarrow> rel s2 s3 \<Longrightarrow> rel s1 s3"
    and respects: "step c s = Inr s' \<Longrightarrow> rel s s'"
begin

lemma run_respects: "run_steps step cs s = Inr s' \<Longrightarrow> rel s s'"
  by (induction cs arbitrary: s) (auto simp: rel_refl dest!: respects intro: rel_trans)

end

section \<open>Calls of a client\<close>

definition timer_do :: "string_hash \<Rightarrow> timer_call \<Rightarrow> thread_world \<Rightarrow> thread_world result" where
  "timer_do H c w = exec_op H (Op_act (timer_act c)) w"

definition hb_do :: "string_hash \<Rightarrow> hb_call \<Rightarrow> thread_world \<Rightarrow> thread_world result" where
  "hb_do H c w = exec_op H (Op_hb c) w"

text \<open>The timer expires: the part of \<open>fireTimerCallback\<close> before the client runs.\<close>

definition timer_expires :: "string_hash \<Rightarrow> nat \<Rightarrow> thread_world \<Rightarrow> thread_world result" where
  "timer_expires H t w = exec_op H (Op_act (fireTimerCallback t)) w"

abbreviation timer_active :: "thread_world \<Rightarrow> nat \<Rightarrow> bool" where
  "timer_active w t \<equiv> isActive (timer (w_page w) t)"

definition startOneShot :: "string_hash \<Rightarrow> nat \<Rightarrow> thread_world \<Rightarrow> thread_world result" where
  "startOneShot H t w = timer_do H (TC_start t 0 0) w"

text \<open>An arc to the current event action.\<close>

definition arc_to_current :: "string_hash \<Rightarrow> int \<Rightarrow> thread_world \<Rightarrow> thread_world result" where
  "arc_to_current H earlier w = bindR (HBCurrentEventAction (w_hb w)) (\<lambda>now. hb_do H (HB_arc earlier now) w)"

text \<open>A join followed by \<open>clear\<close>.\<close>

definition join_and_clear :: "MultiJoin \<Rightarrow> thread_world \<Rightarrow> (MultiJoin \<times> thread_world) result" where
  "join_and_clear J w = bindR (joinAction J (w_hb w)) (\<lambda>(J', s). Inr (join_clear J', w\<lparr>w_hb := s\<rparr>))"

lemma timer_do_page: "timer_do H c w = Inr w' \<Longrightarrow> \<exists>ds cs. timer_act c w = Inr (w_page w', ds, cs)"
  by (auto simp: timer_do_def)

lemma timer_do_le: "timer_do H c w = Inr w' \<Longrightarrow> page_le (w_page w) (w_page w')"
  by (auto dest!: timer_do_page intro: timer_act_le)

lemma startOneShot_le: "startOneShot H t w = Inr w' \<Longrightarrow> page_le (w_page w) (w_page w')"
  by (simp add: startOneShot_def timer_do_le)

lemma timer_expires_le: "timer_expires H t w = Inr w' \<Longrightarrow> page_le (w_page w) (w_page w')"
  by (auto simp: timer_expires_def dest: fireTimerCallback_le)

lemma hb_do_page [simp]: "hb_do H c w = Inr w' \<Longrightarrow> w_page w' = w_page w"
  by (auto simp: hb_do_def)

lemma arc_to_current_page: "arc_to_current H e w = Inr w' \<Longrightarrow> w_page w' = w_page w"
  by (auto simp: arc_to_current_def)

lemma join_and_clear_page: "join_and_clear J w = Inr (J', w') \<Longrightarrow> w_page w' = w_page w"
  by (auto simp: join_and_clear_def)

text \<open>A started timer has the fire time asked for; setting a descriptor or expiring leaves the fire times of others alone.\<close>

lemma heap_okI: "page_ok p \<Longrightarrow> tp_changes p + 1 < 2 ^ 31 - 1 \<Longrightarrow> heap_ok (tp_changes p) (tp_heap p)"
  by (simp add: page_ok_def)

lemma startOneShot_active:
  assumes "startOneShot H t w = Inr w'" "page_ok (w_page w)" "tp_changes (w_page w) + 1 < 2 ^ 31 - 1"
    and "tp_clock (w_page w) (tp_reads (w_page w)) \<noteq> 0"
  shows "timer_active w' t"
proof -
  obtain ds cs where a: "timer_act (TC_start t 0 0) w = Inr (w_page w', ds, cs)"
    using timer_do_page [OF assms(1) [unfolded startOneShot_def]] by blast
  then show ?thesis
    using timer_start_ok [OF heap_okI [OF assms(2,3)] assms(3), of t 0 0 "w_hb w"] assms(4) by (auto simp: isActive_def)
qed

section \<open>The recorder\<close>

text \<open>In strict mode, no call of a client loses arcs.\<close>

lemma fire_arcs_strict: "\<forall>c \<in> set (fire_arcs T hb). is_strict_call c"
  by (auto simp: fire_arcs_def)

lemma fire_calls_strict:
  assumes "fireTimerCallback t w = Inr (p, ds, cs)"
  shows "\<forall>c \<in> set cs. is_strict_call c"
proof -
  obtain T cs' where "cs = fire_arcs T (w_hb w) @ cs'" "\<forall>c \<in> set cs'. is_strict_call c"
    using assms by (auto simp: fireTimerCallback_def Let_def case_prod_unfold dest: setNextFireTime_calls)
  then show ?thesis using fire_arcs_strict by fastforce
qed

lemma timer_do_grows: "timer_do H c w = Inr w' \<Longrightarrow> arcs_grow (w_hb w) (w_hb w')"
  by (auto simp: timer_do_def dest!: timer_act_calls intro: hb_calls_grow)

lemma startOneShot_grows: "startOneShot H t w = Inr w' \<Longrightarrow> arcs_grow (w_hb w) (w_hb w')"
  by (simp add: startOneShot_def timer_do_grows)

lemma timer_expires_grows: "timer_expires H t w = Inr w' \<Longrightarrow> arcs_grow (w_hb w) (w_hb w')"
  by (auto simp: timer_expires_def dest!: fire_calls_strict intro: hb_calls_grow)

lemma hb_do_grows: "hb_do H c w = Inr w' \<Longrightarrow> is_strict_call c \<Longrightarrow> arcs_grow (w_hb w) (w_hb w')"
  by (auto simp: hb_do_def intro: hb_step_grows)

lemma current_iff: "HBCurrentEventAction s = Inr n \<longleftrightarrow> n \<noteq> 0 \<and> hb_currentEventActionId s = n"
  by (auto simp: HBCurrentEventAction_def get_currentEventAction_def checkInValidEventAction_def split: if_splits)

lemma HBAddExplicitArc_current: "HBAddExplicitArc a b s = Inr s' \<Longrightarrow> hb_currentEventActionId s' = hb_currentEventActionId s"
  by (auto simp: HBAddExplicitArc_def addExplicitArc_def record_arc_def split: if_splits)

lemma arc_to_current_records:
  assumes "arc_to_current H e w = Inr w'"
  shows "arcs_grow (w_hb w) (w_hb w')" "HBCurrentEventAction (w_hb w') = HBCurrentEventAction (w_hb w)"
    "hb_strict_inv (w_hb w) \<Longrightarrow> HBCurrentEventAction (w_hb w) = Inr n \<Longrightarrow> e = n \<or> (e, n) \<in> set (hb_arcs (w_hb w'))"
proof -
  obtain m where m: "HBCurrentEventAction (w_hb w) = Inr m" "hb_do H (HB_arc e m) w = Inr w'"
    using assms by (auto simp: arc_to_current_def)
  then show "arcs_grow (w_hb w) (w_hb w')" by (auto intro: hb_do_grows)
  have "HBCurrentEventAction (w_hb w') = Inr m" using m by (auto simp: hb_do_def current_iff dest: HBAddExplicitArc_current)
  then show "HBCurrentEventAction (w_hb w') = HBCurrentEventAction (w_hb w)" using m(1) by simp
  show "e = n \<or> (e, n) \<in> set (hb_arcs (w_hb w'))" if "hb_strict_inv (w_hb w)" "HBCurrentEventAction (w_hb w) = Inr n"
    using m that hb.add_arcs by (auto simp: hb_do_def HBAddExplicitArc_def split: if_splits)
qed

text \<open>One event action is the other, or recorded before it.\<close>

definition after :: "hb_state \<Rightarrow> int \<Rightarrow> int \<Rightarrow> bool" where
  "after s a b = (a = b \<or> (a, b) \<in> set (hb_arcs s))"

lemma after_grows: "arcs_grow s s' \<Longrightarrow> hb_strict_inv s \<Longrightarrow> after s a b \<Longrightarrow> after s' a b"
  by (auto simp: after_def arcs_grow_def)

lemma join_arcs_grow: "join_arcs is n s = Inr s' \<Longrightarrow> arcs_grow s s'"
  by (induction "is" n s rule: join_arcs.induct)
    (auto split: if_splits dest!: addExplicitArc_record intro: arcs_grow_trans record_arc_grows)

end
