(* ===== verification/Document_Event_Queue.thy ===== *)
theory Document_Event_Queue
  imports Timer_Client
begin

text \<open>
  The queue of a document for events that are dispatched later (\<open>Source/WebCore/dom/DocumentEventQueue\<close>), as R4 changed
  it: one event per event action, each under a name of its own. What the listeners of an event do to the queue is the parameter
  \<open>listeners\<close>. The theorems show two defects of the changed code: an event that was dispatched stays at the head of the queue
  and is dispatched again instead of its successors, and cancelling an event can leave the queue without a timer for ever.
\<close>

section \<open>State\<close>

text \<open>Events are compared by their address, \<open>ev_object\<close>; \<open>dq_dispatched\<close> is the sequence of events that reached their target.\<close>

record page_event =
  ev_object :: nat
  ev_type :: string
  ev_target :: "nat option"

record DocumentEventQueue =
  m_pendingEventTimer :: nat
  m_queuedEvents :: "page_event list"
  m_queuedSources :: "int list"
  m_nodesWithQueuedScrollEvents :: "nat list"
  m_isClosed :: bool
  dq_lastFireEventAction :: int
  m_seqNumber :: "(string, 32 word) smap"
  dq_dispatched :: "page_event list"

type_synonym doc_world = "DocumentEventQueue \<times> thread_world"

definition new_DocumentEventQueue :: "nat \<Rightarrow> (string, 32 word) smap \<Rightarrow> DocumentEventQueue" where
  "new_DocumentEventQueue t numbers = \<lparr>m_pendingEventTimer = t, m_queuedEvents = [], m_queuedSources = [],
     m_nodesWithQueuedScrollEvents = [], m_isClosed = False, dq_lastFireEventAction = 0, m_seqNumber = numbers, dq_dispatched = []\<rparr>"

definition queued :: "page_event \<Rightarrow> DocumentEventQueue \<Rightarrow> bool" where
  "queued e q = (ev_object e \<in> ev_object ` set (m_queuedEvents q))"

section \<open>Operations\<close>

definition getAndIncSeqNumber :: "string \<Rightarrow> (string, 32 word) smap \<Rightarrow> 32 word \<times> (string, 32 word) smap" where
  "getAndIncSeqNumber ty m =
     (case smap_lookup m ty of None \<Rightarrow> (0, smap_insert_new ty 1 m) | Some n \<Rightarrow> (n, smap_store ty (n + 1) m))"

definition getSeqNumber :: "string \<Rightarrow> (string, 32 word) smap \<Rightarrow> 32 word" where
  "getSeqNumber ty m = (case smap_lookup m ty of None \<Rightarrow> 0 | Some n \<Rightarrow> n)"

definition tryUpdateAndStartTimer :: "string_hash \<Rightarrow> doc_world \<Rightarrow> doc_world result" where
  "tryUpdateAndStartTimer H qw =
     (case qw of (q, w) \<Rightarrow>
      if timer_active w (m_pendingEventTimer q) then Inr (q, w)
      else (case m_queuedEvents q of [] \<Rightarrow> Inl ASSERT_FAILED
        | e # _ \<Rightarrow>
            (case getAndIncSeqNumber (ev_type e) (m_seqNumber q) of (n, m) \<Rightarrow>
              let descriptor = mk_descriptor WTF_OTHER ''DocumentEventQueue'' (ev_type e @ '','' @ nat_dec (unat n)) in
              bindR (timer_do H (TC_setDescriptor (m_pendingEventTimer q) descriptor) w) (\<lambda>w1.
              bindR (startOneShot H (m_pendingEventTimer q) w1) (\<lambda>w2. Inr (q\<lparr>m_seqNumber := m\<rparr>, w2))))))"

text \<open>The source of an event: the current event action, or the last one of the user interface.\<close>

definition event_source :: "hb_state \<Rightarrow> int result" where
  "event_source hb = (if HBIsCurrentEventActionValid hb then HBCurrentEventAction hb else HBLastUIEventAction hb)"

definition enqueueEvent :: "string_hash \<Rightarrow> page_event \<Rightarrow> doc_world \<Rightarrow> (bool \<times> doc_world) result" where
  "enqueueEvent H e qw =
     (case qw of (q, w) \<Rightarrow>
      if m_isClosed q then Inr (False, q, w)
      else if ev_type e = ''resize'' \<and> getSeqNumber (ev_type e) (m_seqNumber q) > 0 then Inr (True, q, w)
      else (let q1 = (if ev_type e = ''resize'' then q\<lparr>m_seqNumber := snd (getAndIncSeqNumber (ev_type e) (m_seqNumber q))\<rparr> else q) in
        if ev_target e = None \<or> queued e q1 then Inl ASSERT_FAILED
        else bindR (event_source (w_hb w)) (\<lambda>source.
             bindR (tryUpdateAndStartTimer H
                      (q1\<lparr>m_queuedEvents := m_queuedEvents q1 @ [e], m_queuedSources := m_queuedSources q1 @ [source]\<rparr>, w)) (\<lambda>qw'.
               Inr (True, qw')))))"

text \<open>
  Scroll events. \<open>listens\<close> tells whether the document has a listener for them and \<open>e\<close> is the event that is created. Only Safari
  dispatches some of them at once; here \<open>applicationIsSafari\<close> is false.
\<close>

definition enqueueOrDispatchScrollEvent :: "string_hash \<Rightarrow> nat \<Rightarrow> bool \<Rightarrow> page_event \<Rightarrow> doc_world \<Rightarrow> doc_world result" where
  "enqueueOrDispatchScrollEvent H node listens e qw =
     (case qw of (q, w) \<Rightarrow>
      if \<not> listens then Inr (q, w)
      else if node \<in> set (m_nodesWithQueuedScrollEvents q) then Inr (q, w)
      else bindR (enqueueEvent H (e\<lparr>ev_type := ''scroll'', ev_target := Some node\<rparr>)
                    (q\<lparr>m_nodesWithQueuedScrollEvents := node # m_nodesWithQueuedScrollEvents q\<rparr>, w)) (\<lambda>(_, qw'). Inr qw'))"

text \<open>The index of an event in the queue; the iterator over the sources is advanced as often.\<close>

fun event_index :: "page_event \<Rightarrow> page_event list \<Rightarrow> nat" where
  "event_index e [] = 0"
| "event_index e (x # xs) = (if ev_object x = ev_object e then 0 else Suc (event_index e xs))"

definition remove_at :: "nat \<Rightarrow> 'a list \<Rightarrow> 'a list" where
  "remove_at i xs = take i xs @ drop (Suc i) xs"

definition cancelEvent :: "string_hash \<Rightarrow> page_event \<Rightarrow> doc_world \<Rightarrow> (bool \<times> doc_world) result" where
  "cancelEvent H e qw =
     (case qw of (q, w) \<Rightarrow>
      if \<not> queued e q then Inr (False, q, w)
      else (let i = event_index e (m_queuedEvents q) in
        bindR (if i = 0 then timer_do H (TC_stop (m_pendingEventTimer q)) w else Inr w) (\<lambda>w1.
          if i \<ge> length (m_queuedSources q) then Inl UNDEFINED
          else bindR (tryUpdateAndStartTimer H
                 (q\<lparr>m_queuedSources := remove_at i (m_queuedSources q), m_queuedEvents := remove_at i (m_queuedEvents q)\<rparr>, w1)) (\<lambda>qw'.
                 Inr (True, qw')))))"

definition close :: "string_hash \<Rightarrow> doc_world \<Rightarrow> doc_world result" where
  "close H qw =
     (case qw of (q, w) \<Rightarrow>
      bindR (timer_do H (TC_stop (m_pendingEventTimer q)) w) (\<lambda>w1.
        Inr (q\<lparr>m_isClosed := True, m_queuedEvents := []\<rparr>, w1)))"

datatype doc_call = DC_enqueue page_event | DC_scroll nat bool page_event | DC_cancel page_event | DC_close

fun doc_do :: "string_hash \<Rightarrow> doc_call \<Rightarrow> doc_world \<Rightarrow> doc_world result" where
  "doc_do H (DC_enqueue e) qw = bindR (enqueueEvent H e qw) (\<lambda>(_, qw'). Inr qw')"
| "doc_do H (DC_scroll node listens e) qw = enqueueOrDispatchScrollEvent H node listens e qw"
| "doc_do H (DC_cancel e) qw = bindR (cancelEvent H e qw) (\<lambda>(_, qw'). Inr qw')"
| "doc_do H DC_close qw = close H qw"

text \<open>
  The timer has expired. \<open>m_queuedEvents.remove(0)\<close> is \<open>remove(const ValueType&)\<close> of \<open>ListHashSet\<close> for the null pointer, which is not in
  the set: it removes nothing.
\<close>

type_synonym listeners = "page_event \<Rightarrow> doc_world \<Rightarrow> doc_call list"

definition listset_remove :: "nat option \<Rightarrow> page_event list \<Rightarrow> page_event list" where
  "listset_remove p es = filter (\<lambda>x. Some (ev_object x) \<noteq> p) es"

definition fired_arcs :: "string_hash \<Rightarrow> doc_world \<Rightarrow> doc_world result" where
  "fired_arcs H qw =
     (case qw of (q, w) \<Rightarrow>
      case m_queuedSources q of [] \<Rightarrow> Inl UNDEFINED
      | source # sources \<Rightarrow>
          bindR (arc_to_current H source w) (\<lambda>w1.
          bindR (if dq_lastFireEventAction q \<noteq> 0 then arc_to_current H (dq_lastFireEventAction q) w1 else Inr w1) (\<lambda>w2.
          bindR (HBCurrentEventAction (w_hb w2)) (\<lambda>now.
            Inr (q\<lparr>m_queuedSources := sources, dq_lastFireEventAction := now\<rparr>, w2)))))"

definition pendingEventTimerFired :: "string_hash \<Rightarrow> listeners \<Rightarrow> doc_world \<Rightarrow> doc_world result" where
  "pendingEventTimerFired H listeners qw =
     (case qw of (q, w) \<Rightarrow>
      if timer_active w (m_pendingEventTimer q) then Inl ASSERT_FAILED
      else (case m_queuedEvents q of [] \<Rightarrow> Inl ASSERT_FAILED
        | e # _ \<Rightarrow>
            (let q1 = q\<lparr>m_nodesWithQueuedScrollEvents := [], m_queuedEvents := listset_remove None (m_queuedEvents q),
                        dq_dispatched := dq_dispatched q @ [e]\<rparr>
             in bindR (run_steps (doc_do H) (listeners e (q1, w)) (q1, w)) (fired_arcs H))))"

text \<open>What can happen: a call of the page, the timer expires, or something else in the world.\<close>

datatype doc_event = Doc_call doc_call | Doc_expires | Doc_world "thread_page world_op"

fun doc_step :: "string_hash \<Rightarrow> listeners \<Rightarrow> doc_event \<Rightarrow> doc_world \<Rightarrow> doc_world result" where
  "doc_step H listeners (Doc_call c) qw = doc_do H c qw"
| "doc_step H listeners Doc_expires (q, w) =
     bindR (timer_expires H (m_pendingEventTimer q) w) (\<lambda>w1. pendingEventTimerFired H listeners (q, w1))"
| "doc_step H listeners (Doc_world p) (q, w) = bindR (exec_op H p w) (\<lambda>w1. Inr (q, w1))"

section \<open>The head of the queue is never removed\<close>

definition head_inv :: "doc_world \<Rightarrow> bool" where
  "head_inv qw = (let q = fst qw in
     (m_isClosed q \<longrightarrow> m_queuedEvents q = [])
     \<and> (\<exists>e. set (dq_dispatched q) \<subseteq> {e}
          \<and> (dq_dispatched q \<noteq> [] \<and> \<not> m_isClosed q \<longrightarrow> m_queuedEvents q \<noteq> [] \<and> hd (m_queuedEvents q) = e)))"

lemma tryUpdate_queue:
  "tryUpdateAndStartTimer H (q, w) = Inr (q', w') \<Longrightarrow>
     m_queuedEvents q' = m_queuedEvents q \<and> m_isClosed q' = m_isClosed q \<and> dq_dispatched q' = dq_dispatched q"
  by (auto simp: tryUpdateAndStartTimer_def Let_def split: if_splits list.splits prod.splits)

lemma enqueue_queue:
  "enqueueEvent H e (q, w) = Inr (b, q', w') \<Longrightarrow>
     (m_queuedEvents q' = m_queuedEvents q \<or> \<not> m_isClosed q \<and> m_queuedEvents q' = m_queuedEvents q @ [e])
     \<and> m_isClosed q' = m_isClosed q \<and> dq_dispatched q' = dq_dispatched q"
  by (auto simp: enqueueEvent_def Let_def split: if_splits dest!: tryUpdate_queue)

fun no_cancel :: "doc_call \<Rightarrow> bool" where
  "no_cancel (DC_cancel e) = False"
| "no_cancel _ = True"

lemma enqueue_head: "head_inv (q, w) \<Longrightarrow> enqueueEvent H e (q, w) = Inr (b, q', w') \<Longrightarrow> head_inv (q', w')"
  by (drule enqueue_queue) (auto simp: head_inv_def Let_def)

lemma head_inv_nodes [simp]: "head_inv (q\<lparr>m_nodesWithQueuedScrollEvents := ns\<rparr>, w) = head_inv (q, w)"
  by (simp add: head_inv_def)

lemma head_inv_world: "head_inv (q, w) \<Longrightarrow> head_inv (q, w')"
  by (simp add: head_inv_def)

lemma head_inv_fields [simp]: "head_inv (q\<lparr>m_queuedSources := ss, dq_lastFireEventAction := i\<rparr>, w) = head_inv (q, w)"
  by (simp add: head_inv_def)

lemma close_head: "head_inv (q, w) \<Longrightarrow> head_inv (q\<lparr>m_isClosed := True, m_queuedEvents := []\<rparr>, w')"
  by (auto simp: head_inv_def Let_def)

interpretation dh: step_invariant "doc_do H" head_inv no_cancel for H
proof
  fix qw c qw' assume inv: "head_inv qw" and c: "no_cancel c" "doc_do H c qw = Inr qw'"
  obtain q w where qw: "qw = (q, w)" by (cases qw)
  show "head_inv qw'"
  proof (cases c)
    case DC_close
    then show ?thesis using inv c qw close_head by (auto simp: close_def)
  next
    case (DC_scroll node listens e)
    then show ?thesis using inv c qw enqueue_head [of "q\<lparr>m_nodesWithQueuedScrollEvents := node # m_nodesWithQueuedScrollEvents q\<rparr>"]
      by (auto simp: enqueueOrDispatchScrollEvent_def split: if_splits)
  qed (use inv c qw in \<open>auto intro: enqueue_head\<close>)
qed

definition never_cancels :: "listeners \<Rightarrow> bool" where
  "never_cancels listeners = (\<forall>e qw. \<forall>c \<in> set (listeners e qw). no_cancel c)"

lemma fired_arcs_head: "head_inv qw \<Longrightarrow> fired_arcs H qw = Inr qw' \<Longrightarrow> head_inv qw'"
  by (cases qw) (auto simp: fired_arcs_def split: list.splits if_splits intro: head_inv_world)

lemma fired_head:
  assumes inv: "head_inv (q, w)" and run: "pendingEventTimerFired H listeners (q, w) = Inr qw'" and l: "never_cancels listeners"
  shows "head_inv qw'"
proof -
  obtain e es where es: "m_queuedEvents q = e # es"
    using run by (auto simp: pendingEventTimerFired_def split: if_splits list.splits)
  let ?q1 = "q\<lparr>m_nodesWithQueuedScrollEvents := [], m_queuedEvents := listset_remove None (m_queuedEvents q), dq_dispatched := dq_dispatched q @ [e]\<rparr>"
  have q1: "head_inv (?q1, w)"
    using inv es by (cases "dq_dispatched q") (auto simp: head_inv_def listset_remove_def Let_def)
  obtain qw2 where "run_steps (doc_do H) (listeners e (?q1, w)) (?q1, w) = Inr qw2" "fired_arcs H qw2 = Inr qw'"
    using run es by (auto simp: pendingEventTimerFired_def Let_def split: if_splits)
  then show ?thesis using dh.run_keeps [OF q1 _ \<open>run_steps _ _ _ = _\<close>] l fired_arcs_head unfolding never_cancels_def by blast
qed

interpretation ds: step_invariant "doc_step H listeners" head_inv "\<lambda>c. never_cancels listeners \<and> (\<forall>d. c = Doc_call d \<longrightarrow> no_cancel d)"
  for H listeners
proof
  fix qw c qw' assume inv: "head_inv qw" and c: "never_cancels listeners \<and> (\<forall>d. c = Doc_call d \<longrightarrow> no_cancel d)"
    "doc_step H listeners c qw = Inr qw'"
  obtain q w where qw: "qw = (q, w)" by (cases qw)
  show "head_inv qw'"
  proof (cases c)
    case (Doc_call d)
    then show ?thesis using dh.keeps [OF inv, of d H qw'] c by simp
  next
    case Doc_expires
    then obtain w1 where "pendingEventTimerFired H listeners (q, w1) = Inr qw'" using c(2) by (auto simp: qw)
    then show ?thesis using fired_head [of q w1 H listeners qw'] head_inv_world [of q w w1] inv c(1) by (simp add: qw)
  qed (use inv c head_inv_world in \<open>auto simp: qw\<close>)
qed

text \<open>
  C39: The queue of a document dispatches one event only, over and over: in every history without cancelled events, all
  dispatches are of the same event, and while the queue is open that event is still its head. The events that were enqueued after it
  are never dispatched.
\<close>

theorem document_queue_repeats:
  assumes "never_cancels listeners" "\<forall>c. Doc_call c \<in> set cs \<longrightarrow> no_cancel c"
    and "run_steps (doc_step H listeners) cs (new_DocumentEventQueue t numbers, w0) = Inr (q, w)"
  shows "\<exists>e. set (dq_dispatched q) \<subseteq> {e} \<and> (dq_dispatched q \<noteq> [] \<and> \<not> m_isClosed q \<longrightarrow> hd (m_queuedEvents q) = e)"
proof -
  have "head_inv (new_DocumentEventQueue t numbers, w0)" by (simp add: head_inv_def new_DocumentEventQueue_def)
  from ds.run_keeps [OF this _ assms(3)] have "head_inv (q, w)" using assms(1,2) by auto
  then show ?thesis by (auto simp: head_inv_def Let_def)
qed

text \<open>An event is enqueued and dispatched: it is still the head of the queue.\<close>

definition sample_event :: "nat \<Rightarrow> page_event" where
  "sample_event n = \<lparr>ev_object = n, ev_type = ''hashchange'', ev_target = Some 0\<rparr>"

definition sample_events :: "doc_event list" where
  "sample_events = [Doc_world (Op_hb HB_allocate), Doc_world (Op_hb (HB_enter 1 EA_UNKNOWN)), Doc_call (DC_enqueue (sample_event 1)), Doc_expires]"

definition sample_events_run :: "doc_world result" where
  "sample_events_run = run_steps (doc_step (\<lambda>_. 0) (\<lambda>e qw. [])) sample_events
     (new_DocumentEventQueue 1 [], new_world (new_thread_page (\<lambda>n. 1000 + 1000 * int n)))"

theorem document_queue_repeats_witness:
  "dq_dispatched (fst (projr sample_events_run)) = [sample_event 1] \<and> hd (m_queuedEvents (fst (projr sample_events_run))) = sample_event 1"
proof -
  have r: "\<not> isl sample_events_run" "dq_dispatched (fst (projr sample_events_run)) = [sample_event 1]"
    "\<not> m_isClosed (fst (projr sample_events_run))"
    by code_simp+
  then have "run_steps (doc_step (\<lambda>_. 0) (\<lambda>e qw. [])) sample_events
     (new_DocumentEventQueue 1 [], new_world (new_thread_page (\<lambda>n. 1000 + 1000 * int n))) = Inr (fst (projr sample_events_run), snd (projr sample_events_run))"
    unfolding sample_events_run_def [symmetric] by simp
  from document_queue_repeats [OF _ _ this] r(2,3) show ?thesis by (auto simp: never_cancels_def sample_events_def)
qed

section \<open>A cancelled event can block the queue\<close>

text \<open>
  When the timer of the queue waits in the register and the event at the head is cancelled, the timer is stopped but still
  reports to be active. It is not started again for the remaining events, no handler is registered for it, and no event that is
  enqueued later starts it either.
\<close>

theorem cancel_blocks_queue:
  assumes "thread_after I H fired clock cs = Inr w" "tp_changes (w_page w) + 1 < 2 ^ 31 - 1"
    and "m_inEventActionRegister (timer (w_page w) (m_pendingEventTimer q))"
    and "\<not> m_isNull (m_eventActionDescriptor (timer (w_page w) (m_pendingEventTimer q)))"
    and "m_queuedEvents q = e # es" "m_queuedSources q \<noteq> []"
  shows "\<exists>q' w'. cancelEvent H e (q, w) = Inr (True, q', w') \<and> m_queuedEvents q' = es
     \<and> m_nextFireTime (timer (w_page w') (m_pendingEventTimer q)) = At 0 \<and> timer_active w' (m_pendingEventTimer q)
     \<and> smap_lookup (m_descriptorToHandler (w_reg w')) (fst (toString (m_eventActionDescriptor (timer (w_page w) (m_pendingEventTimer q))))) = None
     \<and> (\<forall>x b q'' w''. enqueueEvent H x (q', w') = Inr (b, q'', w'') \<longrightarrow> w'' = w')"
proof -
  let ?t = "m_pendingEventTimer q"
  let ?d = "m_eventActionDescriptor (timer (w_page w) ?t)"
  have ok: "heap_ok (tp_changes (w_page w)) (tp_heap (w_page w))" using after_heap_ok [OF assms(1)] assms(2) by simp
  obtain p calls where p: "timer_stop ?t (w_hb w) (w_page w) = Inr (p, [?d], calls)" "m_nextFireTime (timer p ?t) = At 0"
    "m_inEventActionRegister (timer p ?t)"
    using timer_stop_ok [OF ok assms(2), of ?t "w_hb w"] assms(3) by auto
  then have calls: "calls = []"
    by (auto simp: timer_stop_def setNextFireTime_def Let_def split: if_splits)
  have reg: "reg_inv (w_reg w)"
    using world_after_le [OF assms(1)] reg_inv_new by (simp add: thread_le_def new_world_def)
  define R where "R = (w_reg w)\<lparr>m_descriptorToHandler := smap_erase (fst (toString ?d)) (m_descriptorToHandler (w_reg w)),
    m_currentDescriptors := sset_erase (fst (toString ?d)) (m_currentDescriptors (w_reg w))\<rparr>"
  define w' where "w' = w\<lparr>w_reg := R, w_removed := w_removed w @ [?d], w_page := p\<rparr>"
  have stop: "timer_do H (TC_stop ?t) w = Inr w'"
    using p calls assms(4) by (simp add: timer_do_def w'_def R_def deregisterEventActionHandler_def Let_def)
  have act: "timer_active w' ?t" "m_nextFireTime (timer (w_page w') ?t) = At 0" using p(2,3) by (simp_all add: w'_def isActive_def)
  define q' where "q' = q\<lparr>m_queuedSources := remove_at 0 (m_queuedSources q), m_queuedEvents := es\<rparr>"
  have "cancelEvent H e (q, w) = Inr (True, q', w')"
    using assms(5,6) stop act(1) by (simp add: cancelEvent_def queued_def remove_at_def q'_def tryUpdateAndStartTimer_def)
  moreover have "w'' = w'" if "enqueueEvent H x (q', w') = Inr (b, q'', w'')" for x b q'' w''
    using that act(1) by (auto simp: enqueueEvent_def tryUpdateAndStartTimer_def q'_def Let_def split: if_splits)
  moreover have "smap_lookup (m_descriptorToHandler (w_reg w')) (fst (toString ?d)) = None"
    using reg by (simp add: w'_def R_def reg_inv_def)
  ultimately show ?thesis using act by (intro exI [of _ q'] exI [of _ w']) (simp add: q'_def)
qed

definition sample_queue :: DocumentEventQueue where
  "sample_queue = (new_DocumentEventQueue 1 [])\<lparr>m_queuedEvents := [sample_event 1, sample_event 2], m_queuedSources := [3, 3]\<rparr>"

definition waiting_world :: "thread_world result" where
  "waiting_world = thread_after (Default \<lparr>ds_stopped = True\<rparr> :: (unit, unit) installed) (\<lambda>_. 0) (\<lambda>t w. []) (\<lambda>n. 1000 * int n)
     [Th_page (TC_setDescriptor 1 (mk_descriptor WTF_OTHER ''DocumentEventQueue'' ''hashchange,0'')), Th_page (TC_start 1 500 0), Th_sharedTimerFired 5]"

theorem cancel_blocks_queue_witness:
  "\<exists>q' w'. cancelEvent (\<lambda>_. 0) (sample_event 1) (sample_queue, projr waiting_world) = Inr (True, q', w') \<and> m_queuedEvents q' = [sample_event 2]
     \<and> timer_active w' 1"
proof -
  have r: "\<not> isl waiting_world" "tp_changes (w_page (projr waiting_world)) = 1" "m_inEventActionRegister (timer (w_page (projr waiting_world)) 1)"
    "\<not> m_isNull (m_eventActionDescriptor (timer (w_page (projr waiting_world)) 1))" by code_simp+
  have q: "m_pendingEventTimer sample_queue = 1" "m_queuedEvents sample_queue = [sample_event 1, sample_event 2]" "m_queuedSources sample_queue \<noteq> []"
    by (simp_all add: sample_queue_def new_DocumentEventQueue_def)
  have "thread_after (Default \<lparr>ds_stopped = True\<rparr> :: (unit, unit) installed) (\<lambda>_. 0) (\<lambda>t w. []) (\<lambda>n. 1000 * int n)
     [Th_page (TC_setDescriptor 1 (mk_descriptor WTF_OTHER ''DocumentEventQueue'' ''hashchange,0'')), Th_page (TC_start 1 500 0), Th_sharedTimerFired 5]
       = Inr (projr waiting_world)"
    using r(1) unfolding waiting_world_def [symmetric] by simp
  from cancel_blocks_queue [OF this, of sample_queue] r q show ?thesis by fastforce
qed

end
