(* ===== verification/Script_Runner.thy ===== *)
theory Script_Runner
  imports Timer_Client
begin

text \<open>
  Scripts that run later (\<open>Source/WebCore/dom/ScriptRunner\<close>, as R4 changed it): asynchronous scripts get an event
  action each, deferred scripts run in their order, one per event action. Together with the part of \<open>Document\<close> that delays the load
  event until all of them have run. What a script does to the runner is the parameter \<open>scripts\<close>; whether
  a script is loaded belongs to the loader.
\<close>

section \<open>State\<close>

record PendingScript =
  ps_element :: nat
  ps_cachedScript :: nat

record DeferAsyncScriptExecution =
  da_timer :: nat
  da_script :: "PendingScript option"
  da_suspended :: bool
  da_resumeJoin :: MultiJoin

record ScriptRunner =
  m_scriptRunnerId :: "32 word"
  m_scriptsToExecuteInOrder :: "PendingScript list"
  m_pendingAsyncScripts :: "(nat, 32 word \<times> PendingScript) smap"
  m_pendingScriptsAdded :: "32 word"
  m_pendingAsyncScriptsExecuted :: "DeferAsyncScriptExecution list"
  m_inOrderTimer :: nat
  m_inOrderExecuted :: "32 word"
  m_inOrderLastEventAction :: int
  m_suspended :: bool
  m_suspendJoin :: MultiJoin
  m_resumeJoin :: MultiJoin

record Document =
  m_loadEventDelayCount :: int
  m_loadEventDelayCountJoin :: MultiJoin
  m_loadEventDelayTimer :: nat
  d_hasFrame :: bool

text \<open>
  The world around the runner. \<open>r_url\<close> is the URL of a script, \<open>r_pointer\<close> the text of an address. \<open>r_queued\<close> and
  \<open>r_executed\<close> are the elements of deferred scripts that were queued and executed, the latter with the event actions in which loading
  ended and in which it ran; nothing reads them. \<open>r_finish\<close> is \<open>m_eventActionToFinish\<close> of the script elements.
\<close>

record runner_world =
  r_runner :: ScriptRunner
  r_document :: Document
  r_world :: thread_world
  r_loaded :: "nat \<Rightarrow> bool"
  r_finish :: "nat \<Rightarrow> int"
  r_url :: "nat \<Rightarrow> string"
  r_pointer :: "nat \<Rightarrow> string"
  r_queued :: "nat list"
  r_executed :: "(nat \<times> int \<times> int) list"

definition new_ScriptRunner :: "32 word \<Rightarrow> nat \<Rightarrow> ScriptRunner" where
  "new_ScriptRunner i t = \<lparr>m_scriptRunnerId = i, m_scriptsToExecuteInOrder = [], m_pendingAsyncScripts = [], m_pendingScriptsAdded = 0,
     m_pendingAsyncScriptsExecuted = [], m_inOrderTimer = t, m_inOrderExecuted = 0, m_inOrderLastEventAction = 0, m_suspended = False,
     m_suspendJoin = new_MultiJoin, m_resumeJoin = new_MultiJoin\<rparr>"

definition on_world :: "(thread_world \<Rightarrow> thread_world result) \<Rightarrow> runner_world \<Rightarrow> runner_world result" where
  "on_world f r = bindR (f (r_world r)) (\<lambda>w. Inr (r\<lparr>r_world := w\<rparr>))"

definition on_runner :: "(ScriptRunner \<Rightarrow> ScriptRunner) \<Rightarrow> runner_world \<Rightarrow> runner_world" where
  "on_runner f r = r\<lparr>r_runner := f (r_runner r)\<rparr>"

lemma on_runner_fields [simp]:
  "r_runner (on_runner f r) = f (r_runner r)" "r_document (on_runner f r) = r_document r" "r_world (on_runner f r) = r_world r"
  "r_finish (on_runner f r) = r_finish r" "r_queued (on_runner f r) = r_queued r" "r_executed (on_runner f r) = r_executed r"
  by (simp_all add: on_runner_def)

section \<open>The load event\<close>

definition incrementLoadEventDelayCount :: "Document \<Rightarrow> Document" where
  "incrementLoadEventDelayCount d = d\<lparr>m_loadEventDelayCount := m_loadEventDelayCount d + 1\<rparr>"

definition decrementLoadEventDelayCount :: "string_hash \<Rightarrow> runner_world \<Rightarrow> runner_world result" where
  "decrementLoadEventDelayCount H r =
     (let d = r_document r in
      if m_loadEventDelayCount d = 0 then Inl ASSERT_FAILED
      else bindR (threadEndAction (w_hb (r_world r)) (m_loadEventDelayCountJoin d)) (\<lambda>J.
           let d1 = d\<lparr>m_loadEventDelayCount := m_loadEventDelayCount d - 1, m_loadEventDelayCountJoin := J\<rparr> in
           if d_hasFrame d1 \<and> m_loadEventDelayCount d1 = 0 \<and> \<not> timer_active (r_world r) (m_loadEventDelayTimer d1)
           then on_world (startOneShot H (m_loadEventDelayTimer d1)) (r\<lparr>r_document := d1\<rparr>)
           else Inr (r\<lparr>r_document := d1\<rparr>)))"

section \<open>Accesses\<close>

definition report_access :: "string_hash \<Rightarrow> CommandType \<Rightarrow> nat \<Rightarrow> nat \<Rightarrow> runner_world \<Rightarrow> runner_world result" where
  "report_access H c this script r =
     on_world (hb_do H (HB_log (R_Format c (''ScriptRunner-'' @ r_pointer r this @ ''-'' @ r_pointer r script)))) r"

section \<open>Asynchronous scripts\<close>

definition async_params :: "string \<Rightarrow> 32 word \<Rightarrow> string" where
  "async_params url i = escapeParam url @ '','' @ ''Async'' @ '','' @ nat_dec (unat i)"

text \<open>The constructor, with the number of its timer.\<close>

definition new_DeferAsyncScriptExecution :: "string_hash \<Rightarrow> nat \<Rightarrow> PendingScript \<Rightarrow> runner_world \<Rightarrow> (DeferAsyncScriptExecution \<times> runner_world) result" where
  "new_DeferAsyncScriptExecution H t script r =
     (let descriptor = mk_descriptor WTF_PARSING ''ScriptRunner'' (async_params (r_url r (ps_cachedScript script)) (m_scriptRunnerId (r_runner r))) in
      bindR (on_world (timer_do H (TC_setDescriptor t descriptor)) r) (\<lambda>r1.
      bindR (on_world (startOneShot H t) r1) (\<lambda>r2.
      bindR (on_world (timer_do H (TC_ignoreFireInterval t)) r2) (\<lambda>r3.
        Inr (\<lparr>da_timer = t, da_script = Some script, da_suspended = False, da_resumeJoin = new_MultiJoin\<rparr>, r3)))))"

definition async_suspend :: "string_hash \<Rightarrow> DeferAsyncScriptExecution \<Rightarrow> runner_world \<Rightarrow> (DeferAsyncScriptExecution \<times> runner_world) result" where
  "async_suspend H a r =
     (if timer_active (r_world r) (da_timer a)
      then bindR (on_world (timer_do H (TC_stop (da_timer a))) r) (\<lambda>r1. Inr (a\<lparr>da_suspended := True\<rparr>, r1))
      else Inr (a, r))"

definition async_resume :: "string_hash \<Rightarrow> DeferAsyncScriptExecution \<Rightarrow> runner_world \<Rightarrow> (DeferAsyncScriptExecution \<times> runner_world) result" where
  "async_resume H a r =
     bindR (if da_suspended a then on_world (startOneShot H (da_timer a)) r else Inr r) (\<lambda>r1.
     bindR (threadEndAction (w_hb (r_world r1)) (da_resumeJoin a)) (\<lambda>J.
       Inr (a\<lparr>da_suspended := False, da_resumeJoin := J\<rparr>, r1)))"

text \<open>The destructor.\<close>

definition delete_DeferAsync :: "string_hash \<Rightarrow> DeferAsyncScriptExecution \<Rightarrow> runner_world \<Rightarrow> runner_world result" where
  "delete_DeferAsync H a r =
     (if timer_active (r_world r) (da_timer a) \<or> da_suspended a
      then bindR (on_world (timer_do H (TC_stop (da_timer a))) r) (decrementLoadEventDelayCount H)
      else Inr r)"

section \<open>Deferred scripts\<close>

definition in_order_params :: "32 word \<Rightarrow> 32 word \<Rightarrow> string" where
  "in_order_params i n = nat_dec (unat i) @ '','' @ ''InOrder'' @ '','' @ nat_dec (unat n)"

definition updateInOrderTimer :: "string_hash \<Rightarrow> runner_world \<Rightarrow> runner_world result" where
  "updateInOrderTimer H r =
     (let R = r_runner r in
      case m_scriptsToExecuteInOrder R of [] \<Rightarrow> Inr r
      | s # _ \<Rightarrow>
          if \<not> r_loaded r (ps_cachedScript s) then Inr r
          else if timer_active (r_world r) (m_inOrderTimer R) then Inr r
          else (let descriptor = mk_descriptor WTF_PARSING ''ScriptRunner'' (in_order_params (m_scriptRunnerId R) (m_inOrderExecuted R)) in
            bindR (on_world (timer_do H (TC_setDescriptor (m_inOrderTimer R) descriptor)) r) (on_world (startOneShot H (m_inOrderTimer R)))))"

datatype ExecutionType = ASYNC_EXECUTION | IN_ORDER_EXECUTION

text \<open>\<open>HashMap::add\<close> keeps an entry that is already there.\<close>

definition queueScriptForExecution :: "string_hash \<Rightarrow> nat \<Rightarrow> PendingScript \<Rightarrow> ExecutionType \<Rightarrow> runner_world \<Rightarrow> runner_world result" where
  "queueScriptForExecution H this script ty r =
     (let r1 = r\<lparr>r_document := incrementLoadEventDelayCount (r_document r)\<rparr>; R = r_runner r1 in
      case ty of
        ASYNC_EXECUTION \<Rightarrow>
          Inr (r1\<lparr>r_runner := R\<lparr>m_pendingAsyncScripts := smap_insert_new (ps_element script) (m_pendingScriptsAdded R, script) (m_pendingAsyncScripts R),
                                 m_pendingScriptsAdded := m_pendingScriptsAdded R + 1\<rparr>\<rparr>)
      | IN_ORDER_EXECUTION \<Rightarrow>
          report_access H WRITE_MEMORY this (ps_element script)
            (r1\<lparr>r_runner := R\<lparr>m_scriptsToExecuteInOrder := m_scriptsToExecuteInOrder R @ [script]\<rparr>,
                r_queued := r_queued r1 @ [ps_element script]\<rparr>))"

definition runner_suspend :: "string_hash \<Rightarrow> runner_world \<Rightarrow> runner_world result" where
  "runner_suspend H r =
     bindR (threadEndAction (w_hb (r_world r)) (m_suspendJoin (r_runner r))) (\<lambda>J.
       let r1 = on_runner (\<lambda>R. R\<lparr>m_suspendJoin := J\<rparr>) r; t = m_inOrderTimer (r_runner r1) in
       if timer_active (r_world r1) t
       then on_world (timer_do H (TC_stop t)) (on_runner (\<lambda>R. R\<lparr>m_suspended := True\<rparr>) r1)
       else Inr r1)"

definition runner_resume :: "string_hash \<Rightarrow> runner_world \<Rightarrow> runner_world result" where
  "runner_resume H r =
     bindR (join_and_clear (m_suspendJoin (r_runner r)) (r_world r)) (\<lambda>(J, w).
       let r1 = on_runner (\<lambda>R. R\<lparr>m_suspendJoin := J\<rparr>) (r\<lparr>r_world := w\<rparr>) in
       bindR (if m_suspended (r_runner r1)
              then on_world (startOneShot H (m_inOrderTimer (r_runner r1))) (on_runner (\<lambda>R. R\<lparr>m_suspended := False\<rparr>) r1)
              else Inr r1) (\<lambda>r2.
       bindR (threadEndAction (w_hb (r_world r2)) (m_resumeJoin (r_runner r2))) (\<lambda>J'.
         Inr (on_runner (\<lambda>R. R\<lparr>m_resumeJoin := J'\<rparr>) r2))))"

text \<open>\<open>t\<close> is the timer of the new object for an asynchronous script.\<close>

definition notifyScriptReady :: "string_hash \<Rightarrow> nat \<Rightarrow> nat \<Rightarrow> nat \<Rightarrow> ExecutionType \<Rightarrow> runner_world \<Rightarrow> runner_world result" where
  "notifyScriptReady H this t element ty r =
     bindR (report_access H WRITE_MEMORY this element r) (\<lambda>r1.
       case ty of
         ASYNC_EXECUTION \<Rightarrow>
           (case smap_lookup (m_pendingAsyncScripts (r_runner r1)) element of None \<Rightarrow> Inl ASSERT_FAILED
            | Some (_, script) \<Rightarrow>
                bindR (new_DeferAsyncScriptExecution H t script
                         (on_runner (\<lambda>R. R\<lparr>m_pendingAsyncScripts := smap_erase element (m_pendingAsyncScripts R)\<rparr>) r1)) (\<lambda>(a, r2).
                  Inr (on_runner (\<lambda>R. R\<lparr>m_pendingAsyncScriptsExecuted := m_pendingAsyncScriptsExecuted R @ [a]\<rparr>) r2)))
       | IN_ORDER_EXECUTION \<Rightarrow>
           if m_scriptsToExecuteInOrder (r_runner r1) = [] then Inl ASSERT_FAILED else updateInOrderTimer H r1)"

text \<open>
  \<open>ScriptElement::notifyFinished\<close>: the script of an element is loaded. \<open>denied\<close> is the access control check of the page; the error
  event of that branch is the page's. The clearing of \<open>m_cachedScript\<close> of the element is not in this state.
\<close>

definition script_notifyFinished :: "string_hash \<Rightarrow> nat \<Rightarrow> nat \<Rightarrow> nat \<Rightarrow> ExecutionType \<Rightarrow> bool \<Rightarrow> runner_world \<Rightarrow> runner_world result" where
  "script_notifyFinished H this t element ty denied r =
     (if denied then Inr r
      else bindR (HBCurrentEventAction (w_hb (r_world r))) (\<lambda>now.
             notifyScriptReady H this t element ty (r\<lparr>r_finish := (r_finish r)(element := now)\<rparr>)))"

text \<open>What happens while the page runs: \<open>RC_loaded\<close> is the loader, that has all of a script.\<close>

datatype runner_call =
  RC_queue nat PendingScript ExecutionType | RC_suspend | RC_resume | RC_loaded nat | RC_finished nat nat nat ExecutionType bool

fun runner_do :: "string_hash \<Rightarrow> runner_call \<Rightarrow> runner_world \<Rightarrow> runner_world result" where
  "runner_do H (RC_queue this script ty) r = queueScriptForExecution H this script ty r"
| "runner_do H RC_suspend r = runner_suspend H r"
| "runner_do H RC_resume r = runner_resume H r"
| "runner_do H (RC_loaded script) r = Inr (r\<lparr>r_loaded := (r_loaded r)(script := True)\<rparr>)"
| "runner_do H (RC_finished this t element ty denied) r = script_notifyFinished H this t element ty denied r"

type_synonym scripts = "nat \<Rightarrow> runner_world \<Rightarrow> runner_call list"

section \<open>Timers\<close>

text \<open>
  The timer of an asynchronous script has expired; the object is the one at index \<open>i\<close>. Its script is released: without one the
  code would dereference a null element.
\<close>

definition async_timerFired :: "string_hash \<Rightarrow> scripts \<Rightarrow> nat \<Rightarrow> nat \<Rightarrow> runner_world \<Rightarrow> runner_world result" where
  "async_timerFired H scripts this i r =
     (case da_script (m_pendingAsyncScriptsExecuted (r_runner r) ! i) of None \<Rightarrow> Inl UNDEFINED
      | Some script \<Rightarrow>
          (let released = on_runner (\<lambda>R. R\<lparr>m_pendingAsyncScriptsExecuted :=
                 (m_pendingAsyncScriptsExecuted R)[i := (m_pendingAsyncScriptsExecuted R ! i)\<lparr>da_script := None\<rparr>]\<rparr>) r in
           bindR (report_access H READ_MEMORY this (ps_element script) released) (\<lambda>r1.
           bindR (run_steps (runner_do H) (scripts (ps_element script) r1) r1) (\<lambda>r2.
           bindR (decrementLoadEventDelayCount H r2) (\<lambda>r3.
             let a = m_pendingAsyncScriptsExecuted (r_runner r3) ! i in
             bindR (join_and_clear (da_resumeJoin a) (r_world r3)) (\<lambda>(J, w).
               Inr (on_runner (\<lambda>R. R\<lparr>m_pendingAsyncScriptsExecuted := (m_pendingAsyncScriptsExecuted R)[i := a\<lparr>da_resumeJoin := J\<rparr>]\<rparr>)
                 (r3\<lparr>r_world := w\<rparr>))))))))"

text \<open>What follows the execution of a deferred script.\<close>

definition inOrder_arcs :: "string_hash \<Rightarrow> nat \<Rightarrow> runner_world \<Rightarrow> runner_world result" where
  "inOrder_arcs H element r =
     (let last = m_inOrderLastEventAction (r_runner r) in
      bindR (if last \<noteq> 0 then on_world (arc_to_current H last) r else Inr r) (\<lambda>r1.
      bindR (HBCurrentEventAction (w_hb (r_world r1))) (\<lambda>now.
        let r2 = on_runner (\<lambda>R. R\<lparr>m_inOrderLastEventAction := now\<rparr>) (r1\<lparr>r_executed := r_executed r1 @ [(element, r_finish r1 element, now)]\<rparr>) in
        if r_finish r2 element = 0 then Inl ASSERT_FAILED
        else bindR (on_world (arc_to_current H (r_finish r2 element)) r2) (\<lambda>r3.
             bindR (join_and_clear (m_resumeJoin (r_runner r3)) (r_world r3)) (\<lambda>(J, w).
               Inr (on_runner (\<lambda>R. R\<lparr>m_resumeJoin := J\<rparr>) (r3\<lparr>r_world := w\<rparr>)))))))"

definition inOrderTimerFired :: "string_hash \<Rightarrow> scripts \<Rightarrow> nat \<Rightarrow> runner_world \<Rightarrow> runner_world result" where
  "inOrderTimerFired H scripts this r =
     (let r0 = on_runner (\<lambda>R. R\<lparr>m_inOrderExecuted := m_inOrderExecuted R + 1\<rparr>) r in
      case m_scriptsToExecuteInOrder (r_runner r0) of [] \<Rightarrow> Inl ASSERT_FAILED
      | script # rest \<Rightarrow>
          bindR (report_access H READ_MEMORY this (ps_element script) (on_runner (\<lambda>R. R\<lparr>m_scriptsToExecuteInOrder := rest\<rparr>) r0)) (\<lambda>r1.
          bindR (run_steps (runner_do H) (scripts (ps_element script) r1) r1) (\<lambda>r2.
          bindR (decrementLoadEventDelayCount H r2) (\<lambda>r3.
          bindR (inOrder_arcs H (ps_element script) r3) (updateInOrderTimer H)))))"

text \<open>The destructor; \<open>m_scriptsToExecuteSoon\<close> is always empty.\<close>

fun decrement_times :: "string_hash \<Rightarrow> nat \<Rightarrow> runner_world \<Rightarrow> runner_world result" where
  "decrement_times H 0 r = Inr r"
| "decrement_times H (Suc n) r = bindR (decrementLoadEventDelayCount H r) (decrement_times H n)"

definition delete_ScriptRunner :: "string_hash \<Rightarrow> runner_world \<Rightarrow> runner_world result" where
  "delete_ScriptRunner H r =
     bindR (decrement_times H (length (m_scriptsToExecuteInOrder (r_runner r))) r) (\<lambda>r1.
     bindR (decrement_times H (length (m_pendingAsyncScripts (r_runner r1))) r1) (\<lambda>r2.
       run_steps (delete_DeferAsync H) (m_pendingAsyncScriptsExecuted (r_runner r2)) r2))"

definition hasPendingScripts :: "ScriptRunner \<Rightarrow> bool" where
  "hasPendingScripts R = (m_scriptsToExecuteInOrder R \<noteq> [] \<or> m_pendingAsyncScripts R \<noteq> [])"

text \<open>What can happen to a runner: calls, timers that are active expire, and event actions begin and end.\<close>

datatype runner_event = Run_call runner_call | Run_inOrder nat | Run_async nat nat | Run_hb hb_call

fun runner_step :: "string_hash \<Rightarrow> scripts \<Rightarrow> runner_event \<Rightarrow> runner_world \<Rightarrow> runner_world result" where
  "runner_step H scripts (Run_call c) r = runner_do H c r"
| "runner_step H scripts (Run_inOrder this) r =
     (if timer_active (r_world r) (m_inOrderTimer (r_runner r))
      then bindR (on_world (timer_expires H (m_inOrderTimer (r_runner r))) r) (inOrderTimerFired H scripts this)
      else Inr r)"
| "runner_step H scripts (Run_async this i) r =
     (if i < length (m_pendingAsyncScriptsExecuted (r_runner r))
         \<and> timer_active (r_world r) (da_timer (m_pendingAsyncScriptsExecuted (r_runner r) ! i))
      then bindR (on_world (timer_expires H (da_timer (m_pendingAsyncScriptsExecuted (r_runner r) ! i))) r) (async_timerFired H scripts this i)
      else Inr r)"
| "runner_step H scripts (Run_hb c) r = on_world (hb_do H c) r"

section \<open>What calls do to the queue\<close>

text \<open>
  Calls append to the queue of deferred scripts; they execute none, keep the arcs that are recorded, and leave the timer of the
  runner and its last event action alone.
\<close>

definition runner_rel :: "runner_world \<Rightarrow> runner_world \<Rightarrow> bool" where
  "runner_rel r r' = (arcs_grow (w_hb (r_world r)) (w_hb (r_world r')) \<and> page_le (w_page (r_world r)) (w_page (r_world r')) \<and> r_executed r' = r_executed r
     \<and> m_inOrderLastEventAction (r_runner r') = m_inOrderLastEventAction (r_runner r) \<and> m_inOrderTimer (r_runner r') = m_inOrderTimer (r_runner r)
     \<and> (\<exists>new. r_queued r' = r_queued r @ map ps_element new
          \<and> m_scriptsToExecuteInOrder (r_runner r') = m_scriptsToExecuteInOrder (r_runner r) @ new))"

lemma runner_rel_refl [simp]: "runner_rel r r"
  by (simp add: runner_rel_def)

lemma runner_rel_trans: "runner_rel r1 r2 \<Longrightarrow> runner_rel r2 r3 \<Longrightarrow> runner_rel r1 r3"
  by (auto simp: runner_rel_def intro: arcs_grow_trans page_le_trans)

lemma on_world_rel:
  "on_world f r = Inr r' \<Longrightarrow> (\<And>w. f (r_world r) = Inr w \<Longrightarrow> arcs_grow (w_hb (r_world r)) (w_hb w) \<and> page_le (w_page (r_world r)) (w_page w)) \<Longrightarrow>
     runner_rel r r'"
  by (auto simp: on_world_def runner_rel_def)

lemma on_world_fields:
  "on_world f r = Inr r' \<Longrightarrow> r_runner r' = r_runner r \<and> r_document r' = r_document r \<and> r_executed r' = r_executed r \<and> r_finish r' = r_finish r"
  by (auto simp: on_world_def)

lemma world_rel:
  "on_world (timer_do H c) r = Inr r' \<Longrightarrow> runner_rel r r'"
  "on_world (startOneShot H t) r = Inr r' \<Longrightarrow> runner_rel r r'"
  "on_world (timer_expires H t) r = Inr r' \<Longrightarrow> runner_rel r r'"
  by (erule on_world_rel, simp add: timer_do_grows startOneShot_grows timer_expires_grows timer_do_le startOneShot_le timer_expires_le)+

text \<open>Fields that the relation does not read.\<close>

lemma runner_rel_fields [simp]:
  "runner_rel r (r'\<lparr>r_document := d\<rparr>) = runner_rel r r'" "runner_rel (r\<lparr>r_document := d\<rparr>) r' = runner_rel r r'"
  "runner_rel r (r'\<lparr>r_loaded := l\<rparr>) = runner_rel r r'" "runner_rel (r\<lparr>r_finish := g\<rparr>) r' = runner_rel r r'"
  by (simp_all add: runner_rel_def)

definition same_order :: "(ScriptRunner \<Rightarrow> ScriptRunner) \<Rightarrow> bool" where
  "same_order f = (\<forall>R. m_scriptsToExecuteInOrder (f R) = m_scriptsToExecuteInOrder R \<and> m_inOrderTimer (f R) = m_inOrderTimer R
     \<and> m_inOrderLastEventAction (f R) = m_inOrderLastEventAction R)"

lemma on_runner_rel [simp]:
  "same_order f \<Longrightarrow> runner_rel r (on_runner f r') = runner_rel r r'" "same_order f \<Longrightarrow> runner_rel (on_runner f r) r' = runner_rel r r'"
  by (simp_all add: runner_rel_def on_runner_def same_order_def)

lemma join_and_clear_rel: "join_and_clear J (r_world r) = Inr (J', w) \<Longrightarrow> runner_rel r (r\<lparr>r_world := w\<rparr>)"
  by (auto simp: join_and_clear_def joinAction_def runner_rel_def Let_def split: if_splits dest: join_arcs_grow)

lemma report_access_rel: "report_access H c this script r = Inr r' \<Longrightarrow> runner_rel r r'"
  unfolding report_access_def by (erule on_world_rel) (simp add: hb_do_grows)

lemma decrement_rel: "decrementLoadEventDelayCount H r = Inr r' \<Longrightarrow> runner_rel r r'"
  by (auto simp: decrementLoadEventDelayCount_def Let_def split: if_splits dest!: world_rel(2))

lemma updateInOrderTimer_rel: "updateInOrderTimer H r = Inr r' \<Longrightarrow> runner_rel r r'"
  by (auto simp: updateInOrderTimer_def Let_def split: list.splits if_splits dest!: world_rel(1,2) intro: runner_rel_trans)

lemma new_DeferAsync_rel: "new_DeferAsyncScriptExecution H t script r = Inr (a, r') \<Longrightarrow> runner_rel r r'"
  by (auto simp: new_DeferAsyncScriptExecution_def Let_def dest!: world_rel(1,2) intro: runner_rel_trans)

lemma queue_rel: "queueScriptForExecution H this script ty r = Inr r' \<Longrightarrow> runner_rel r r'"
  by (auto simp: queueScriptForExecution_def Let_def runner_rel_def split: ExecutionType.splits dest!: report_access_rel)

lemma suspend_rel: "runner_suspend H r = Inr r' \<Longrightarrow> runner_rel r r'"
  by (auto simp: runner_suspend_def Let_def same_order_def split: if_splits dest!: world_rel(1))

lemma resume_rel: "runner_resume H r = Inr r' \<Longrightarrow> runner_rel r r'"
  by (auto simp: runner_resume_def Let_def same_order_def split: if_splits dest!: world_rel(2) join_and_clear_rel intro: runner_rel_trans)

lemma notify_rel: "notifyScriptReady H this t element ty r = Inr r' \<Longrightarrow> runner_rel r r'"
  by (cases ty) (auto simp: notifyScriptReady_def same_order_def split: option.splits if_splits
      dest!: report_access_rel new_DeferAsync_rel updateInOrderTimer_rel, (blast dest: runner_rel_trans)+)

lemma runner_do_rel: "runner_do H c r = Inr r' \<Longrightarrow> runner_rel r r'"
  by (cases c) (auto simp: script_notifyFinished_def split: if_splits dest: queue_rel suspend_rel resume_rel dest!: notify_rel)

interpretation rr: step_relation "runner_do H" runner_rel for H :: string_hash
  by unfold_locales (auto intro: runner_rel_trans runner_do_rel)

section \<open>Deferred scripts run in their order\<close>

text \<open>
  The elements queued are those executed, then those that wait; every execution is recorded after the one before it and after the
  event action in which its script was loaded. \<open>running\<close> is the script that is being executed, if any.
\<close>

definition order_inv :: "nat list \<Rightarrow> runner_world \<Rightarrow> bool" where
  "order_inv running r =
     (let hb = w_hb (r_world r) in
      hb_strict_inv hb
      \<and> r_queued r = map fst (r_executed r) @ running @ map ps_element (m_scriptsToExecuteInOrder (r_runner r))
      \<and> successively (after hb) (map (snd \<circ> snd) (r_executed r))
      \<and> (\<forall>(e, f, a) \<in> set (r_executed r). after hb f a \<and> a \<noteq> 0)
      \<and> m_inOrderLastEventAction (r_runner r) = (if r_executed r = [] then 0 else snd (snd (last (r_executed r)))))"

lemma order_inv_strict: "order_inv running r \<Longrightarrow> hb_strict_inv (w_hb (r_world r))"
  by (simp add: order_inv_def Let_def)

lemma runner_rel_executed: "runner_rel r r' \<Longrightarrow> r_executed r' = r_executed r"
  by (simp add: runner_rel_def)

lemma order_inv_rel:
  assumes "runner_rel r r'" "order_inv running r"
  shows "order_inv running r'"
proof -
  have g: "arcs_grow (w_hb (r_world r)) (w_hb (r_world r'))" "hb_strict_inv (w_hb (r_world r))"
    using assms by (simp_all add: runner_rel_def order_inv_def Let_def)
  have "successively (after (w_hb (r_world r'))) (map (snd \<circ> snd) (r_executed r))"
    using assms(2) by (auto simp: order_inv_def Let_def intro: successively_mono after_grows [OF g])
  then show ?thesis using assms g after_grows [OF g] by (auto simp: order_inv_def runner_rel_def Let_def arcs_grow_def)
qed

lemma order_inv_same [simp]:
  "same_order f \<Longrightarrow> order_inv running (on_runner f r) = order_inv running r"
  by (simp add: order_inv_def on_runner_def same_order_def Let_def)

lemma arc_world:
  assumes "on_world (arc_to_current H e) r = Inr r'"
  shows "runner_rel r r'" "HBCurrentEventAction (w_hb (r_world r')) = HBCurrentEventAction (w_hb (r_world r))"
    "hb_strict_inv (w_hb (r_world r)) \<Longrightarrow> HBCurrentEventAction (w_hb (r_world r)) = Inr n \<Longrightarrow> after (w_hb (r_world r')) e n"
  using assms arc_to_current_records [of H e "r_world r" "r_world r'"] arc_to_current_page [of H e "r_world r" "r_world r'"] by (auto simp: on_world_def runner_rel_def after_def)

text \<open>The executed script joins the list of executions.\<close>

lemma order_inv_executed:
  assumes "order_inv [element] r" "order_inv [element] r3" "now \<noteq> 0" "r_executed r3 = r_executed r"
    and "m_inOrderLastEventAction (r_runner r) \<noteq> 0 \<Longrightarrow> after (w_hb (r_world r3)) (m_inOrderLastEventAction (r_runner r)) now"
    and "after (w_hb (r_world r3)) f now"
  shows "order_inv [] (on_runner (\<lambda>R. R\<lparr>m_inOrderLastEventAction := now\<rparr>) (r3\<lparr>r_executed := r_executed r3 @ [(element, f, now)]\<rparr>))"
  using assms by (cases "r_executed r" rule: rev_cases) (auto simp: order_inv_def on_runner_def Let_def successively_append_iff)

lemma arc_before_executed:
  "on_world (arc_to_current H e) (on_runner (\<lambda>R. R\<lparr>m_inOrderLastEventAction := now\<rparr>) (r\<lparr>r_executed := x\<rparr>)) =
     bindR (on_world (arc_to_current H e) r) (\<lambda>r3. Inr (on_runner (\<lambda>R. R\<lparr>m_inOrderLastEventAction := now\<rparr>) (r3\<lparr>r_executed := x\<rparr>)))"
  by (cases r) (simp add: on_world_def on_runner_def bindR_assoc)

lemma inOrder_arcs_inv:
  assumes "inOrder_arcs H element r = Inr r'" "order_inv [element] r"
  shows "order_inv [] r'"
proof -
  let ?last = "m_inOrderLastEventAction (r_runner r)"
  obtain r1 now r3 J w where r1: "(if ?last \<noteq> 0 then on_world (arc_to_current H ?last) r else Inr r) = Inr r1"
    and now: "HBCurrentEventAction (w_hb (r_world r1)) = Inr now" and r3: "on_world (arc_to_current H (r_finish r1 element)) r1 = Inr r3"
    and join: "join_and_clear (m_resumeJoin (r_runner r3)) (r_world r3) = Inr (J, w)"
    and r': "r' = on_runner (\<lambda>R. R\<lparr>m_resumeJoin := J\<rparr>) ((on_runner (\<lambda>R. R\<lparr>m_inOrderLastEventAction := now\<rparr>)
      (r3\<lparr>r_executed := r_executed r1 @ [(element, r_finish r1 element, now)]\<rparr>))\<lparr>r_world := w\<rparr>)"
    using assms(1) by (auto simp: inOrder_arcs_def Let_def arc_before_executed split: if_splits)
  have rel1: "runner_rel r r1" and last: "?last \<noteq> 0 \<Longrightarrow> after (w_hb (r_world r1)) ?last now"
    using r1 now arc_world [of H ?last r r1] order_inv_strict [OF assms(2)] by (auto split: if_splits)
  note inv1 = order_inv_rel [OF rel1 assms(2)] and a3 = arc_world [OF r3]
  have "order_inv [element] r3" by (rule order_inv_rel [OF a3(1) inv1])
  moreover have "r_executed r3 = r_executed r" "r_executed r1 = r_executed r"
    using a3(1) rel1 by (simp_all add: runner_rel_executed)
  moreover have "after (w_hb (r_world r3)) (r_finish r1 element) now" by (rule a3(3) [OF order_inv_strict [OF inv1] now])
  moreover have "?last \<noteq> 0 \<Longrightarrow> after (w_hb (r_world r3)) ?last now"
    using after_grows [OF _ order_inv_strict [OF inv1] last] a3(1) by (simp add: runner_rel_def)
  ultimately have "order_inv [] (on_runner (\<lambda>R. R\<lparr>m_inOrderLastEventAction := now\<rparr>)
      (r3\<lparr>r_executed := r_executed r1 @ [(element, r_finish r1 element, now)]\<rparr>))" (is "order_inv _ ?r4")
    using order_inv_executed [OF assms(2)] now by (simp add: current_iff)
  moreover have "runner_rel ?r4 (?r4\<lparr>r_world := w\<rparr>)" using join join_and_clear_rel [of _ ?r4 J w] by simp
  ultimately show ?thesis using order_inv_rel by (simp add: r' same_order_def)
qed

lemma inOrderTimerFired_parts:
  assumes "inOrderTimerFired H scripts this r = Inr r'"
  obtains s rest r0 r1 r2 r3 r4 where "m_scriptsToExecuteInOrder (r_runner r) = s # rest"
    "r0 = on_runner (\<lambda>R. R\<lparr>m_scriptsToExecuteInOrder := rest\<rparr>) (on_runner (\<lambda>R. R\<lparr>m_inOrderExecuted := m_inOrderExecuted R + 1\<rparr>) r)"
    "report_access H READ_MEMORY this (ps_element s) r0 = Inr r1" "run_steps (runner_do H) (scripts (ps_element s) r1) r1 = Inr r2"
    "decrementLoadEventDelayCount H r2 = Inr r3" "inOrder_arcs H (ps_element s) r3 = Inr r4" "updateInOrderTimer H r4 = Inr r'"
proof -
  obtain s rest where "m_scriptsToExecuteInOrder (r_runner r) = s # rest"
    using assms by (auto simp: inOrderTimerFired_def Let_def split: list.splits)
  with assms show ?thesis using that by (auto simp: inOrderTimerFired_def Let_def)
qed

lemma inOrderTimerFired_inv:
  assumes "inOrderTimerFired H scripts this r = Inr r'" "order_inv [] r"
  shows "order_inv [] r'"
  using assms(1)
proof (rule inOrderTimerFired_parts)
  fix s rest r0 r1 r2 r3 r4
  assume s: "m_scriptsToExecuteInOrder (r_runner r) = s # rest"
    "r0 = on_runner (\<lambda>R. R\<lparr>m_scriptsToExecuteInOrder := rest\<rparr>) (on_runner (\<lambda>R. R\<lparr>m_inOrderExecuted := m_inOrderExecuted R + 1\<rparr>) r)"
    and r1: "report_access H READ_MEMORY this (ps_element s) r0 = Inr r1"
    and r2: "run_steps (runner_do H) (scripts (ps_element s) r1) r1 = Inr r2" and r3: "decrementLoadEventDelayCount H r2 = Inr r3"
    and r4: "inOrder_arcs H (ps_element s) r3 = Inr r4" "updateInOrderTimer H r4 = Inr r'"
  have "order_inv [ps_element s] r0" using assms(2) s by (simp add: order_inv_def Let_def)
  then have "order_inv [ps_element s] r3"
    using order_inv_rel report_access_rel [OF r1] rr.run_respects [OF r2] decrement_rel [OF r3] by blast
  from inOrder_arcs_inv [OF r4(1) this] show ?thesis using order_inv_rel updateInOrderTimer_rel [OF r4(2)] by blast
qed

lemma async_timerFired_parts:
  assumes "async_timerFired H scripts this i r = Inr r'"
  obtains e r0 r1 r2 r3 J' J w where "da_script (m_pendingAsyncScriptsExecuted (r_runner r) ! i) = Some e"
    "r0 = on_runner (\<lambda>R. R\<lparr>m_pendingAsyncScriptsExecuted :=
      (m_pendingAsyncScriptsExecuted R)[i := (m_pendingAsyncScriptsExecuted R ! i)\<lparr>da_script := None\<rparr>]\<rparr>) r"
    "report_access H READ_MEMORY this (ps_element e) r0 = Inr r1" "run_steps (runner_do H) (scripts (ps_element e) r1) r1 = Inr r2"
    "decrementLoadEventDelayCount H r2 = Inr r3" "join_and_clear J' (r_world r3) = Inr (J, w)"
    "r' = on_runner (\<lambda>R. R\<lparr>m_pendingAsyncScriptsExecuted := (m_pendingAsyncScriptsExecuted R)
       [i := (m_pendingAsyncScriptsExecuted (r_runner r3) ! i)\<lparr>da_resumeJoin := J\<rparr>]\<rparr>) (r3\<lparr>r_world := w\<rparr>)"
proof -
  obtain e where "da_script (m_pendingAsyncScriptsExecuted (r_runner r) ! i) = Some e"
    using assms by (auto simp: async_timerFired_def split: option.splits)
  with assms show ?thesis using that by (auto simp: async_timerFired_def Let_def)
qed

lemma async_timerFired_rel: "async_timerFired H scripts this i r = Inr r' \<Longrightarrow> runner_rel r r'"
proof (erule async_timerFired_parts)
  fix e r0 r1 r2 r3 J' J w
  assume "r0 = on_runner (\<lambda>R. R\<lparr>m_pendingAsyncScriptsExecuted :=
      (m_pendingAsyncScriptsExecuted R)[i := (m_pendingAsyncScriptsExecuted R ! i)\<lparr>da_script := None\<rparr>]\<rparr>) r"
    and r1: "report_access H READ_MEMORY this (ps_element e) r0 = Inr r1"
    and r2: "run_steps (runner_do H) (scripts (ps_element e) r1) r1 = Inr r2" and r3: "decrementLoadEventDelayCount H r2 = Inr r3"
    and w: "join_and_clear J' (r_world r3) = Inr (J, w)"
    and r': "r' = on_runner (\<lambda>R. R\<lparr>m_pendingAsyncScriptsExecuted := (m_pendingAsyncScriptsExecuted R)
       [i := (m_pendingAsyncScriptsExecuted (r_runner r3) ! i)\<lparr>da_resumeJoin := J\<rparr>]\<rparr>) (r3\<lparr>r_world := w\<rparr>)"
  then have "runner_rel r r1" using report_access_rel [OF r1] by (simp add: same_order_def)
  from runner_rel_trans [OF runner_rel_trans [OF runner_rel_trans [OF this rr.run_respects [OF r2]] decrement_rel [OF r3]] join_and_clear_rel [OF w]]
  show ?thesis by (simp add: r' same_order_def)
qed

definition strict_event :: "runner_event \<Rightarrow> bool" where
  "strict_event e = (\<forall>c. e = Run_hb c \<longrightarrow> is_strict_call c)"

interpretation ro: step_invariant "runner_step H scripts" "order_inv []" strict_event for H :: string_hash and scripts :: scripts
proof
  fix r e r' assume inv: "order_inv [] r" and e: "strict_event e" and r': "runner_step H scripts e r = Inr r'"
  show "order_inv [] r'"
  proof (cases e)
    case (Run_call c)
    then show ?thesis using r' order_inv_rel [OF runner_do_rel inv] by simp
  next
    case (Run_inOrder this)
    then show ?thesis using r' inv order_inv_rel [OF world_rel(3) inv] inOrderTimerFired_inv by (auto split: if_splits)
  next
    case (Run_async this i)
    then show ?thesis using r' inv order_inv_rel [OF world_rel(3) inv] order_inv_rel [OF async_timerFired_rel] by (auto split: if_splits)
  next
    case (Run_hb c)
    then show ?thesis using r' e order_inv_rel [OF on_world_rel inv] hb_do_grows by (simp add: strict_event_def)
  qed
qed

text \<open>
  C11: Deferred scripts run in the order in which they were queued, each one once: in every history of a script runner in which the recorder
  stays in strict mode, the scripts queued are the scripts executed followed by the scripts that wait, whatever the scripts themselves
  do to the runner. The event actions in which they run are chained by recorded arcs, and each is recorded after the event action in which its
  script was loaded.
\<close>

theorem deferred_scripts_in_order:
  assumes "run_steps (runner_step H scripts) es r0 = Inr r" "\<forall>e \<in> set es. strict_event e"
    and "r_runner r0 = new_ScriptRunner i t" "r_queued r0 = []" "r_executed r0 = []" "hb_strict_inv (w_hb (r_world r0))"
  shows "r_queued r = map fst (r_executed r) @ map ps_element (m_scriptsToExecuteInOrder (r_runner r))
     \<and> successively (after (w_hb (r_world r))) (map (snd \<circ> snd) (r_executed r))
     \<and> (\<forall>(e, loaded, now) \<in> set (r_executed r). after (w_hb (r_world r)) loaded now)"
proof -
  have "order_inv [] r0" using assms(3-6) by (simp add: order_inv_def new_ScriptRunner_def)
  from ro.run_keeps [OF this assms(2,1)] show ?thesis by (auto simp: order_inv_def Let_def)
qed

definition sample_runner :: runner_world where
  "sample_runner = \<lparr>r_runner = new_ScriptRunner 0 1, r_document = \<lparr>m_loadEventDelayCount = 0, m_loadEventDelayCountJoin = new_MultiJoin,
       m_loadEventDelayTimer = 2, d_hasFrame = False\<rparr>, r_world = new_world (new_thread_page (\<lambda>n. 1000 + 1000 * int n)),
     r_loaded = (\<lambda>_. False), r_finish = (\<lambda>_. 0), r_url = (\<lambda>_. ''http://x/s.js''), r_pointer = (\<lambda>_. ''0x1''), r_queued = [], r_executed = []\<rparr>"

definition sample_script :: PendingScript where
  "sample_script = \<lparr>ps_element = 5, ps_cachedScript = 6\<rparr>"

definition sample_history :: "runner_event list" where
  "sample_history = [Run_hb HB_allocate, Run_hb HB_allocate, Run_hb (HB_enter 1 EA_UNKNOWN), Run_call (RC_queue 0 sample_script IN_ORDER_EXECUTION),
     Run_call (RC_loaded 6), Run_call (RC_finished 0 9 5 IN_ORDER_EXECUTION False), Run_hb (HB_exit True), Run_hb (HB_enter 2 EA_UNKNOWN), Run_inOrder 0]"

definition sample_history_run :: "runner_world result" where
  "sample_history_run = run_steps (runner_step (\<lambda>_. 0) (\<lambda>e r. [])) sample_history sample_runner"

lemma sample_history_facts:
  "case sample_history_run of Inl _ \<Rightarrow> False
   | Inr r \<Rightarrow> m_scriptsToExecuteInOrder (r_runner r) = [] \<and> r_queued r = [5] \<and> m_loadEventDelayCount (r_document r) = 0"
  by code_simp

lemma sample_history_ends: "run_steps (runner_step (\<lambda>_. 0) (\<lambda>e r. [])) sample_history sample_runner = Inr (projr sample_history_run)"
  using sample_history_facts unfolding sample_history_run_def [symmetric] by (simp_all add: sum.case_eq_if split: if_splits)

theorem deferred_scripts_in_order_witness:
  "r_queued (projr sample_history_run) = [5] \<and> map fst (r_executed (projr sample_history_run)) = [5]
     \<and> list_all (\<lambda>(e, loaded, now). after (w_hb (r_world (projr sample_history_run))) loaded now) (r_executed (projr sample_history_run))"
proof -
  have r: "m_scriptsToExecuteInOrder (r_runner (projr sample_history_run)) = []" "r_queued (projr sample_history_run) = [5]"
    using sample_history_facts by (simp_all add: sum.case_eq_if split: if_splits)
  note sample_history_ends
  moreover have "\<forall>e \<in> set sample_history. strict_event e" by (simp add: sample_history_def strict_event_def)
  moreover have "hb_strict_inv (w_hb (r_world sample_runner))" using hb_inv_new(2) by (simp add: sample_runner_def new_world_def)
  ultimately show ?thesis using deferred_scripts_in_order [of "\<lambda>_. 0" "\<lambda>e r. []" sample_history sample_runner _ 0 1] r
    by (auto simp: sample_runner_def list_all_iff)
qed

section \<open>The load event waits for the scripts\<close>

text \<open>Scripts that have not been executed: those that wait, and the asynchronous ones that have a timer but have not been released.\<close>

definition unreleased :: "DeferAsyncScriptExecution \<Rightarrow> bool" where
  "unreleased a = (da_script a \<noteq> None)"

definition pending_scripts :: "ScriptRunner \<Rightarrow> nat" where
  "pending_scripts R = length (m_scriptsToExecuteInOrder R) + length (m_pendingAsyncScripts R)
     + length (filter unreleased (m_pendingAsyncScriptsExecuted R))"

definition delay_slack :: "runner_world \<Rightarrow> int" where
  "delay_slack r = m_loadEventDelayCount (r_document r) - int (pending_scripts (r_runner r))"

definition slack_le :: "runner_world \<Rightarrow> runner_world \<Rightarrow> bool" where
  "slack_le r r' = (delay_slack r \<le> delay_slack r')"

lemma on_world_slack: "on_world f r = Inr r' \<Longrightarrow> delay_slack r' = delay_slack r"
  by (auto simp: on_world_def delay_slack_def)

lemma slack_fields [simp]:
  "delay_slack (r\<lparr>r_world := w\<rparr>) = delay_slack r" "delay_slack (r\<lparr>r_loaded := l\<rparr>) = delay_slack r" "delay_slack (r\<lparr>r_finish := g\<rparr>) = delay_slack r"
  "delay_slack (r\<lparr>r_executed := x\<rparr>) = delay_slack r" "delay_slack (r\<lparr>r_queued := q\<rparr>) = delay_slack r"
  by (simp_all add: delay_slack_def)

lemma on_runner_slack: "(\<And>R. pending_scripts (f R) = pending_scripts R) \<Longrightarrow> delay_slack (on_runner f r) = delay_slack r"
  by (simp add: delay_slack_def)

lemma report_access_slack: "report_access H c this script r = Inr r' \<Longrightarrow> delay_slack r' = delay_slack r"
  unfolding report_access_def by (rule on_world_slack)

lemma decrement_slack:
  assumes "decrementLoadEventDelayCount H r = Inr r'"
  shows "delay_slack r' = delay_slack r - 1"
proof -
  obtain J where "r_document r' = (r_document r)\<lparr>m_loadEventDelayCount := m_loadEventDelayCount (r_document r) - 1, m_loadEventDelayCountJoin := J\<rparr>"
    "r_runner r' = r_runner r"
  proof -
    define d where "d J = (r_document r)\<lparr>m_loadEventDelayCount := m_loadEventDelayCount (r_document r) - 1, m_loadEventDelayCountJoin := J\<rparr>" for J
    from assms obtain J where "(if d_hasFrame (d J) \<and> m_loadEventDelayCount (d J) = 0 \<and> \<not> timer_active (r_world r) (m_loadEventDelayTimer (d J))
        then on_world (startOneShot H (m_loadEventDelayTimer (d J))) (r\<lparr>r_document := d J\<rparr>) else Inr (r\<lparr>r_document := d J\<rparr>)) = Inr r'"
      unfolding decrementLoadEventDelayCount_def Let_def d_def
      by (cases "m_loadEventDelayCount (r_document r) = 0") (simp_all only: if_True if_False bindR_eq_Inr_iff sum.distinct simp_thms, blast)
    then show ?thesis using that [of J] by (auto simp: d_def [symmetric] dest: on_world_fields split: if_split_asm)
  qed
  then show ?thesis by (simp add: delay_slack_def)
qed

lemma updateInOrderTimer_slack: "updateInOrderTimer H r = Inr r' \<Longrightarrow> delay_slack r' = delay_slack r"
  by (auto simp: updateInOrderTimer_def Let_def split: list.splits if_splits dest!: on_world_slack)

lemma suspend_slack: "runner_suspend H r = Inr r' \<Longrightarrow> delay_slack r' = delay_slack r"
  by (auto simp: runner_suspend_def Let_def on_runner_slack pending_scripts_def split: if_splits dest!: on_world_slack)

lemma resume_slack: "runner_resume H r = Inr r' \<Longrightarrow> delay_slack r' = delay_slack r"
  by (auto simp: runner_resume_def Let_def on_runner_slack pending_scripts_def split: if_splits dest!: on_world_slack)

lemma store_length: "length (smap_store k v m) \<le> Suc (length m)"
  by (induction m) auto

lemma insert_new_length: "length (smap_insert_new k v m) \<le> Suc (length m)"
  using store_length [of k v m] by (simp add: smap_insert_new_def split: option.splits)

lemma queue_slack: "queueScriptForExecution H this script ty r = Inr r' \<Longrightarrow> slack_le r r'"
  using insert_new_length [of "ps_element script" "(m_pendingScriptsAdded (r_runner r), script)" "m_pendingAsyncScripts (r_runner r)"]
  by (cases ty) (auto simp: queueScriptForExecution_def Let_def slack_le_def delay_slack_def incrementLoadEventDelayCount_def pending_scripts_def
      report_access_def dest!: on_world_fields)

lemma new_DeferAsync_slack:
  "new_DeferAsyncScriptExecution H t script r = Inr (a, r') \<Longrightarrow> delay_slack r' = delay_slack r \<and> unreleased a"
  by (auto simp: unreleased_def new_DeferAsyncScriptExecution_def Let_def dest!: on_world_slack)

lemma erase_length: "smap_lookup m k = Some v \<Longrightarrow> length (smap_erase k m) < length m"
  by (induction m) (auto simp: smap_erase_def less_Suc_eq_le split: if_splits)

lemma notify_slack:
  assumes "notifyScriptReady H this t element ty r = Inr r'"
  shows "slack_le r r'"
proof (cases ty)
  case ASYNC_EXECUTION
  then obtain r1 n script a r2 where r1: "report_access H WRITE_MEMORY this element r = Inr r1"
    "smap_lookup (m_pendingAsyncScripts (r_runner r1)) element = Some (n, script)"
    and r2: "new_DeferAsyncScriptExecution H t script (on_runner (\<lambda>R. R\<lparr>m_pendingAsyncScripts := smap_erase element (m_pendingAsyncScripts R)\<rparr>) r1) = Inr (a, r2)"
      "r' = on_runner (\<lambda>R. R\<lparr>m_pendingAsyncScriptsExecuted := m_pendingAsyncScriptsExecuted R @ [a]\<rparr>) r2"
    using assms by (auto simp: notifyScriptReady_def split: option.splits)
  have "delay_slack r' = delay_slack r2 - 1"
    using new_DeferAsync_slack [OF r2(1)] by (simp add: r2(2) delay_slack_def pending_scripts_def)
  then show ?thesis
    using new_DeferAsync_slack [OF r2(1)] report_access_slack [OF r1(1)] erase_length [OF r1(2)]
    by (simp add: slack_le_def delay_slack_def pending_scripts_def)
qed (use assms in \<open>auto simp: notifyScriptReady_def slack_le_def split: if_splits dest!: report_access_slack updateInOrderTimer_slack\<close>)

lemma runner_do_slack: "runner_do H c r = Inr r' \<Longrightarrow> slack_le r r'"
  by (cases c) (auto simp: script_notifyFinished_def slack_le_def split: if_splits
      dest!: queue_slack suspend_slack resume_slack notify_slack)

interpretation rs: step_relation "runner_do H" slack_le for H :: string_hash
  by unfold_locales (auto simp: slack_le_def dest: runner_do_slack)

lemma inOrder_arcs_slack: "inOrder_arcs H element r = Inr r' \<Longrightarrow> delay_slack r' = delay_slack r"
  by (auto simp: inOrder_arcs_def Let_def on_runner_slack pending_scripts_def split: if_splits dest!: on_world_slack)

lemma inOrderTimerFired_slack: "inOrderTimerFired H scripts this r = Inr r' \<Longrightarrow> slack_le r r'"
proof (erule inOrderTimerFired_parts)
  fix s rest r0 r1 r2 r3 r4
  assume s: "m_scriptsToExecuteInOrder (r_runner r) = s # rest"
    "r0 = on_runner (\<lambda>R. R\<lparr>m_scriptsToExecuteInOrder := rest\<rparr>) (on_runner (\<lambda>R. R\<lparr>m_inOrderExecuted := m_inOrderExecuted R + 1\<rparr>) r)"
    and r1: "report_access H READ_MEMORY this (ps_element s) r0 = Inr r1"
    and r2: "run_steps (runner_do H) (scripts (ps_element s) r1) r1 = Inr r2" and r3: "decrementLoadEventDelayCount H r2 = Inr r3"
    and r4: "inOrder_arcs H (ps_element s) r3 = Inr r4" "updateInOrderTimer H r4 = Inr r'"
  have "delay_slack r0 = delay_slack r + 1" using s by (simp add: delay_slack_def pending_scripts_def)
  then show ?thesis using report_access_slack [OF r1] rs.run_respects [OF r2] decrement_slack [OF r3] inOrder_arcs_slack [OF r4(1)]
    updateInOrderTimer_slack [OF r4(2)] by (simp add: slack_le_def)
qed

lemma release_count:
  assumes "i < length xs" "unreleased (xs ! i)"
  shows "length (filter unreleased (xs[i := (xs ! i)\<lparr>da_script := None\<rparr>])) + 1 = length (filter unreleased xs)"
  using assms
proof (induction xs arbitrary: i)
  case (Cons x xs)
  then show ?case by (cases i) (simp_all add: unreleased_def)
qed simp

lemma same_script_count:
  "length (filter unreleased (xs[i := (xs ! i)\<lparr>da_resumeJoin := J\<rparr>])) = length (filter unreleased xs)"
proof (induction xs arbitrary: i)
  case (Cons x xs)
  then show ?case by (cases i) (simp_all add: unreleased_def)
qed simp

lemma async_timerFired_slack: "async_timerFired H scripts this i r = Inr r' \<Longrightarrow> i < length (m_pendingAsyncScriptsExecuted (r_runner r)) \<Longrightarrow> slack_le r r'"
proof (erule async_timerFired_parts)
  fix e r0 r1 r2 r3 J' J w
  assume i: "i < length (m_pendingAsyncScriptsExecuted (r_runner r))" and e: "da_script (m_pendingAsyncScriptsExecuted (r_runner r) ! i) = Some e"
    "r0 = on_runner (\<lambda>R. R\<lparr>m_pendingAsyncScriptsExecuted :=
      (m_pendingAsyncScriptsExecuted R)[i := (m_pendingAsyncScriptsExecuted R ! i)\<lparr>da_script := None\<rparr>]\<rparr>) r"
    and r1: "report_access H READ_MEMORY this (ps_element e) r0 = Inr r1"
    and r2: "run_steps (runner_do H) (scripts (ps_element e) r1) r1 = Inr r2" and r3: "decrementLoadEventDelayCount H r2 = Inr r3"
    and r': "r' = on_runner (\<lambda>R. R\<lparr>m_pendingAsyncScriptsExecuted := (m_pendingAsyncScriptsExecuted R)
       [i := (m_pendingAsyncScriptsExecuted (r_runner r3) ! i)\<lparr>da_resumeJoin := J\<rparr>]\<rparr>) (r3\<lparr>r_world := w\<rparr>)"
  have "delay_slack r0 = delay_slack r + 1"
    using release_count [OF i] e by (simp add: unreleased_def [of "_ ! i"] delay_slack_def pending_scripts_def)
  moreover have "delay_slack r' = delay_slack r3" by (simp add: r' delay_slack_def pending_scripts_def same_script_count)
  ultimately show ?thesis using report_access_slack [OF r1] rs.run_respects [OF r2] decrement_slack [OF r3] by (simp add: slack_le_def)
qed

lemma runner_step_slack: "runner_step H scripts e r = Inr r' \<Longrightarrow> slack_le r r'"
proof (cases e)
  case (Run_async this i)
  assume "runner_step H scripts e r = Inr r'"
  then show ?thesis using Run_async on_world_fields on_world_slack async_timerFired_slack
    by (fastforce simp: slack_le_def split: if_splits)
qed (auto simp: slack_le_def split: if_splits dest!: runner_do_slack on_world_slack inOrderTimerFired_slack)

interpretation rss: step_relation "runner_step H scripts" slack_le for H :: string_hash and scripts :: scripts
  by unfold_locales (auto simp: slack_le_def dest: runner_step_slack)

lemma no_pending:
  "pending_scripts R = 0 \<longleftrightarrow> \<not> hasPendingScripts R \<and> \<not> list_ex unreleased (m_pendingAsyncScriptsExecuted R)"
  by (auto simp: pending_scripts_def hasPendingScripts_def list_ex_iff filter_empty_conv)

text \<open>
  C12: The load event waits for every script of the runner: in every history, the count of the document that delays the load event
  is at least the number of scripts that have not been executed, asynchronous and deferred ones. So the timer of the load event, which
  is started when the count reaches zero, is never started while a script waits.
\<close>

theorem load_event_waits:
  assumes "run_steps (runner_step H scripts) es r0 = Inr r" "r_runner r0 = new_ScriptRunner i t" "0 \<le> m_loadEventDelayCount (r_document r0)"
  shows "int (pending_scripts (r_runner r)) \<le> m_loadEventDelayCount (r_document r)
     \<and> (m_loadEventDelayCount (r_document r) = 0 \<longrightarrow> \<not> hasPendingScripts (r_runner r) \<and> \<not> list_ex unreleased (m_pendingAsyncScriptsExecuted (r_runner r)))"
proof -
  have "0 \<le> delay_slack r0" using assms(2,3) by (simp add: delay_slack_def pending_scripts_def new_ScriptRunner_def)
  with rss.run_respects [OF assms(1)] have "int (pending_scripts (r_runner r)) \<le> m_loadEventDelayCount (r_document r)"
    by (simp add: slack_le_def delay_slack_def)
  then show ?thesis using no_pending [of "r_runner r"] by auto
qed

theorem load_event_waits_witness: "pending_scripts (r_runner (projr sample_history_run)) = 0"
proof -
  have "m_loadEventDelayCount (r_document (projr sample_history_run)) = 0" using sample_history_facts by (simp_all add: sum.case_eq_if split: if_splits)
  with load_event_waits [OF sample_history_ends, of 0 1] show ?thesis by (simp add: sample_runner_def)
qed

section \<open>Resuming a runner whose queue was drained\<close>

definition page_rel :: "runner_world \<Rightarrow> runner_world \<Rightarrow> bool" where
  "page_rel r r' = page_le (w_page (r_world r)) (w_page (r_world r'))"

lemma rel_page: "runner_rel r r' \<Longrightarrow> page_rel r r'"
  by (simp add: runner_rel_def page_rel_def)

lemma page_rel_trans: "page_rel r1 r2 \<Longrightarrow> page_rel r2 r3 \<Longrightarrow> page_rel r1 r3"
  by (auto simp: page_rel_def intro: page_le_trans)

lemma page_rel_refl [simp]: "page_rel r r"
  by (simp add: page_rel_def)

lemma arc_world_page: "on_world (arc_to_current H e) r = Inr r' \<Longrightarrow> w_page (r_world r') = w_page (r_world r)"
  by (auto simp: on_world_def dest: arc_to_current_page)

lemma inOrder_arcs_page: "inOrder_arcs H element r = Inr r' \<Longrightarrow> page_rel r r'"
  by (auto simp: inOrder_arcs_def Let_def page_rel_def split: if_splits dest!: arc_world_page join_and_clear_page)

lemma inOrderTimerFired_page: "inOrderTimerFired H scripts this r = Inr r' \<Longrightarrow> page_rel r r'"
  by (erule inOrderTimerFired_parts, drule rel_page [OF report_access_rel], drule rel_page [OF rr.run_respects], drule rel_page [OF decrement_rel],
      drule inOrder_arcs_page, drule rel_page [OF updateInOrderTimer_rel]) (auto simp: page_rel_def page_le_def)

lemma runner_step_page: "runner_step H scripts e r = Inr r' \<Longrightarrow> page_rel r r'"
proof (cases e)
  case (Run_hb c)
  assume "runner_step H scripts e r = Inr r'"
  then show ?thesis using Run_hb by (auto simp: on_world_def page_rel_def)
qed (auto split: if_splits dest!: world_rel(3) dest: runner_do_rel inOrderTimerFired_page async_timerFired_rel rel_page intro: page_rel_trans)

interpretation rp: step_relation "runner_step H scripts" page_rel for H :: string_hash and scripts :: scripts
  by unfold_locales (auto intro: page_rel_trans runner_step_page)

lemma inOrderTimerFired_empty: "m_scriptsToExecuteInOrder (r_runner r) = [] \<Longrightarrow> inOrderTimerFired H scripts this r = Inl ASSERT_FAILED"
  by (simp add: inOrderTimerFired_def)

text \<open>
  A runner that is resumed can run into an empty queue: \<open>suspend\<close> stops the timer and notes that it has to be started again, but a
  deferred script that becomes ready in the meantime starts it as well, and the queue can be executed to its end before \<open>resume\<close>. Then \<open>resume\<close>
  starts the timer although no script waits, and when it expires the runner reads the first element of the empty queue.
\<close>

theorem resume_after_drain:
  assumes "run_steps (runner_step H scripts) es r0 = Inr r" "w_page (r_world r0) = new_thread_page clock" "\<And>n. clock n \<noteq> 0"
    and "tp_changes (w_page (r_world r)) + 1 < 2 ^ 31 - 1"
    and "m_suspended (r_runner r)" "m_scriptsToExecuteInOrder (r_runner r) = []" "runner_resume H r = Inr r'"
  shows "timer_active (r_world r') (m_inOrderTimer (r_runner r')) \<and> isl (runner_step H scripts (Run_inOrder this) r')"
proof -
  have le: "page_le (new_thread_page clock) (w_page (r_world r))" using rp.run_respects [OF assms(1)] assms(2) by (simp add: page_rel_def)
  have "tp_clock (new_thread_page clock) = clock" using setSharedTimer_le [of _ True] by (simp add: new_thread_page_def page_le_def)
  with le have ok: "page_ok (w_page (r_world r))" "tp_clock (w_page (r_world r)) = clock"
    using new_page_ok [of clock] by (simp_all add: page_le_def)
  obtain J w w' J' where w: "join_and_clear (m_suspendJoin (r_runner r)) (r_world r) = Inr (J, w)"
    and w': "startOneShot H (m_inOrderTimer (r_runner r)) w = Inr w'"
    and r': "r_world r' = w'" "m_inOrderTimer (r_runner r') = m_inOrderTimer (r_runner r)" "m_scriptsToExecuteInOrder (r_runner r') = []"
    using assms(5-7) by (auto simp: runner_resume_def Let_def on_world_def)
  have "timer_active w' (m_inOrderTimer (r_runner r))"
    using startOneShot_active [OF w'] join_and_clear_page [OF w] ok assms(3,4) by simp
  moreover have "isl (bindR (on_world (timer_expires H t) r') (inOrderTimerFired H scripts this))" for t
    using r'(3) by (cases "on_world (timer_expires H t) r'") (auto simp: inOrderTimerFired_empty dest!: on_world_fields)
  ultimately show ?thesis using r' by simp
qed

text \<open>A suspended runner with one deferred script, which becomes ready before the runner is resumed.\<close>

definition suspended_runner :: runner_world where
  "suspended_runner = sample_runner\<lparr>r_runner := (new_ScriptRunner 0 1)\<lparr>m_scriptsToExecuteInOrder := [sample_script], m_suspended := True\<rparr>,
     r_document := \<lparr>m_loadEventDelayCount = 1, m_loadEventDelayCountJoin = new_MultiJoin, m_loadEventDelayTimer = 2, d_hasFrame = False\<rparr>\<rparr>"

definition drained_history :: "runner_event list" where
  "drained_history = [Run_hb HB_allocate, Run_hb (HB_enter 1 EA_UNKNOWN), Run_call (RC_loaded 6),
     Run_call (RC_finished 0 9 5 IN_ORDER_EXECUTION False), Run_inOrder 0]"

definition drained_run :: "runner_world result" where
  "drained_run = run_steps (runner_step (\<lambda>_. 0) (\<lambda>e r. [])) drained_history suspended_runner"

lemma drained_facts:
  "case drained_run of Inl _ \<Rightarrow> False | Inr r \<Rightarrow> tp_changes (w_page (r_world r)) = 2 \<and> m_suspended (r_runner r)
     \<and> m_scriptsToExecuteInOrder (r_runner r) = [] \<and> \<not> isl (runner_resume (\<lambda>_. 0) r)"
  by code_simp

theorem resume_after_drain_witness:
  "isl (runner_step (\<lambda>_. 0) (\<lambda>e r. []) (Run_inOrder 0) (projr (runner_resume (\<lambda>_. 0) (projr drained_run))))"
proof -
  have r: "\<not> isl drained_run" "tp_changes (w_page (r_world (projr drained_run))) = 2" "m_suspended (r_runner (projr drained_run))"
    "m_scriptsToExecuteInOrder (r_runner (projr drained_run)) = []" "\<not> isl (runner_resume (\<lambda>_. 0) (projr drained_run))"
    using drained_facts by (simp_all add: sum.case_eq_if split: if_splits)
  then have "run_steps (runner_step (\<lambda>_. 0) (\<lambda>e r. [])) drained_history suspended_runner = Inr (projr drained_run)"
    unfolding drained_run_def [symmetric] by simp
  from resume_after_drain [OF this, of "\<lambda>n. 1000 + 1000 * int n" "projr (runner_resume (\<lambda>_. 0) (projr drained_run))" 0] r
  show ?thesis by (simp add: suspended_runner_def sample_runner_def new_world_def del: runner_step.simps)
qed

end
