(* ===== verification/Form_Data.thy ===== *)
theory Form_Data
  imports Network_Snapshot
begin

text \<open>
  The body of an upload (\<open>FormDataIODevice\<close> of \<open>Source/WebCore/platform/network/qt/QNetworkReplyHandler\<close>): a device that is read
  piece by piece and puts together the elements of a form, bytes and files. The locale \<open>byte_source\<close> is the contract of such a device;
  the recorded bytes of a network reply satisfy it too.
\<close>

section \<open>Sources of bytes\<close>

text \<open>The chunks that a sequence of reads gives.\<close>

fun reads :: "(nat \<Rightarrow> 'd \<Rightarrow> (string \<times> 'd) result) \<Rightarrow> nat list \<Rightarrow> 'd \<Rightarrow> (string list \<times> 'd) result" where
  "reads f [] d = Inr ([], d)"
| "reads f (n # ns) d = bindR (f n d) (\<lambda>(bytes, d1). bindR (reads f ns d1) (\<lambda>(chunks, d2). Inr (bytes # chunks, d2)))"

locale byte_source =
  fixes read :: "nat \<Rightarrow> 'd \<Rightarrow> (string \<times> 'd) result" and rest :: "'d \<Rightarrow> string" and good :: "'d \<Rightarrow> bool"
  assumes read_take: "good d \<Longrightarrow> \<exists>d'. read n d = Inr (take n (rest d), d') \<and> good d' \<and> rest d' = drop n (rest d)"
begin

lemma reads_prefix:
  "good d \<Longrightarrow> \<exists>chunks d'. reads read ns d = Inr (chunks, d') \<and> concat chunks = take (sum_list ns) (rest d) \<and> good d'
     \<and> rest d' = drop (sum_list ns) (rest d)"
proof (induction ns arbitrary: d)
  case (Cons n ns)
  obtain d1 where d1: "read n d = Inr (take n (rest d), d1)" "good d1" "rest d1 = drop n (rest d)" using read_take [OF Cons.prems] by blast
  obtain chunks d2 where "reads read ns d1 = Inr (chunks, d2)" "concat chunks = take (sum_list ns) (drop n (rest d))" "good d2"
    "rest d2 = drop (sum_list ns) (drop n (rest d))" using Cons.IH [OF d1(2)] d1(3) by auto
  then show ?case using d1(1) by (simp add: take_add add.commute)
qed simp

end

section \<open>The device\<close>

text \<open>Elements are bytes or files; \<open>QFile\<close> is modelled as far as it is used. \<open>files\<close> tells the contents of files that can be opened.\<close>

datatype FormDataElement = FD_data string | FD_encodedFile string

type_synonym file_contents = "string \<Rightarrow> string option"

record QFile =
  qf_name :: string
  qf_isOpen :: bool
  qf_rest :: string

record FormDataIODevice =
  m_formElements :: "FormDataElement list"
  m_currentFile :: "QFile option"
  m_currentDelta :: nat
  m_fileSize :: nat
  m_dataSize :: nat

definition openFileForCurrentElement :: "file_contents \<Rightarrow> string \<Rightarrow> FormDataIODevice \<Rightarrow> FormDataIODevice" where
  "openFileForCurrentElement files name d =
     d\<lparr>m_currentFile := Some (case files name of None \<Rightarrow> \<lparr>qf_name = name, qf_isOpen = False, qf_rest = []\<rparr>
        | Some bytes \<Rightarrow> \<lparr>qf_name = name, qf_isOpen = True, qf_rest = bytes\<rparr>)\<rparr>"

fun computeSize :: "file_contents \<Rightarrow> FormDataElement list \<Rightarrow> nat \<times> nat \<Rightarrow> nat \<times> nat" where
  "computeSize files [] acc = acc"
| "computeSize files (FD_data bytes # es) (dataSize, fileSize) = computeSize files es (dataSize + length bytes, fileSize)"
| "computeSize files (FD_encodedFile name # es) (dataSize, fileSize) =
     computeSize files es (dataSize, fileSize + (case files name of None \<Rightarrow> 0 | Some bytes \<Rightarrow> length bytes))"

definition open_head :: "file_contents \<Rightarrow> FormDataIODevice \<Rightarrow> FormDataIODevice" where
  "open_head files d = (case m_formElements d of FD_encodedFile name # _ \<Rightarrow> openFileForCurrentElement files name d | _ \<Rightarrow> d)"

definition new_FormDataIODevice :: "file_contents \<Rightarrow> FormDataElement list \<Rightarrow> FormDataIODevice" where
  "new_FormDataIODevice files elements =
     (let d = open_head files \<lparr>m_formElements = elements, m_currentFile = None, m_currentDelta = 0, m_fileSize = 0, m_dataSize = 0\<rparr>;
          (dataSize, fileSize) = computeSize files elements (0, 0)
      in d\<lparr>m_dataSize := dataSize, m_fileSize := fileSize\<rparr>)"

definition getFormDataSize :: "FormDataIODevice \<Rightarrow> nat" where
  "getFormDataSize d = m_fileSize d + m_dataSize d"

definition moveToNextElement :: "file_contents \<Rightarrow> FormDataIODevice \<Rightarrow> FormDataIODevice" where
  "moveToNextElement files d =
     (let d1 = d\<lparr>m_currentFile := map_option (\<lambda>f. f\<lparr>qf_isOpen := False, qf_rest := []\<rparr>) (m_currentFile d), m_currentDelta := 0,
                 m_formElements := drop 1 (m_formElements d)\<rparr>
      in open_head files d1)"

text \<open>One round of the loop of \<open>readData\<close>; \<open>available\<close> is positive.\<close>

definition read_round :: "file_contents \<Rightarrow> nat \<Rightarrow> FormDataIODevice \<Rightarrow> (string \<times> FormDataIODevice) result" where
  "read_round files available d =
     (case m_formElements d of [] \<Rightarrow> Inl UNDEFINED
      | FD_data bytes # _ \<Rightarrow>
          (let toCopy = min available (length bytes - m_currentDelta d);
               d1 = d\<lparr>m_currentDelta := m_currentDelta d + toCopy\<rparr>
           in Inr (take toCopy (drop (m_currentDelta d) bytes), if m_currentDelta d1 = length bytes then moveToNextElement files d1 else d1))
      | FD_encodedFile name # _ \<Rightarrow>
          (case m_currentFile d of None \<Rightarrow> Inl UNDEFINED
           | Some f \<Rightarrow>
               (let d1 = d\<lparr>m_currentFile := Some (f\<lparr>qf_rest := drop available (qf_rest f)\<rparr>)\<rparr>
                in Inr (take available (qf_rest f),
                        if \<not> qf_isOpen f \<or> drop available (qf_rest f) = [] then moveToNextElement files d1 else d1))))"

fun read_loop :: "file_contents \<Rightarrow> nat \<Rightarrow> nat \<Rightarrow> string \<Rightarrow> FormDataIODevice \<Rightarrow> (string \<times> FormDataIODevice) result" where
  "read_loop files 0 sz copied d = Inl DIVERGES"
| "read_loop files (Suc n) sz copied d =
     (if length copied < sz \<and> m_formElements d \<noteq> []
      then bindR (read_round files (sz - length copied) d) (\<lambda>(bytes, d1). read_loop files n sz (copied @ bytes) d1)
      else Inr (copied, d))"

text \<open>The result \<open>None\<close> is the return value -1. A round copies a byte or finishes an element, which bounds their number.\<close>

definition readData :: "file_contents \<Rightarrow> nat \<Rightarrow> FormDataIODevice \<Rightarrow> (string option \<times> FormDataIODevice) result" where
  "readData files sz d =
     (if m_formElements d = [] then Inr (None, d)
      else bindR (read_loop files (sz + length (m_formElements d) + 1) sz [] d) (\<lambda>(copied, d1). Inr (Some copied, d1)))"

section \<open>What the device holds\<close>

fun element_bytes :: "file_contents \<Rightarrow> FormDataElement \<Rightarrow> string" where
  "element_bytes files (FD_data bytes) = bytes"
| "element_bytes files (FD_encodedFile name) = (case files name of None \<Rightarrow> [] | Some bytes \<Rightarrow> bytes)"

definition body :: "file_contents \<Rightarrow> FormDataElement list \<Rightarrow> string" where
  "body files es = concat (map (element_bytes files) es)"

definition device_rest :: "file_contents \<Rightarrow> FormDataIODevice \<Rightarrow> string" where
  "device_rest files d =
     (case m_formElements d of [] \<Rightarrow> []
      | FD_data bytes # es \<Rightarrow> drop (m_currentDelta d) bytes @ body files es
      | FD_encodedFile name # es \<Rightarrow> (case m_currentFile d of None \<Rightarrow> [] | Some f \<Rightarrow> qf_rest f) @ body files es)"

definition device_ok :: "FormDataIODevice \<Rightarrow> bool" where
  "device_ok d =
     (case m_formElements d of [] \<Rightarrow> True
      | FD_data bytes # _ \<Rightarrow> m_currentDelta d \<le> length bytes
      | FD_encodedFile _ # _ \<Rightarrow> (\<exists>f. m_currentFile d = Some f \<and> (\<not> qf_isOpen f \<longrightarrow> qf_rest f = [])))"

lemma open_head_ok:
  "m_currentDelta d = 0 \<Longrightarrow> device_ok (open_head files d) \<and> device_rest files (open_head files d) = body files (m_formElements d)
     \<and> m_formElements (open_head files d) = m_formElements d"
  by (auto simp: device_ok_def device_rest_def open_head_def openFileForCurrentElement_def body_def split: list.splits FormDataElement.splits option.splits)

lemma move_ok [simp]:
  "device_ok (moveToNextElement files d)" "device_rest files (moveToNextElement files d) = body files (drop 1 (m_formElements d))"
  "m_formElements (moveToNextElement files d) = drop 1 (m_formElements d)"
  using open_head_ok [of "d\<lparr>m_currentFile := map_option (\<lambda>f. f\<lparr>qf_isOpen := False, qf_rest := []\<rparr>) (m_currentFile d), m_currentDelta := 0,
     m_formElements := drop 1 (m_formElements d)\<rparr>" files]
  by (simp_all add: moveToNextElement_def)

lemma device_data:
  "m_formElements d = FD_data bytes # es \<Longrightarrow> device_ok d = (m_currentDelta d \<le> length bytes)"
  "m_formElements d = FD_data bytes # es \<Longrightarrow> device_rest files d = drop (m_currentDelta d) bytes @ body files es"
  by (simp_all add: device_ok_def device_rest_def)

lemma device_file:
  "m_formElements d = FD_encodedFile name # es \<Longrightarrow> device_ok d = (\<exists>f. m_currentFile d = Some f \<and> (\<not> qf_isOpen f \<longrightarrow> qf_rest f = []))"
  "m_formElements d = FD_encodedFile name # es \<Longrightarrow> m_currentFile d = Some f \<Longrightarrow> device_rest files d = qf_rest f @ body files es"
  by (simp_all add: device_ok_def device_rest_def)

lemma drop_split: "take n (drop i xs) @ drop (i + n) xs = drop i xs"
  by (metis add.commute append_take_drop_id drop_drop)

text \<open>A round takes the next bytes, and it makes progress.\<close>

lemma round_ok:
  assumes "device_ok d" "m_formElements d \<noteq> []" "0 < available"
  shows "\<exists>bytes d'. read_round files available d = Inr (bytes, d') \<and> device_ok d' \<and> device_rest files d = bytes @ device_rest files d'
     \<and> length bytes \<le> available \<and> (bytes \<noteq> [] \<and> length (m_formElements d') \<le> length (m_formElements d) \<or> length (m_formElements d') < length (m_formElements d))"
proof (cases "m_formElements d")
  case (Cons e es)
  show ?thesis
  proof (cases e)
    case (FD_data bytes)
    note e = Cons [unfolded FD_data]
    have "m_currentDelta d \<le> length bytes" using assms(1) e by (simp add: device_data)
    then show ?thesis using assms(3) e by (auto simp: read_round_def Let_def device_data min_def drop_split)
  next
    case (FD_encodedFile name)
    note e = Cons [unfolded FD_encodedFile]
    obtain f where "m_currentFile d = Some f" "\<not> qf_isOpen f \<longrightarrow> qf_rest f = []" using assms(1) e by (auto simp: device_file)
    then show ?thesis using assms(3) e by (auto simp: read_round_def Let_def device_file)
  qed
qed (use assms in simp)

lemma read_loop_ok:
  "device_ok d \<Longrightarrow> length copied \<le> sz \<Longrightarrow> (sz - length copied) + length (m_formElements d) < n \<Longrightarrow>
     \<exists>d'. read_loop files n sz copied d = Inr (copied @ take (sz - length copied) (device_rest files d), d') \<and> device_ok d'
       \<and> device_rest files d' = drop (sz - length copied) (device_rest files d)"
proof (induction n arbitrary: copied d)
  case (Suc n)
  show ?case
  proof (cases "length copied < sz \<and> m_formElements d \<noteq> []")
    case True
    then obtain bytes d1 where d1: "read_round files (sz - length copied) d = Inr (bytes, d1)" "device_ok d1"
      "device_rest files d = bytes @ device_rest files d1" "length bytes \<le> sz - length copied"
      "bytes \<noteq> [] \<and> length (m_formElements d1) \<le> length (m_formElements d) \<or> length (m_formElements d1) < length (m_formElements d)"
      using round_ok [OF Suc.prems(1), of "sz - length copied" files] by auto
    have "(sz - length (copied @ bytes)) + length (m_formElements d1) < n" using d1(4,5) Suc.prems True by (cases bytes) auto
    from Suc.IH [OF d1(2) _ this] d1(1,3,4) True show ?thesis by (auto simp: diff_diff_left)
  next
    case False
    then show ?thesis using Suc.prems by (auto simp: device_rest_def)
  qed
qed simp

definition device_read :: "file_contents \<Rightarrow> nat \<Rightarrow> FormDataIODevice \<Rightarrow> (string \<times> FormDataIODevice) result" where
  "device_read files n d = bindR (readData files n d) (\<lambda>(bytes, d1). Inr (case bytes of None \<Rightarrow> [] | Some b \<Rightarrow> b, d1))"

interpretation fd: byte_source "device_read files" "device_rest files" device_ok for files :: file_contents
proof
  fix d :: FormDataIODevice and n :: nat assume ok: "device_ok d"
  show "\<exists>d'. device_read files n d = Inr (take n (device_rest files d), d') \<and> device_ok d' \<and> device_rest files d' = drop n (device_rest files d)"
  proof (cases "m_formElements d = []")
    case True
    then show ?thesis using ok by (simp add: device_read_def readData_def device_rest_def)
  next
    case False
    then show ?thesis using read_loop_ok [OF ok, of "[]" n "n + length (m_formElements d) + 1" files]
      by (auto simp: device_read_def readData_def)
  qed
qed

text \<open>The recorded bytes of a network reply.\<close>

definition stream_rest :: "('u, 'v) QNetworkReplyInitialSnapshot \<Rightarrow> string" where
  "stream_rest S = drop (nat (m_streamPosition S)) (m_stream S)"

definition position_ok :: "('u, 'v) QNetworkReplyInitialSnapshot \<Rightarrow> bool" where
  "position_ok S = (0 \<le> m_streamPosition S \<and> m_streamPosition S \<le> int (length (m_stream S)))"

interpretation sn: byte_source "\<lambda>n S. Inr (base_read (int n) S)" stream_rest position_ok
proof
  fix S :: "('u, 'v) QNetworkReplyInitialSnapshot" and n :: nat assume "position_ok S"
  then show "\<exists>S'. Inr (base_read (int n) S) = (Inr (take n (stream_rest S), S') :: (string \<times> _) result) \<and> position_ok S'
     \<and> stream_rest S' = drop n (stream_rest S)"
    by (auto simp: base_read_def base_peek_def stream_rest_def position_ok_def Let_def min_def nat_add_distrib nat_diff_distrib add.commute)
qed

section \<open>Uploads\<close>

lemma device_sizes [simp]:
  "device_ok (d\<lparr>m_dataSize := a, m_fileSize := b\<rparr>) = device_ok d" "device_rest files (d\<lparr>m_dataSize := a, m_fileSize := b\<rparr>) = device_rest files d"
  by (simp_all add: device_ok_def device_rest_def split: list.split FormDataElement.split)

lemma computeSize_sum: "computeSize files es (a, b) = (a', b') \<Longrightarrow> a' + b' = a + b + length (body files es)"
  by (induction files es "(a, b)" arbitrary: a b rule: computeSize.induct) (auto simp: body_def split: option.splits)

text \<open>
  C6: An upload sends the body of the form: whatever sizes the network asks for, the device hands out the bytes of the elements in
  their order, those of files as well, without a gap, and the size that is announced in the header of the request is the length
  of the body. A file that cannot be opened counts as empty.
\<close>

theorem upload_sends_body:
  "\<exists>chunks d. reads (device_read files) ns (new_FormDataIODevice files elements) = Inr (chunks, d)
     \<and> concat chunks = take (sum_list ns) (body files elements)
     \<and> device_rest files d = drop (sum_list ns) (body files elements)
     \<and> getFormDataSize (new_FormDataIODevice files elements) = length (body files elements)"
proof -
  let ?empty = "\<lparr>m_formElements = elements, m_currentFile = None, m_currentDelta = 0, m_fileSize = 0, m_dataSize = 0\<rparr>"
  let ?d = "new_FormDataIODevice files elements"
  obtain a b where ab: "computeSize files elements (0, 0) = (a, b)" by (cases "computeSize files elements (0, 0)")
  have d: "?d = (open_head files ?empty)\<lparr>m_dataSize := a, m_fileSize := b\<rparr>" by (simp add: new_FormDataIODevice_def ab)
  have "device_ok ?d" "device_rest files ?d = body files elements"
    using open_head_ok [of ?empty files] by (simp_all add: d)
  moreover have "getFormDataSize ?d = length (body files elements)"
    using computeSize_sum [OF ab] by (simp add: getFormDataSize_def d add.commute)
  ultimately show ?thesis using fd.reads_prefix [of ?d files ns] by auto
qed

end
