(* ===== verification/Network_Handler.thy ===== *)
theory Network_Handler
  imports Network_Reply Form_Data Timer_Client
begin

text \<open>
  Loading a resource (\<open>QNetworkReplyHandler\<close>, its call queue and the wrapper of a reply:
  \<open>Source/WebCore/platform/network/qt/QNetworkReplyHandler\<close>, with \<open>QtMIMETypeSniffer\<close>). The handler sends a request, follows
  redirections, and tells its client the response, the data and the end. The signals of a reply, which R4 emits in event actions of their own,
  are turned into calls that wait in a queue while loading is deferred. The client, Qt's network access manager, URLs and MIME types are
  parameters, collected in the record \<open>net_env\<close>.
\<close>

section \<open>Cookies\<close>

text \<open>\<open>store\<close> is \<open>setCookiesFromUrl\<close> of Qt's cookie jar and \<open>expire\<close> sets the date of expiry that R4 gives to all cookies.\<close>

definition setCookiesFromUrlUnrestricted :: "('c list \<Rightarrow> 'u \<Rightarrow> 'j \<Rightarrow> bool \<times> 'j) \<Rightarrow> 'c list \<Rightarrow> 'u \<Rightarrow> 'j \<Rightarrow> bool \<times> 'j" where
  "setCookiesFromUrlUnrestricted store cookies url jar = store cookies url jar"

definition setCookiesFromUrl :: "('c list \<Rightarrow> 'u \<Rightarrow> 'j \<Rightarrow> bool \<times> 'j) \<Rightarrow> ('c \<Rightarrow> 'c) \<Rightarrow> hb_state \<Rightarrow> 'c list \<Rightarrow> 'u \<Rightarrow> 'j \<Rightarrow> bool \<times> 'j" where
  "setCookiesFromUrl store expire hb cookieList url jar =
     (if HBIsCurrentEventActionValid hb then store (map expire cookieList) url jar else (False, jar))"

text \<open>\<open>lookup\<close> is \<open>cookiesForUrl\<close> of Qt's cookie jar; reads of cookies are not reported.\<close>

definition cookiesForUrl :: "('u \<Rightarrow> 'j \<Rightarrow> 'c list) \<Rightarrow> 'u \<Rightarrow> 'j \<Rightarrow> 'c list" where
  "cookiesForUrl lookup url jar = lookup url jar"

section \<open>State\<close>

datatype Operation = GetOperation | HeadOperation | PostOperation | PutOperation | DeleteOperation | CustomOperation | UnknownOperation

datatype LoadType = AsynchronousLoad | SynchronousLoad

datatype EnqueuedCall = Q_start | Q_sendResponseIfNeeded | Q_forwardData | Q_finish

text \<open>
  A request, both as \<open>ResourceRequest\<close> and as \<open>QNetworkRequest\<close>, and a response, as far as they are used. The header fields of a response
  are listed in the order in which they are set.
\<close>

record 'u ResourceRequest =
  rq_httpMethod :: string
  rq_url :: 'u
  rq_httpReferrer :: string
  rq_httpBody :: "FormDataElement list"
  rq_contentType :: "string option"
  rq_contentLength :: "nat option"
  rq_synchronous :: bool
  rq_doNotBuffer :: bool

record 'u ResourceResponse =
  rs_url :: 'u
  rs_mimeType :: string
  rs_expectedContentLength :: int
  rs_textEncodingName :: string
  rs_suggestedFilename :: string
  rs_httpStatusCode :: int
  rs_httpStatusText :: string
  rs_httpHeaderFields :: "(string \<times> string) list"

record 'u ResourceError =
  re_domain :: string
  re_code :: int
  re_url :: 'u
  re_description :: string

text \<open>What the client of a resource handle is told.\<close>

datatype 'u client_event = willSendRequest "'u ResourceRequest" "'u ResourceResponse" | didReceiveResponse "'u ResourceResponse"
  | didReceiveData string | didFinishLoading | didFail "'u ResourceError"

text \<open>What it may do to the handler: cancel the load, defer or resume it, or leave.\<close>

datatype client_action = CA_abort | CA_defer bool | CA_clearClient

record QtMIMETypeSniffer =
  sn_mimeType :: string
  sn_advertised :: string
  sn_image :: bool

record ('u, 'v) QNetworkReplyWrapper =
  wr_reply :: "('u, 'v) QNetworkReplyControllable"
  wr_isFinished :: bool
  wr_metaData :: bool
  wr_forward :: bool
  m_redirectionTargetUrl :: "'u option"
  m_encoding :: string
  m_responseContainsData :: bool
  m_advertisedMIMEType :: string
  m_sniffedMIMEType :: string
  m_sniffer :: "QtMIMETypeSniffer option"
  m_sniffMIMETypes :: bool

text \<open>
  The handler with its queue. \<open>h_handle\<close> tells that \<open>m_resourceHandle\<close> is not null and \<open>h_client\<close> that the handle has a client. \<open>h_posted\<close>
  counts the calls of \<open>flush\<close> that Qt will make later, \<open>h_deleteLater\<close> that the handler will be deleted. \<open>h_events\<close> is what the client was
  told and \<open>h_last\<close> the wrapper that was deleted last; nothing reads them.
\<close>

record ('u, 'v) QNetworkReplyHandler =
  m_replyWrapper :: "('u, 'v) QNetworkReplyWrapper option"
  h_handle :: bool
  h_client :: bool
  h_context :: bool
  h_firstRequest :: "'u ResourceRequest"
  h_shouldSniff :: bool
  m_loadType :: LoadType
  m_method :: Operation
  m_request :: "'u ResourceRequest"
  m_redirectionTries :: int
  m_locks :: int
  m_deferSignals :: bool
  m_flushing :: bool
  m_enqueuedCalls :: "EnqueuedCall list"
  h_posted :: nat
  h_deleteLater :: bool
  h_sent :: nat
  h_events :: "'u client_event list"
  h_last :: "('u, 'v) QNetworkReplyWrapper option"

text \<open>
  Attributes are variants: \<open>ne_redirection\<close> is \<open>toUrl\<close> when it is valid, \<open>ne_status\<close> is \<open>toInt\<close>. \<open>ne_manager\<close> sends a request with a method, the
  verb of a custom method and a body, and gives the reply that the installed factory constructs for it; its last argument is the number of requests sent before. \<open>ne_sniffSize\<close> is the number of
  bytes the MIME sniffer wants, if it is valid.
\<close>

record ('u, 'v) net_env =
  ne_redirection :: "'v \<Rightarrow> 'u option"
  ne_status :: "'v \<Rightarrow> int"
  ne_isNull :: "'v \<Rightarrow> bool"
  ne_text :: "'v \<Rightarrow> string"
  ne_resolved :: "'u \<Rightarrow> 'u \<Rightarrow> 'u"
  ne_isLocalFile :: "'u \<Rightarrow> bool"
  ne_inHTTPFamily :: "'u \<Rightarrow> bool"
  ne_isHttps :: "'u \<Rightarrow> bool"
  ne_referrerHttps :: "string \<Rightarrow> bool"
  ne_fileOrData :: "'u \<Rightarrow> bool"
  ne_path :: "'u \<Rightarrow> string"
  ne_lastPathComponent :: "'u \<Rightarrow> string"
  ne_charset :: "string \<Rightarrow> string"
  ne_mime :: "string \<Rightarrow> string"
  ne_isImage :: "string \<Rightarrow> bool"
  ne_mimeForPath :: "string \<Rightarrow> string"
  ne_disposition :: "string \<Rightarrow> string"
  ne_lower :: "string \<Rightarrow> string"
  ne_toLongLong :: "string \<Rightarrow> int"
  ne_sniffSize :: "string \<Rightarrow> bool \<Rightarrow> int option"
  ne_sniff :: "string \<Rightarrow> bool \<Rightarrow> string \<Rightarrow> string option"
  ne_files :: file_contents
  ne_manager :: "(Operation \<Rightarrow> string \<Rightarrow> 'u ResourceRequest \<Rightarrow> FormDataIODevice option \<Rightarrow> nat \<Rightarrow> ('u, 'v) QNetworkReplyControllable option) option"
  ne_willSend :: "'u ResourceRequest \<Rightarrow> 'u ResourceRequest"
  ne_client :: "'u client_event \<Rightarrow> ('u, 'v) QNetworkReplyHandler \<Rightarrow> client_action list"

abbreviation reply_snapshot :: "('u, 'v) QNetworkReplyWrapper \<Rightarrow> 'v QNetworkReplySnapshot" where
  "reply_snapshot w \<equiv> c_currentSnapshot (wr_reply w)"

abbreviation reply_base :: "('u, 'v) QNetworkReplyWrapper \<Rightarrow> ('u, 'v) QNetworkReplyInitialSnapshot" where
  "reply_base w \<equiv> c_initialSnapshot (wr_reply w)"

section \<open>The wrapper\<close>

definition new_QNetworkReplyWrapper :: "('u, 'v) QNetworkReplyControllable \<Rightarrow> bool \<Rightarrow> ('u, 'v) QNetworkReplyWrapper" where
  "new_QNetworkReplyWrapper reply sniffMIMETypes =
     \<lparr>wr_reply = reply, wr_isFinished = False, wr_metaData = True, wr_forward = False, m_redirectionTargetUrl = None, m_encoding = [],
      m_responseContainsData = False, m_advertisedMIMEType = [], m_sniffedMIMEType = [], m_sniffer = None, m_sniffMIMETypes = sniffMIMETypes\<rparr>"

definition wasRedirected :: "('u, 'v) QNetworkReplyWrapper \<Rightarrow> bool" where
  "wasRedirected w = (m_redirectionTargetUrl w \<noteq> None)"

definition mimeType :: "('u, 'v) QNetworkReplyWrapper \<Rightarrow> string" where
  "mimeType w = (if m_sniffedMIMEType w = [] then m_advertisedMIMEType w else m_sniffedMIMEType w)"

definition resetConnections :: "('u, 'v) QNetworkReplyWrapper \<Rightarrow> ('u, 'v) QNetworkReplyWrapper" where
  "resetConnections w = w\<lparr>wr_metaData := False, wr_forward := False\<rparr>"

definition setFinished :: "('u, 'v) QNetworkReplyWrapper \<Rightarrow> ('u, 'v) QNetworkReplyWrapper result" where
  "setFinished w = (if wr_isFinished w then Inl ASSERT_FAILED else Inr (w\<lparr>wr_isFinished := True\<rparr>))"

text \<open>The slots below return the calls that they push. A \<open>QueueLocker\<close> keeps the queue from being flushed until the slot ends.\<close>

definition emitMetaDataChanged :: "('u, 'v) QNetworkReplyWrapper \<Rightarrow> ('u, 'v) QNetworkReplyWrapper \<times> EnqueuedCall list" where
  "emitMetaDataChanged w =
     (let available = bytesAvailable (reply_snapshot w) (reply_base w) \<noteq> 0;
          w1 = (if available then w\<lparr>m_responseContainsData := True\<rparr> else w);
          calls = [Q_sendResponseIfNeeded] @ (if available then [Q_forwardData] else [])
      in if wr_isFinished w1 then (w1, calls @ [Q_finish]) else (w1\<lparr>wr_forward := True\<rparr>, calls))"

text \<open>\<open>sniff\<close> of the MIME type sniffer; \<open>None\<close> tells that more data is needed.\<close>

definition sniff :: "('u, 'v) net_env \<Rightarrow> ('u, 'v) QNetworkReplyWrapper \<Rightarrow> QtMIMETypeSniffer \<Rightarrow> QtMIMETypeSniffer option" where
  "sniff E w s =
     (let dataSize = (case ne_sniffSize E (sn_advertised s) (sn_image s) of None \<Rightarrow> 0 | Some n \<Rightarrow> n) in
      if \<not> wr_isFinished w \<and> bytesAvailable (reply_snapshot w) (reply_base w) < dataSize then None
      else Some (case ne_sniff E (sn_advertised s) (sn_image s) (snapshot_peek dataSize (reply_snapshot w) (reply_base w)) of
                   None \<Rightarrow> s | Some m \<Rightarrow> s\<lparr>sn_mimeType := m\<rparr>))"

definition receiveSniffedMIMEType :: "QtMIMETypeSniffer \<Rightarrow> ('u, 'v) QNetworkReplyWrapper \<Rightarrow> ('u, 'v) QNetworkReplyWrapper \<times> EnqueuedCall list" where
  "receiveSniffedMIMEType s w = emitMetaDataChanged (w\<lparr>m_sniffedMIMEType := sn_mimeType s, m_sniffer := None\<rparr>)"

definition trySniffing :: "('u, 'v) net_env \<Rightarrow> QtMIMETypeSniffer \<Rightarrow> ('u, 'v) QNetworkReplyWrapper \<Rightarrow> ('u, 'v) QNetworkReplyWrapper \<times> EnqueuedCall list" where
  "trySniffing E s w = (case sniff E w s of None \<Rightarrow> (w, []) | Some s1 \<Rightarrow> receiveSniffedMIMEType s1 w)"

definition receiveMetaData :: "('u, 'v) net_env \<Rightarrow> ('u, 'v) QNetworkReplyWrapper \<Rightarrow> (('u, 'v) QNetworkReplyWrapper \<times> EnqueuedCall list) result" where
  "receiveMetaData E w =
     (let contentType = rawHeader ''ContentType'' (reply_base w) in
      bindR (snapshot_attribute 2 (reply_snapshot w)) (\<lambda>target.
        let w1 = (resetConnections w)\<lparr>m_encoding := ne_charset E contentType, m_advertisedMIMEType := ne_mime E contentType,
                    m_redirectionTargetUrl := ne_redirection E target\<rparr>
        in if wasRedirected w1 then Inr (w1, [Q_sendResponseIfNeeded, Q_finish])
           else if \<not> m_sniffMIMETypes w1 then Inr (emitMetaDataChanged w1)
           else if m_sniffer w1 \<noteq> None then Inl ASSERT_FAILED
           else (let m = m_advertisedMIMEType w1; s = \<lparr>sn_mimeType = m, sn_advertised = m, sn_image = ne_isImage E m\<rparr> in
             case (if ne_sniffSize E m (ne_isImage E m) = None then Some s else sniff E w1 s) of
               Some s1 \<Rightarrow> Inr (receiveSniffedMIMEType s1 w1)
             | None \<Rightarrow> Inr (w1\<lparr>m_sniffer := Some s\<rparr>, []))))"

definition didReceiveReadyRead :: "('u, 'v) QNetworkReplyWrapper \<Rightarrow> ('u, 'v) QNetworkReplyWrapper \<times> EnqueuedCall list" where
  "didReceiveReadyRead w =
     (if bytesAvailable (reply_snapshot w) (reply_base w) \<noteq> 0 then w\<lparr>m_responseContainsData := True\<rparr> else w, [Q_forwardData])"

definition didReceiveFinished :: "('u, 'v) QNetworkReplyWrapper \<Rightarrow> ('u, 'v) QNetworkReplyWrapper \<times> EnqueuedCall list" where
  "didReceiveFinished w = (resetConnections w, [Q_finish])"

definition synchronousLoad :: "('u, 'v) net_env \<Rightarrow> ('u, 'v) QNetworkReplyWrapper \<Rightarrow> (('u, 'v) QNetworkReplyWrapper \<times> EnqueuedCall list) result" where
  "synchronousLoad E w = bindR (setFinished w) (receiveMetaData E)"

text \<open>A signal of the reply calls the slots in the order in which they were connected.\<close>

definition emit_signal :: "('u, 'v) net_env \<Rightarrow> NetworkSignal \<Rightarrow> ('u, 'v) QNetworkReplyWrapper \<Rightarrow> (('u, 'v) QNetworkReplyWrapper \<times> EnqueuedCall list) result" where
  "emit_signal E signal w =
     bindR (if signal = NetworkSignal.FINISHED then setFinished w else Inr w) (\<lambda>w1.
       if wr_metaData w1 then receiveMetaData E w1
       else (case m_sniffer w1 of Some s \<Rightarrow> Inr (trySniffing E s w1)
         | None \<Rightarrow>
             if wr_forward w1 then Inr (if signal = NetworkSignal.FINISHED then didReceiveFinished w1 else didReceiveReadyRead w1)
             else Inr (w1, [])))"

section \<open>The call queue\<close>

text \<open>
  \<open>enqueue\<close> is \<open>push\<close> where \<open>flush\<close> returns at once: inside of the loop of \<open>flush\<close>, while \<open>m_flushing\<close> is set, and under a lock. The
  destructor of the wrapper clears the queue.
\<close>

definition enqueue :: "EnqueuedCall list \<Rightarrow> ('u, 'v) QNetworkReplyHandler \<Rightarrow> ('u, 'v) QNetworkReplyHandler" where
  "enqueue calls h = h\<lparr>m_enqueuedCalls := m_enqueuedCalls h @ calls\<rparr>"

definition lock :: "('u, 'v) QNetworkReplyHandler \<Rightarrow> ('u, 'v) QNetworkReplyHandler" where
  "lock h = h\<lparr>m_locks := m_locks h + 1\<rparr>"

definition delete_wrapper :: "('u, 'v) QNetworkReplyHandler \<Rightarrow> ('u, 'v) QNetworkReplyHandler" where
  "delete_wrapper h = (if m_replyWrapper h = None then h else h\<lparr>m_replyWrapper := None, m_enqueuedCalls := [], h_last := m_replyWrapper h\<rparr>)"

text \<open>\<open>release\<close> gives up the reply of the wrapper, which is deleted; \<open>abort\<close> also aborts Qt's reply, if there was one.\<close>

definition handler_release :: "('u, 'v) QNetworkReplyHandler \<Rightarrow> ('u, 'v) QNetworkReplyHandler" where
  "handler_release h = delete_wrapper h"

definition abort :: "('u, 'v) QNetworkReplyHandler \<Rightarrow> ('u, 'v) QNetworkReplyHandler" where
  "abort h = (handler_release (h\<lparr>h_handle := False\<rparr>))\<lparr>h_deleteLater := True\<rparr>"

text \<open>\<open>setDeferSignals\<close> without the call of \<open>flush\<close>, which is made at once by a synchronous load and later by an asynchronous one.\<close>

definition setDeferSignals :: "bool \<Rightarrow> ('u, 'v) QNetworkReplyHandler \<Rightarrow> ('u, 'v) QNetworkReplyHandler" where
  "setDeferSignals b h =
     (let h1 = h\<lparr>m_deferSignals := b\<rparr> in if m_loadType h = SynchronousLoad then h1 else h1\<lparr>h_posted := h_posted h1 + 1\<rparr>)"

section \<open>Calls of the client\<close>

fun client_do :: "client_action \<Rightarrow> ('u, 'v) QNetworkReplyHandler \<Rightarrow> ('u, 'v) QNetworkReplyHandler" where
  "client_do CA_abort h = (if h_handle h then abort h else h)"
| "client_do (CA_defer b) h = (if h_handle h then setDeferSignals b h else h)"
| "client_do CA_clearClient h = h\<lparr>h_client := False\<rparr>"

definition tell :: "('u, 'v) net_env \<Rightarrow> 'u client_event \<Rightarrow> ('u, 'v) QNetworkReplyHandler \<Rightarrow> ('u, 'v) QNetworkReplyHandler" where
  "tell E ev h = fold client_do (ne_client E ev h) (h\<lparr>h_events := h_events h @ [ev]\<rparr>)"

section \<open>The queued calls\<close>

definition status_code :: "('u, 'v) net_env \<Rightarrow> ('u, 'v) QNetworkReplyWrapper \<Rightarrow> int result" where
  "status_code E w = bindR (snapshot_attribute 0 (reply_snapshot w)) (\<lambda>v. Inr (ne_status E v))"

definition shouldIgnoreHttpError :: "('u, 'v) net_env \<Rightarrow> ('u, 'v) QNetworkReplyWrapper \<Rightarrow> bool \<Rightarrow> bool result" where
  "shouldIgnoreHttpError E w receivedData =
     bindR (status_code E w) (\<lambda>code.
       Inr (if code = 401 \<or> code = 407 then True else if receivedData \<and> code \<ge> 400 \<and> code < 600 then True else False))"

definition errorForReply :: "('u, 'v) net_env \<Rightarrow> ('u, 'v) QNetworkReplyWrapper \<Rightarrow> 'u ResourceError result" where
  "errorForReply E w =
     bindR (status_code E w) (\<lambda>code.
       if code \<noteq> 0
       then bindR (snapshot_attribute 1 (reply_snapshot w)) (\<lambda>phrase.
              Inr \<lparr>re_domain = ''HTTP'', re_code = code, re_url = m_url (reply_base w), re_description = ne_text E phrase\<rparr>)
       else Inr \<lparr>re_domain = ''QtNetwork'', re_code = m_error (reply_snapshot w), re_url = m_url (reply_base w),
                 re_description = m_errorString (reply_snapshot w)\<rparr>)"

definition finish :: "('u, 'v) net_env \<Rightarrow> ('u, 'v) QNetworkReplyHandler \<Rightarrow> ('u, 'v) QNetworkReplyHandler result" where
  "finish E h =
     (case m_replyWrapper h of None \<Rightarrow> Inl ASSERT_FAILED
      | Some w \<Rightarrow>
          if \<not> h_handle h then Inl ASSERT_FAILED
          else if \<not> h_client h then Inr (delete_wrapper h)
          else if wasRedirected w then Inr (enqueue [Q_start] (delete_wrapper h))
          else bindR (if m_error (reply_snapshot w) = 0 then Inr True else shouldIgnoreHttpError E w (m_responseContainsData w)) (\<lambda>good.
               if good then Inr (delete_wrapper (tell E didFinishLoading h))
               else bindR (errorForReply E w) (\<lambda>error. Inr (delete_wrapper (tell E (didFail error) h)))))"

definition httpMethod :: "('u, 'v) QNetworkReplyHandler \<Rightarrow> string result" where
  "httpMethod h =
     (case m_method h of GetOperation \<Rightarrow> Inr ''GET'' | HeadOperation \<Rightarrow> Inr ''HEAD'' | PostOperation \<Rightarrow> Inr ''POST'' | PutOperation \<Rightarrow> Inr ''PUT''
      | DeleteOperation \<Rightarrow> Inr ''DELETE'' | CustomOperation \<Rightarrow> Inr (rq_httpMethod (h_firstRequest h)) | UnknownOperation \<Rightarrow> Inl ASSERT_FAILED)"

text \<open>The limit of redirections is \<open>gMaxRedirections\<close>.\<close>

definition gMaxRedirections :: int where
  "gMaxRedirections = 10"

definition redirect :: "('u, 'v) net_env \<Rightarrow> 'u ResourceResponse \<Rightarrow> 'u \<Rightarrow> ('u, 'v) QNetworkReplyWrapper \<Rightarrow> ('u, 'v) QNetworkReplyHandler \<Rightarrow>
    ('u, 'v) QNetworkReplyHandler result" where
  "redirect E response redirection w h =
     (let newUrl = ne_resolved E (m_url (reply_base w)) redirection in
      if \<not> h_client h then Inl ASSERT_FAILED
      else bindR (status_code E w) (\<lambda>code.
        let h1 = h\<lparr>m_redirectionTries := m_redirectionTries h - 1\<rparr> in
        if m_redirectionTries h1 = 0
        then Inr (delete_wrapper (tell E (didFail \<lparr>re_domain = ''HTTP'', re_code = 400, re_url = newUrl, re_description = ''Redirection limit reached''\<rparr>) h1))
        else
          (let h2 = (if code \<ge> 301 \<and> code \<le> 303 \<and> rq_httpMethod (h_firstRequest h1) = ''POST'' then h1\<lparr>m_method := GetOperation\<rparr> else h1) in
           bindR (httpMethod h2) (\<lambda>method.
             let request = (h_firstRequest h2)\<lparr>rq_httpMethod := method, rq_url := newUrl\<rparr>;
                 request1 = (if \<not> ne_isHttps E (rq_url request) \<and> ne_referrerHttps E (rq_httpReferrer request) then request\<lparr>rq_httpReferrer := []\<rparr> else request);
                 h3 = tell E (willSendRequest request1 response) h2
             in if \<not> h_handle h3 then Inr h3 else Inr (h3\<lparr>m_request := ne_willSend E request1\<rparr>)))))"

definition response_of :: "('u, 'v) net_env \<Rightarrow> ('u, 'v) QNetworkReplyWrapper \<Rightarrow> 'u ResourceResponse" where
  "response_of E w =
     (let url = m_url (reply_base w); mime = (if mimeType w = [] then ne_mimeForPath E (ne_path E url) else mimeType w) in
      \<lparr>rs_url = url, rs_mimeType = ne_lower E mime, rs_expectedContentLength = ne_toLongLong E (rawHeader ''ContentLength'' (reply_base w)),
       rs_textEncodingName = m_encoding w, rs_suggestedFilename = [], rs_httpStatusCode = 0, rs_httpStatusText = [], rs_httpHeaderFields = []\<rparr>)"

definition http_response :: "('u, 'v) net_env \<Rightarrow> ('u, 'v) QNetworkReplyWrapper \<Rightarrow> 'u ResourceResponse \<Rightarrow> 'u ResourceResponse result" where
  "http_response E w response =
     bindR (status_code E w) (\<lambda>code.
       if \<not> ne_inHTTPFamily E (rs_url response) then Inr response
       else bindR (snapshot_attribute 1 (reply_snapshot w)) (\<lambda>phrase.
         let suggested = ne_disposition E (rawHeader ''Contentisposition'' (reply_base w)) in
         Inr (response\<lparr>rs_suggestedFilename := (if suggested \<noteq> [] then suggested else ne_lastPathComponent E (rs_url response)),
           rs_httpStatusCode := code, rs_httpStatusText := ne_text E phrase,
           rs_httpHeaderFields := rs_httpHeaderFields response @ m_headers (reply_base w)\<rparr>)))"

definition sendResponseIfNeeded :: "('u, 'v) net_env \<Rightarrow> ('u, 'v) QNetworkReplyHandler \<Rightarrow> ('u, 'v) QNetworkReplyHandler result" where
  "sendResponseIfNeeded E h =
     (case m_replyWrapper h of None \<Rightarrow> Inl ASSERT_FAILED
      | Some w \<Rightarrow>
          if \<not> h_handle h then Inl ASSERT_FAILED
          else bindR (if m_error (reply_snapshot w) \<noteq> 0 then bindR (snapshot_attribute 0 (reply_snapshot w)) (\<lambda>v. Inr (ne_isNull E v)) else Inr False) (\<lambda>skip.
            if skip \<or> \<not> h_client h then Inr h
            else if ne_isLocalFile E (m_url (reply_base w)) then Inr (tell E (didReceiveResponse (response_of E w)) h)
            else bindR (http_response E w (response_of E w)) (\<lambda>response.
              bindR (snapshot_attribute 2 (reply_snapshot w)) (\<lambda>target.
                case ne_redirection E target of
                  Some redirection \<Rightarrow> redirect E response redirection w h
                | None \<Rightarrow> Inr (tell E (didReceiveResponse response) h)))))"

definition set_base :: "('u, 'v) QNetworkReplyInitialSnapshot \<Rightarrow> ('u, 'v) QNetworkReplyWrapper \<Rightarrow> ('u, 'v) QNetworkReplyWrapper" where
  "set_base S w = w\<lparr>wr_reply := (wr_reply w)\<lparr>c_initialSnapshot := S\<rparr>\<rparr>"

definition forwardData :: "('u, 'v) net_env \<Rightarrow> ('u, 'v) QNetworkReplyHandler \<Rightarrow> ('u, 'v) QNetworkReplyHandler result" where
  "forwardData E h =
     (case m_replyWrapper h of None \<Rightarrow> Inl ASSERT_FAILED
      | Some w \<Rightarrow>
          if \<not> h_handle h \<or> wasRedirected w then Inl ASSERT_FAILED
          else (case snapshot_read (bytesAvailable (reply_snapshot w) (reply_base w)) (reply_snapshot w) (reply_base w) of (bytes, S) \<Rightarrow>
            let h1 = h\<lparr>m_replyWrapper := Some (set_base S w)\<rparr> in
            if \<not> h_client h1 then Inr h1
            else if bytes \<noteq> [] then Inr (tell E (didReceiveData bytes) h1) else Inr h1))"

section \<open>Sending requests\<close>

definition clearContentHeaders :: "('u, 'v) QNetworkReplyHandler \<Rightarrow> ('u, 'v) QNetworkReplyHandler" where
  "clearContentHeaders h = h\<lparr>m_request := (m_request h)\<lparr>rq_contentType := None, rq_contentLength := None\<rparr>\<rparr>"

definition getIODevice :: "('u, 'v) net_env \<Rightarrow> 'u ResourceRequest \<Rightarrow> ('u, 'v) QNetworkReplyHandler \<Rightarrow> FormDataIODevice \<times> ('u, 'v) QNetworkReplyHandler" where
  "getIODevice E request h =
     (let device = new_FormDataIODevice (ne_files E) (rq_httpBody request)
      in (device, h\<lparr>m_request := (m_request h)\<lparr>rq_contentLength := Some (getFormDataSize device), rq_doNotBuffer := True\<rparr>\<rparr>))"

definition sendNetworkRequest :: "('u, 'v) net_env \<Rightarrow> 'u ResourceRequest \<Rightarrow> ('u, 'v) QNetworkReplyHandler \<Rightarrow>
    (('u, 'v) QNetworkReplyControllable option \<times> ('u, 'v) QNetworkReplyHandler) result" where
  "sendNetworkRequest E request h =
     (let h1 = (if m_loadType h = SynchronousLoad then h\<lparr>m_request := (m_request h)\<lparr>rq_synchronous := True\<rparr>\<rparr> else h) in
      case ne_manager E of None \<Rightarrow> Inr (None, h1)
      | Some manager \<Rightarrow>
          (let h2 = (if m_method h1 = PostOperation \<and> ne_fileOrData E (rq_url (m_request h1)) then h1\<lparr>m_method := GetOperation\<rparr> else h1) in
           if m_method h2 = UnknownOperation then Inl ASSERT_FAILED
           else if m_method h2 \<in> {GetOperation, HeadOperation, DeleteOperation}
           then (let h3 = clearContentHeaders h2 in Inr (manager (m_method h3) [] (m_request h3) None (h_sent h3), h3\<lparr>h_sent := h_sent h3 + 1\<rparr>))
           else (case getIODevice E request h2 of (device, h3) \<Rightarrow>
                  Inr (manager (m_method h3) (if m_method h3 = CustomOperation then rq_httpMethod (h_firstRequest h3) else []) (m_request h3) (Some device)
                         (h_sent h3), h3\<lparr>h_sent := h_sent h3 + 1\<rparr>))))"

text \<open>
  \<open>start\<close>. Its last statement connects the signal \<open>uploadProgress\<close> of the reply, which the controllable reply does not have: the connection
  is refused and \<open>QNetworkReplyHandler::uploadProgress\<close> never runs.
\<close>

definition start :: "('u, 'v) net_env \<Rightarrow> ('u, 'v) QNetworkReplyHandler \<Rightarrow> ('u, 'v) QNetworkReplyHandler result" where
  "start E h =
     (if \<not> h_handle h then Inl UNDEFINED
      else if \<not> h_context h then Inr h
      else bindR (sendNetworkRequest E (h_firstRequest h) h) (\<lambda>(reply, h1).
        case reply of None \<Rightarrow> Inr h1
        | Some c \<Rightarrow>
            (let w = new_QNetworkReplyWrapper c (h_shouldSniff h1); h2 = delete_wrapper h1 in
             if m_loadType h2 = SynchronousLoad
             then bindR (synchronousLoad E w) (\<lambda>(w1, calls). Inr (enqueue calls (h2\<lparr>m_replyWrapper := Some w1\<rparr>)))
             else Inr (h2\<lparr>m_replyWrapper := Some w\<rparr>))))"

section \<open>Running the queue\<close>

fun run_call :: "('u, 'v) net_env \<Rightarrow> EnqueuedCall \<Rightarrow> ('u, 'v) QNetworkReplyHandler \<Rightarrow> ('u, 'v) QNetworkReplyHandler result" where
  "run_call E Q_start h = start E h"
| "run_call E Q_sendResponseIfNeeded h = sendResponseIfNeeded E h"
| "run_call E Q_forwardData h = forwardData E h"
| "run_call E Q_finish h = finish E h"

text \<open>
  The loop, with a bound on its rounds. An asynchronous load needs one round for every call that waits and one for a request that follows a redirection; \<open>n\<close>
  are further rounds for the redirections of a synchronous one, whose requests are answered at once.
\<close>

fun flush_loop :: "('u, 'v) net_env \<Rightarrow> nat \<Rightarrow> ('u, 'v) QNetworkReplyHandler \<Rightarrow> ('u, 'v) QNetworkReplyHandler result" where
  "flush_loop E 0 h = Inl DIVERGES"
| "flush_loop E (Suc n) h =
     (if \<not> m_deferSignals h \<and> m_locks h = 0
      then (case m_enqueuedCalls h of [] \<Rightarrow> Inr h
        | call # calls \<Rightarrow> bindR (run_call E call (h\<lparr>m_enqueuedCalls := calls\<rparr>)) (flush_loop E n))
      else Inr h)"

definition flush :: "('u, 'v) net_env \<Rightarrow> nat \<Rightarrow> ('u, 'v) QNetworkReplyHandler \<Rightarrow> ('u, 'v) QNetworkReplyHandler result" where
  "flush E n h =
     (if m_flushing h then Inr h
      else bindR (flush_loop E (length (m_enqueuedCalls h) + 2 + n) (h\<lparr>m_flushing := True\<rparr>)) (\<lambda>h1. Inr (h1\<lparr>m_flushing := False\<rparr>)))"

definition push :: "('u, 'v) net_env \<Rightarrow> nat \<Rightarrow> EnqueuedCall \<Rightarrow> ('u, 'v) QNetworkReplyHandler \<Rightarrow> ('u, 'v) QNetworkReplyHandler result" where
  "push E n call h = flush E n (enqueue [call] h)"

definition unlock :: "('u, 'v) net_env \<Rightarrow> nat \<Rightarrow> ('u, 'v) QNetworkReplyHandler \<Rightarrow> ('u, 'v) QNetworkReplyHandler result" where
  "unlock E n h = (if m_locks h = 0 then Inr h else flush E n (h\<lparr>m_locks := m_locks h - 1\<rparr>))"

definition operation_of :: "string \<Rightarrow> Operation" where
  "operation_of method =
     (if method = ''GET'' then GetOperation else if method = ''HEAD'' then HeadOperation else if method = ''POST'' then PostOperation
      else if method = ''PUT'' then PutOperation else if method = ''DELETE'' then DeleteOperation else CustomOperation)"

definition new_handler :: "'u ResourceRequest \<Rightarrow> bool \<Rightarrow> bool \<Rightarrow> bool \<Rightarrow> LoadType \<Rightarrow> bool \<Rightarrow> ('u, 'v) QNetworkReplyHandler" where
  "new_handler request client context sniffing loadType deferred =
     \<lparr>m_replyWrapper = None, h_handle = True, h_client = client, h_context = context, h_firstRequest = request, h_shouldSniff = sniffing,
      m_loadType = loadType, m_method = operation_of (rq_httpMethod request), m_request = request, m_redirectionTries = gMaxRedirections,
      m_locks = 0, m_deferSignals = deferred, m_flushing = False, m_enqueuedCalls = [], h_posted = 0, h_deleteLater = False, h_sent = 0,
      h_events = [], h_last = None\<rparr>"

definition new_QNetworkReplyHandler :: "('u, 'v) net_env \<Rightarrow> nat \<Rightarrow> 'u ResourceRequest \<Rightarrow> bool \<Rightarrow> bool \<Rightarrow> bool \<Rightarrow> LoadType \<Rightarrow> bool \<Rightarrow>
    ('u, 'v) QNetworkReplyHandler result" where
  "new_QNetworkReplyHandler E n request client context sniffing loadType deferred =
     push E n Q_start (new_handler request client context sniffing loadType deferred)"

definition setLoadingDeferred :: "('u, 'v) net_env \<Rightarrow> nat \<Rightarrow> bool \<Rightarrow> ('u, 'v) QNetworkReplyHandler \<Rightarrow> ('u, 'v) QNetworkReplyHandler result" where
  "setLoadingDeferred E n b h = (if m_loadType h = SynchronousLoad then flush E n (setDeferSignals b h) else Inr (setDeferSignals b h))"

section \<open>What happens to a handler\<close>

text \<open>A slot of the wrapper has run: its calls go to the queue, which is flushed when the slot ends.\<close>

definition deliver :: "('u, 'v) net_env \<Rightarrow> nat \<Rightarrow> ('u, 'v) QNetworkReplyWrapper \<times> EnqueuedCall list \<Rightarrow> ('u, 'v) QNetworkReplyHandler \<Rightarrow>
    ('u, 'v) QNetworkReplyHandler result" where
  "deliver E n wc h =
     (let h1 = h\<lparr>m_replyWrapper := Some (fst wc)\<rparr> in if snd wc = [] then Inr h1 else unlock E n (enqueue (snd wc) (lock h1)))"

text \<open>
  Qt's reply sends a signal, the timer of the reply fires, loading is deferred or resumed, a posted \<open>flush\<close> runs, the load is cancelled, and the
  handler is deleted. Qt's reply sends \<open>finished\<close> once, as its last signal. A handler that was aborted is not called any more by its handle.
\<close>

datatype ('u, 'v) handler_event =
  HE_signal NetworkSignal "('u, 'v) QNetworkReply" | HE_update hb_state | HE_defer bool | HE_flush | HE_abort | HE_deleted

definition reply_open :: "('u, 'v) QNetworkReplyWrapper \<Rightarrow> bool" where
  "reply_open w = (\<not> wr_isFinished w \<and> NetworkSignal.FINISHED \<notin> fst ` set (c_snapshotQueue (wr_reply w)))"

fun handler_step :: "('u, 'v) net_env \<Rightarrow> ('u \<Rightarrow> string) \<Rightarrow> nat \<Rightarrow> nat \<Rightarrow> ('u, 'v) handler_event \<Rightarrow> ('u, 'v) QNetworkReplyHandler \<Rightarrow>
    ('u, 'v) QNetworkReplyHandler result" where
  "handler_step E toText t n (HE_signal signal reply) h =
     (case m_replyWrapper h of None \<Rightarrow> Inr h
      | Some w \<Rightarrow> if \<not> reply_open w then Inr h
          else bindR (live_signal toText t signal reply (wr_reply w)) (\<lambda>(c, _). Inr (h\<lparr>m_replyWrapper := Some (w\<lparr>wr_reply := c\<rparr>)\<rparr>)))"
| "handler_step E toText t n (HE_update hb) h =
     (case m_replyWrapper h of None \<Rightarrow> Inr h
      | Some w \<Rightarrow>
          bindR (updateSnapshot toText t hb (wr_reply w)) (\<lambda>(c, _, _, _, signal).
          bindR (emit_signal E signal (w\<lparr>wr_reply := c\<rparr>)) (\<lambda>wc. deliver E n wc h)))"
| "handler_step E toText t n (HE_defer b) h = (if h_handle h then setLoadingDeferred E n b h else Inr h)"
| "handler_step E toText t n HE_flush h = (if h_posted h = 0 then Inr h else flush E n (h\<lparr>h_posted := h_posted h - 1\<rparr>))"
| "handler_step E toText t n HE_abort h = (if h_handle h then Inr (abort h) else Inr h)"
| "handler_step E toText t n HE_deleted h = (if h_deleteLater h then Inr (h\<lparr>h_posted := 0, m_enqueuedCalls := []\<rparr>) else Inr h)"

end
