(* ===== verification/Load_Protocol.thy ===== *)
theory Load_Protocol
  imports Network_Handler
begin

text \<open>
  What the client of an asynchronous load is told, whatever happens to its handler: an invariant of the handler, its replies and its queue that
  the slots of the wrapper, the queued calls and the events keep, and that no step fails an assertion or loops. The locale \<open>step_safe\<close> carries it
  to histories.
\<close>

section \<open>An invariant of asynchronous loads\<close>

text \<open>\<open>safe\<close> allows failures other than assertions and loops without end; \<open>read_part\<close> are the bytes of a reply that were read.\<close>

definition unsafe :: "failure \<Rightarrow> bool" where
  "unsafe e = (e = ASSERT_FAILED \<or> e = DIVERGES)"

definition safe :: "'a result \<Rightarrow> ('a \<Rightarrow> bool) \<Rightarrow> bool" where
  "safe m P = (case m of Inl e \<Rightarrow> \<not> unsafe e | Inr x \<Rightarrow> P x)"

lemma safe_simps [simp]: "safe (Inr x) P = P x" "safe (Inl e) P = (\<not> unsafe e)" "safe (bindR m f) P = safe m (\<lambda>x. safe (f x) P)"
  by (simp_all add: safe_def split: sum.split)

lemma safe_mono: "safe m P \<Longrightarrow> (\<And>x. m = Inr x \<Longrightarrow> P x \<Longrightarrow> Q x) \<Longrightarrow> safe m Q"
  by (auto simp: safe_def split: sum.splits)

lemma unsafe_simps [simp]: "unsafe ASSERT_FAILED" "unsafe DIVERGES" "\<not> unsafe UNDEFINED" "\<not> unsafe CRASH" "\<not> unsafe (EXIT n)"
  by (simp_all add: unsafe_def)

definition read_part :: "('u, 'v) QNetworkReplyWrapper \<Rightarrow> string" where
  "read_part w = take (nat (m_streamPosition (reply_base w))) (m_stream (reply_base w))"

text \<open>A reply whose data is not forwarded, or not yet.\<close>

definition fresh :: "('u, 'v) QNetworkReplyWrapper \<Rightarrow> bool" where
  "fresh w = (wr_metaData w \<or> m_sniffer w \<noteq> None \<or> wasRedirected w)"

definition reply_ok :: "('u, 'v) QNetworkReplyControllable \<Rightarrow> bool" where
  "reply_ok c = (3 \<le> length (m_attributes (c_currentSnapshot c)) \<and> list_all (\<lambda>x. 3 \<le> length (m_attributes (snd x))) (c_snapshotQueue c)
     \<and> NetworkSignal.FINISHED \<notin> fst ` set (butlast (c_snapshotQueue c)) \<and> stream_ok (c_initialSnapshot c))"

definition wrapper_ok :: "('u, 'v) QNetworkReplyWrapper \<Rightarrow> bool" where
  "wrapper_ok w = (reply_ok (wr_reply w) \<and> (wr_isFinished w \<longrightarrow> c_snapshotQueue (wr_reply w) = [])
     \<and> (wr_metaData w \<longrightarrow> m_sniffer w = None \<and> \<not> wr_forward w \<and> \<not> wasRedirected w) \<and> (m_sniffer w \<noteq> None \<longrightarrow> \<not> wasRedirected w)
     \<and> (wr_forward w \<longrightarrow> \<not> fresh w) \<and> (fresh w \<longrightarrow> m_streamPosition (reply_base w) = 0))"

fun terminal :: "'u client_event \<Rightarrow> bool" where
  "terminal didFinishLoading = True" | "terminal (didFail e) = True" | "terminal _ = False"

fun event_data :: "'u client_event \<Rightarrow> string" where
  "event_data (didReceiveData bytes) = bytes" | "event_data _ = []"

fun is_willSend :: "'u client_event \<Rightarrow> bool" where
  "is_willSend (willSendRequest q r) = True" | "is_willSend _ = False"

definition told_data :: "'u client_event list \<Rightarrow> string" where
  "told_data es = concat (map event_data es)"

definition redirections :: "'u client_event list \<Rightarrow> nat" where
  "redirections es = length (filter is_willSend es)"

definition ended :: "'u client_event list \<Rightarrow> bool" where
  "ended es = list_ex terminal es"

lemma trace_snoc [simp]:
  "told_data (es @ [ev]) = told_data es @ event_data ev" "ended (es @ [ev]) \<longleftrightarrow> ended es \<or> terminal ev"
  "redirections (es @ [ev]) = redirections es + (if is_willSend ev then 1 else 0)"
  by (auto simp: told_data_def ended_def redirections_def)

lemma ended_all: "\<not> ended es \<Longrightarrow> list_all (Not \<circ> terminal) es"
  by (simp add: ended_def list_ex_iff list_all_iff)

definition last_reply :: "('u, 'v) QNetworkReplyHandler \<Rightarrow> string" where
  "last_reply h = (case m_replyWrapper h of Some w \<Rightarrow> read_part w | None \<Rightarrow> (case h_last h of None \<Rightarrow> [] | Some w \<Rightarrow> read_part w))"

definition queue_ok :: "('u, 'v) QNetworkReplyHandler \<Rightarrow> bool" where
  "queue_ok h = (case m_replyWrapper h of
       None \<Rightarrow> m_enqueuedCalls h = [] \<or> m_enqueuedCalls h = [Q_start]
     | Some w \<Rightarrow> h_handle h \<and> wrapper_ok w \<and> Q_start \<notin> set (m_enqueuedCalls h) \<and> (Q_forwardData \<in> set (m_enqueuedCalls h) \<longrightarrow> \<not> fresh w))"

definition trace_ok :: "('u, 'v) QNetworkReplyHandler \<Rightarrow> bool" where
  "trace_ok h = (let es = h_events h in
     (ended es \<longrightarrow> m_replyWrapper h = None \<and> m_enqueuedCalls h = []) \<and> list_all (Not \<circ> terminal) (butlast es)
     \<and> (h_client h \<longrightarrow> told_data es = last_reply h \<and> (Q_start \<in> set (m_enqueuedCalls h) \<longrightarrow> told_data es = []))
     \<and> redirections es \<le> 9 \<and> (\<not> ended es \<longrightarrow> m_redirectionTries h = 10 - int (redirections es)))"

definition handler_inv :: "('u, 'v) QNetworkReplyHandler \<Rightarrow> bool" where
  "handler_inv h = (m_loadType h = AsynchronousLoad \<and> m_method h \<noteq> UnknownOperation \<and> queue_ok h \<and> trace_ok h)"

text \<open>The replies that the network access manager and the factory give: snapshots are complete, nothing was read and nothing follows the end.\<close>

definition manager_ok :: "('u, 'v) net_env \<Rightarrow> bool" where
  "manager_ok E = (\<forall>manager method verb request body k c. ne_manager E = Some manager \<longrightarrow> manager method verb request body k = Some c \<longrightarrow>
     reply_ok c \<and> m_streamPosition (c_initialSnapshot c) = 0)"

section \<open>Slots keep the invariant\<close>

lemma attribute_safe: "3 \<le> length (m_attributes s) \<Longrightarrow> k \<le> 2 \<Longrightarrow> safe (snapshot_attribute k s) P = P (m_attributes s ! k)"
  by (simp add: snapshot_attribute_def)

lemma wrapper_attributes: "wrapper_ok w \<Longrightarrow> 3 \<le> length (m_attributes (reply_snapshot w))"
  by (simp add: wrapper_ok_def reply_ok_def)

text \<open>What a slot guarantees.\<close>

definition slot_ok :: "('u, 'v) QNetworkReplyWrapper \<Rightarrow> ('u, 'v) QNetworkReplyWrapper \<times> EnqueuedCall list \<Rightarrow> bool" where
  "slot_ok w wc = (wrapper_ok (fst wc) \<and> read_part (fst wc) = read_part w \<and> Q_start \<notin> set (snd wc)
     \<and> (Q_forwardData \<in> set (snd wc) \<longrightarrow> \<not> fresh (fst wc)) \<and> (\<not> fresh w \<longrightarrow> \<not> fresh (fst wc)))"

lemmas slot_defs = slot_ok_def wrapper_ok_def fresh_def read_part_def wasRedirected_def resetConnections_def

lemma emitMetaDataChanged_ok: "wrapper_ok w \<Longrightarrow> \<not> wr_forward w \<Longrightarrow> \<not> fresh w \<Longrightarrow> slot_ok w (emitMetaDataChanged w)"
  by (auto simp: emitMetaDataChanged_def Let_def slot_defs)

lemma receiveSniffed_ok:
  assumes "wrapper_ok w" "\<not> wr_metaData w" "\<not> wr_forward w" "\<not> wasRedirected w"
  shows "slot_ok w (receiveSniffedMIMEType s w)"
proof -
  let ?w = "w\<lparr>m_sniffedMIMEType := sn_mimeType s, m_sniffer := None\<rparr>"
  have w: "wrapper_ok ?w" "\<not> wr_forward ?w" "\<not> fresh ?w" "read_part ?w = read_part w" using assms by (auto simp: slot_defs)
  from emitMetaDataChanged_ok [OF w(1-3)] show ?thesis using w(3,4) by (simp add: receiveSniffedMIMEType_def slot_ok_def)
qed

lemma trySniffing_ok: "wrapper_ok w \<Longrightarrow> m_sniffer w = Some s \<Longrightarrow> slot_ok w (trySniffing E s w)"
  using receiveSniffed_ok [of w] by (auto simp: trySniffing_def slot_defs split: option.splits)

lemma receiveMetaData_ok:
  assumes "wrapper_ok w" "wr_metaData w"
  shows "safe (receiveMetaData E w) (slot_ok w)"
proof -
  let ?target = "ne_redirection E (m_attributes (reply_snapshot w) ! 2)" and ?contentType = "rawHeader ''ContentType'' (reply_base w)"
  let ?w = "(resetConnections w)\<lparr>m_encoding := ne_charset E ?contentType, m_advertisedMIMEType := ne_mime E ?contentType, m_redirectionTargetUrl := ?target\<rparr>"
  have w: "wrapper_ok ?w" "\<not> wr_metaData ?w" "\<not> wr_forward ?w" "m_sniffer ?w = None" "read_part ?w = read_part w"
    and pos: "m_streamPosition (reply_base w) = 0"
    using assms by (auto simp: slot_defs)
  have meta: "slot_ok w (emitMetaDataChanged ?w)" if "?target = None"
    using emitMetaDataChanged_ok [OF w(1,3)] that assms w(5) by (simp add: slot_defs)
  have sniffed: "slot_ok w (receiveSniffedMIMEType s ?w)" if "?target = None" for s
    using receiveSniffed_ok [OF w(1-3), of s] that assms w(5) by (simp add: slot_ok_def wasRedirected_def fresh_def)
  have wait: "slot_ok w (?w\<lparr>m_sniffer := Some s\<rparr>, [])" if "?target = None" for s
    using w that pos assms by (auto simp: slot_defs)
  have redirected: "slot_ok w (?w, [Q_sendResponseIfNeeded, Q_finish])"
    using w pos assms by (auto simp: slot_defs)
  show ?thesis using meta sniffed wait redirected w(4)
    by (auto simp: receiveMetaData_def Let_def attribute_safe wrapper_attributes [OF assms(1)] wasRedirected_def resetConnections_def
        split: option.splits)
qed

lemma emit_signal_ok:
  assumes "wrapper_ok w" "signal = NetworkSignal.FINISHED \<longrightarrow> \<not> wr_isFinished w \<and> c_snapshotQueue (wr_reply w) = []"
  shows "safe (emit_signal E signal w) (slot_ok w)"
proof -
  define w1 where "w1 = (if signal = NetworkSignal.FINISHED then w\<lparr>wr_isFinished := True\<rparr> else w)"
  have w1: "wrapper_ok w1" "(if signal = NetworkSignal.FINISHED then setFinished w else Inr w) = Inr w1"
    using assms by (auto simp: w1_def setFinished_def slot_defs)
  have slot: "slot_ok w = slot_ok w1" by (rule ext) (simp add: w1_def slot_defs)
  have "safe (if wr_metaData w1 then receiveMetaData E w1
       else (case m_sniffer w1 of Some s \<Rightarrow> Inr (trySniffing E s w1)
         | None \<Rightarrow>
             if wr_forward w1 then Inr (if signal = NetworkSignal.FINISHED then didReceiveFinished w1 else didReceiveReadyRead w1)
             else Inr (w1, []))) (slot_ok w1)"
    using w1(1) receiveMetaData_ok [OF w1(1)] trySniffing_ok [OF w1(1)]
    by (auto simp: didReceiveFinished_def didReceiveReadyRead_def split: option.splits) (auto simp: slot_defs)
  then show ?thesis by (simp add: emit_signal_def w1(2) slot)
qed

section \<open>Calls keep the invariant\<close>

text \<open>What a client can change: it can cancel the load, and leave.\<close>

definition client_rel :: "('u, 'v) QNetworkReplyHandler \<Rightarrow> ('u, 'v) QNetworkReplyHandler \<Rightarrow> bool" where
  "client_rel h h' =
     (h_events h' = h_events h \<and> m_loadType h' = m_loadType h \<and> m_method h' = m_method h \<and> m_redirectionTries h' = m_redirectionTries h
      \<and> (h_client h' \<longrightarrow> h_client h) \<and> m_locks h' = m_locks h \<and> m_flushing h' = m_flushing h \<and> h_context h' = h_context h
      \<and> (h_deleteLater h' \<longrightarrow> h_deleteLater h \<or> \<not> h_handle h')
      \<and> (if h_handle h' then h_handle h \<and> m_replyWrapper h' = m_replyWrapper h \<and> m_enqueuedCalls h' = m_enqueuedCalls h \<and> h_last h' = h_last h
         else m_replyWrapper h' = None \<and> (if m_replyWrapper h = None then m_enqueuedCalls h' = m_enqueuedCalls h \<and> h_last h' = h_last h
              else m_enqueuedCalls h' = [] \<and> h_last h' = m_replyWrapper h)))"

lemma client_rel_refl: "h_handle h \<or> m_replyWrapper h = None \<Longrightarrow> client_rel h h"
  by (auto simp: client_rel_def)

lemma client_rel_trans: "client_rel h1 h2 \<Longrightarrow> client_rel h2 h3 \<Longrightarrow> client_rel h1 h3"
  by (auto simp: client_rel_def split: if_splits)

lemma client_do_rel: "h_handle h \<or> m_replyWrapper h = None \<Longrightarrow> client_rel h (client_do a h)"
  by (cases a) (auto simp: client_rel_def abort_def handler_release_def delete_wrapper_def setDeferSignals_def Let_def)

lemma client_rel_handle: "client_rel h h' \<Longrightarrow> h_handle h' \<or> m_replyWrapper h' = None"
  by (auto simp: client_rel_def split: if_splits)

lemma client_fold_rel: "h_handle h \<or> m_replyWrapper h = None \<Longrightarrow> client_rel h (fold client_do as h)"
proof (induction as arbitrary: h)
  case (Cons a as)
  note r = client_do_rel [OF Cons.prems, of a]
  show ?case using client_rel_trans [OF r Cons.IH [OF client_rel_handle [OF r]]] by simp
qed (auto intro: client_rel_refl)

lemma tell_rel: "h_handle h \<Longrightarrow> client_rel (h\<lparr>h_events := h_events h @ [ev]\<rparr>) (tell E ev h)"
  unfolding tell_def by (rule client_fold_rel) simp

text \<open>The invariant before a call is taken from the queue, and the rounds that the loop still needs.\<close>

definition call_ok :: "EnqueuedCall \<Rightarrow> ('u, 'v) QNetworkReplyHandler \<Rightarrow> bool" where
  "call_ok call h = (\<not> ended (h_events h) \<and> (case m_replyWrapper h of
       None \<Rightarrow> call = Q_start \<and> m_enqueuedCalls h = [] \<and> (h_client h \<longrightarrow> told_data (h_events h) = [])
     | Some w \<Rightarrow> call \<noteq> Q_start \<and> (call = Q_forwardData \<longrightarrow> \<not> fresh w)))"

definition rounds :: "('u, 'v) QNetworkReplyHandler \<Rightarrow> nat" where
  "rounds h = (if m_enqueuedCalls h = [] then 0 else case m_replyWrapper h of None \<Rightarrow> 1 | Some _ \<Rightarrow> length (m_enqueuedCalls h) + 1)"

lemma take_call:
  assumes "handler_inv h" "m_enqueuedCalls h = call # calls"
  shows "handler_inv (h\<lparr>m_enqueuedCalls := calls\<rparr>)" "call_ok call (h\<lparr>m_enqueuedCalls := calls\<rparr>)"
  using assms by (auto simp: handler_inv_def queue_ok_def trace_ok_def call_ok_def last_reply_def Let_def split: option.splits)

text \<open>The state after a call: the invariant, and fewer rounds to go than with one more call in front.\<close>

definition after_call :: "nat \<Rightarrow> ('u, 'v) QNetworkReplyHandler \<Rightarrow> bool" where
  "after_call n h = (handler_inv h \<and> rounds h \<le> n + 1)"

lemma client_rel_inv:
  assumes "client_rel h h'" "handler_inv h" "\<not> ended (h_events h)" "m_replyWrapper h = Some w"
  shows "after_call (length (m_enqueuedCalls h)) h'"
  using assms by (auto simp: after_call_def handler_inv_def client_rel_def queue_ok_def trace_ok_def last_reply_def rounds_def Let_def split: if_splits)

lemma same_wrapper_rounds: "handler_inv h \<Longrightarrow> m_replyWrapper h = Some w \<Longrightarrow> after_call (length (m_enqueuedCalls h)) h"
  by (simp add: after_call_def rounds_def)

text \<open>The client is told the end, and the wrapper is deleted.\<close>

lemma tell_end_inv:
  assumes "handler_inv h" "m_replyWrapper h = Some w" "\<not> ended (h_events h)" "terminal ev" "event_data ev = []" "\<not> is_willSend ev"
    and "h_handle h'" "m_replyWrapper h' = Some w" "h_events h' = h_events h" "m_loadType h' = m_loadType h" "m_method h' = m_method h" "h_client h' = h_client h"
  shows "after_call n (delete_wrapper (tell E ev h'))"
proof -
  have "client_rel (h'\<lparr>h_events := h_events h @ [ev]\<rparr>) (tell E ev h')" using tell_rel [OF assms(7)] assms(9) by simp
  with assms ended_all [OF assms(3)] show ?thesis
    by (auto simp: after_call_def handler_inv_def client_rel_def queue_ok_def trace_ok_def last_reply_def rounds_def delete_wrapper_def Let_def split: if_splits)
qed

lemma tell_goes_on:
  assumes "handler_inv (h\<lparr>h_events := h_events h @ [ev]\<rparr>)" "m_replyWrapper h = Some w" "\<not> ended (h_events h)" "\<not> terminal ev"
  shows "after_call (length (m_enqueuedCalls h)) (tell E ev h)"
proof -
  have "h_handle h" using assms(1,2) by (simp add: handler_inv_def queue_ok_def)
  from client_rel_inv [OF tell_rel [OF this] assms(1)] assms(2-4) show ?thesis by simp
qed

lemma status_safe: "3 \<le> length (m_attributes (reply_snapshot w)) \<Longrightarrow> safe (status_code E w) P = P (ne_status E (m_attributes (reply_snapshot w) ! 0))"
  by (simp add: status_code_def attribute_safe)

text \<open>A call that runs while there is a wrapper.\<close>

lemma call_wrapper:
  assumes "handler_inv h" "call_ok call h" "call \<noteq> Q_start"
  obtains w where "m_replyWrapper h = Some w" "h_handle h" "wrapper_ok w" "\<not> ended (h_events h)" "3 \<le> length (m_attributes (reply_snapshot w))"
  using assms wrapper_attributes by (auto simp: handler_inv_def queue_ok_def call_ok_def split: option.splits)

lemma deleted_inv:
  assumes "handler_inv h" "m_replyWrapper h = Some w" "\<not> ended (h_events h)"
  shows "after_call n (delete_wrapper h)" "h_client h \<Longrightarrow> wasRedirected w \<Longrightarrow> after_call n (enqueue [Q_start] (delete_wrapper h))"
  using assms by (auto simp: after_call_def handler_inv_def queue_ok_def trace_ok_def last_reply_def rounds_def delete_wrapper_def enqueue_def Let_def
      wrapper_ok_def fresh_def read_part_def)

lemma finish_ok:
  assumes "handler_inv h" "call_ok Q_finish h"
  shows "safe (finish E h) (after_call (length (m_enqueuedCalls h)))"
proof -
  obtain w where w: "m_replyWrapper h = Some w" "h_handle h" "wrapper_ok w" "\<not> ended (h_events h)" "3 \<le> length (m_attributes (reply_snapshot w))"
    using call_wrapper [OF assms] by blast
  have "after_call (length (m_enqueuedCalls h)) (delete_wrapper (tell E ev h))" if "terminal ev" "event_data ev = []" "\<not> is_willSend ev" for ev
    by (rule tell_end_inv [OF assms(1) w(1,4) that w(2,1)]) simp_all
  then show ?thesis using w deleted_inv [OF assms(1) w(1,4)]
    by (auto simp: finish_def shouldIgnoreHttpError_def errorForReply_def status_safe attribute_safe)
qed

lemmas inv_defs = handler_inv_def queue_ok_def trace_ok_def last_reply_def rounds_def Let_def

text \<open>Fields that the invariant does not read.\<close>

lemma inv_fields [simp]:
  "handler_inv (h\<lparr>m_request := q\<rparr>) = handler_inv h" "handler_inv (h\<lparr>h_sent := i\<rparr>) = handler_inv h" "handler_inv (h\<lparr>m_flushing := b\<rparr>) = handler_inv h"
  "handler_inv (h\<lparr>m_locks := j\<rparr>) = handler_inv h" "handler_inv (h\<lparr>m_deferSignals := b\<rparr>) = handler_inv h" "handler_inv (h\<lparr>h_posted := i\<rparr>) = handler_inv h"
  by (cases "m_replyWrapper h"; cases "h_last h"; simp add: inv_defs)+

lemma rounds_fields [simp]:
  "rounds (h\<lparr>m_request := q\<rparr>) = rounds h" "rounds (h\<lparr>m_flushing := b\<rparr>) = rounds h"
  by (cases "m_replyWrapper h"; simp add: rounds_def)+

lemma after_call_request [simp]: "after_call n (h\<lparr>m_request := q\<rparr>) = after_call n h"
  by (simp add: after_call_def)

lemma httpMethod_safe: "m_method h \<noteq> UnknownOperation \<Longrightarrow> \<exists>m. httpMethod h = Inr m"
  by (cases "m_method h") (simp_all add: httpMethod_def)

lemma redirect_ok:
  assumes "handler_inv h" "m_replyWrapper h = Some w" "h_handle h" "\<not> ended (h_events h)" "3 \<le> length (m_attributes (reply_snapshot w))" "h_client h"
  shows "safe (redirect E response url w h) (after_call (length (m_enqueuedCalls h)))"
proof -
  let ?h = "h\<lparr>m_redirectionTries := m_redirectionTries h - 1\<rparr>"
  have failed: "after_call (length (m_enqueuedCalls h)) (delete_wrapper (tell E (didFail e) ?h))" for e
    by (rule tell_end_inv [OF assms(1,2,4)]) (use assms in simp_all)
  have m: "m_method h \<noteq> UnknownOperation" using assms(1) by (simp add: handler_inv_def)
  have sent: "after_call (length (m_enqueuedCalls h)) (tell E (willSendRequest q r) (?h\<lparr>m_method := k\<rparr>))"
    if "m_redirectionTries h \<noteq> 1" "k \<noteq> UnknownOperation" for q r k
  proof -
    have "handler_inv (?h\<lparr>m_method := k, h_events := h_events h @ [willSendRequest q r]\<rparr>)"
      using assms that ended_all [OF assms(4)] by (auto simp: handler_inv_def queue_ok_def trace_ok_def last_reply_def Let_def)
    then show ?thesis using tell_goes_on [of "?h\<lparr>m_method := k\<rparr>" "willSendRequest q r" w E] assms(2,4) by simp
  qed
  have same: "?h\<lparr>m_method := m_method h\<rparr> = ?h" by (cases h) simp
  define h2 where "h2 = (if 301 \<le> ne_status E (m_attributes (reply_snapshot w) ! 0) \<and> ne_status E (m_attributes (reply_snapshot w) ! 0) \<le> 303
     \<and> rq_httpMethod (h_firstRequest h) = ''POST'' then ?h\<lparr>m_method := GetOperation\<rparr> else ?h)"
  have h2: "after_call (length (m_enqueuedCalls h)) (tell E (willSendRequest q r) h2)" if "m_redirectionTries h \<noteq> 1" for q r
    using sent [OF that, of GetOperation q r] sent [OF that m, of q r] by (simp add: h2_def same)
  have "m_method h2 \<noteq> UnknownOperation" using m by (simp add: h2_def)
  then obtain name where "httpMethod h2 = Inr name" using httpMethod_safe by blast
  moreover have "after_call (length (m_enqueuedCalls h)) (delete_wrapper (tell E (didFail e) (h\<lparr>m_redirectionTries := 0\<rparr>)))"
    if "m_redirectionTries h = 1" for e using failed that by simp
  ultimately show ?thesis using h2 assms(5,6)
    by (simp add: redirect_def Let_def status_safe flip: h2_def)
qed

lemma sendResponse_ok:
  assumes "handler_inv h" "call_ok Q_sendResponseIfNeeded h"
  shows "safe (sendResponseIfNeeded E h) (after_call (length (m_enqueuedCalls h)))"
proof -
  obtain w where w: "m_replyWrapper h = Some w" "h_handle h" "wrapper_ok w" "\<not> ended (h_events h)" "3 \<le> length (m_attributes (reply_snapshot w))"
    using call_wrapper [OF assms] by blast
  have "handler_inv (h\<lparr>h_events := h_events h @ [didReceiveResponse r]\<rparr>)" for r
    using assms(1) w(1,4) ended_all [OF w(4)] by (auto simp: handler_inv_def queue_ok_def trace_ok_def last_reply_def Let_def)
  from tell_goes_on [OF this w(1,4)]
  have told: "after_call (length (m_enqueuedCalls h)) (tell E (didReceiveResponse r) h)" for r by simp
  have "\<exists>r. http_response E w x = Inr r" for x
    using w(5) by (auto simp: http_response_def status_code_def snapshot_attribute_def Let_def)
  then obtain r where "http_response E w (response_of E w) = Inr r" by blast
  then show ?thesis using w told redirect_ok [OF assms(1) w(1,2,4,5)] same_wrapper_rounds [OF assms(1) w(1)]
    by (auto simp: sendResponseIfNeeded_def attribute_safe split: option.split)
qed

lemma forwardData_ok:
  assumes "handler_inv h" "call_ok Q_forwardData h"
  shows "safe (forwardData E h) (after_call (length (m_enqueuedCalls h)))"
proof -
  obtain w where w: "m_replyWrapper h = Some w" "h_handle h" "wrapper_ok w" "\<not> ended (h_events h)" "3 \<le> length (m_attributes (reply_snapshot w))"
    using call_wrapper [OF assms] by blast
  have fresh: "\<not> fresh w" using assms(2) w(1) by (simp add: call_ok_def)
  obtain bytes S where S: "snapshot_read (bytesAvailable (reply_snapshot w) (reply_base w)) (reply_snapshot w) (reply_base w) = (bytes, S)" by fastforce
  note S' = base_read_ok [OF _ S [unfolded snapshot_read_def]]
  have w': "wrapper_ok (set_base S w)" "read_part (set_base S w) = read_part w @ bytes" "\<not> fresh (set_base S w)"
    using w(3) fresh S' by (auto simp: wrapper_ok_def reply_ok_def set_base_def read_part_def fresh_def wasRedirected_def)
  let ?h = "h\<lparr>m_replyWrapper := Some (set_base S w)\<rparr>"
  have quiet: "handler_inv ?h" if "\<not> h_client h \<or> bytes = []"
    using assms(1) w w' that by (auto simp: handler_inv_def queue_ok_def trace_ok_def last_reply_def Let_def)
  have "handler_inv (?h\<lparr>h_events := h_events h @ [didReceiveData bytes]\<rparr>)"
    using assms(1) w w' ended_all [OF w(4)] by (auto simp: handler_inv_def queue_ok_def trace_ok_def last_reply_def Let_def)
  from tell_goes_on [of ?h "didReceiveData bytes" "set_base S w" E] this w(4)
  have told: "after_call (length (m_enqueuedCalls h)) (tell E (didReceiveData bytes) ?h)" by simp
  have "\<not> wasRedirected w" using fresh by (simp add: fresh_def)
  then show ?thesis using w S quiet told same_wrapper_rounds [of ?h "set_base S w"]
    by (auto simp: forwardData_def Let_def)
qed

text \<open>A request is sent, and its reply has not told anything yet.\<close>

lemma sent_inv:
  assumes "handler_inv h" "call_ok Q_start h" "h_handle h" "k \<noteq> UnknownOperation" "wrapper_ok w" "read_part w = []"
  shows "handler_inv (h\<lparr>m_method := k, m_request := q, h_sent := i, m_replyWrapper := Some w\<rparr>)"
  using assms by (auto simp: handler_inv_def queue_ok_def trace_ok_def last_reply_def call_ok_def Let_def split: option.splits)

definition answer_of :: "('u, 'v) net_env \<Rightarrow> ('u, 'v) QNetworkReplyControllable option \<Rightarrow> bool" where
  "answer_of E c = (case ne_manager E of None \<Rightarrow> c = None | Some manager \<Rightarrow> \<exists>method verb q body k. c = manager method verb q body k)"

lemma sendNetworkRequest_ok:
  assumes "m_loadType h = AsynchronousLoad" "m_method h \<noteq> UnknownOperation"
  shows "\<exists>c q k i. sendNetworkRequest E request h = Inr (c, h\<lparr>m_method := k, m_request := q, h_sent := i\<rparr>) \<and> k \<noteq> UnknownOperation
     \<and> answer_of E c"
proof -
  have unchanged: "h = h\<lparr>m_method := m_method h, m_request := m_request h, h_sent := h_sent h\<rparr>" by (cases h) simp
  show ?thesis
  proof (cases "ne_manager E")
    case None
    then show ?thesis using assms unchanged
      by (intro exI [of _ None] exI [of _ "m_request h"] exI [of _ "m_method h"] exI [of _ "h_sent h"]) (simp add: sendNetworkRequest_def answer_of_def)
  next
    case (Some manager)
    define k where "k = (if m_method h = PostOperation \<and> ne_fileOrData E (rq_url (m_request h)) then GetOperation else m_method h)"
    have k: "k \<noteq> UnknownOperation" using assms(2) by (simp add: k_def)
    have "(if m_method h = PostOperation \<and> ne_fileOrData E (rq_url (m_request h)) then h\<lparr>m_method := GetOperation\<rparr> else h) = h\<lparr>m_method := k\<rparr>"
      by (cases h) (simp add: k_def)
    then have send: "sendNetworkRequest E request h =
       (if k \<in> {GetOperation, HeadOperation, DeleteOperation}
        then let h3 = clearContentHeaders (h\<lparr>m_method := k\<rparr>) in Inr (manager k [] (m_request h3) None (h_sent h), h3\<lparr>h_sent := h_sent h + 1\<rparr>)
        else case getIODevice E request (h\<lparr>m_method := k\<rparr>) of (device, h3) \<Rightarrow>
          Inr (manager k (if k = CustomOperation then rq_httpMethod (h_firstRequest h) else []) (m_request h3) (Some device) (h_sent h),
               h3\<lparr>h_sent := h_sent h + 1\<rparr>))"
      using Some k assms by (simp add: sendNetworkRequest_def clearContentHeaders_def getIODevice_def Let_def)
    show ?thesis unfolding send answer_of_def clearContentHeaders_def getIODevice_def Let_def prod.case using k Some
      by (cases "k \<in> {GetOperation, HeadOperation, DeleteOperation}") (simp_all, blast+)
  qed
qed

lemma start_ok:
  assumes "handler_inv h" "call_ok Q_start h" "manager_ok E"
  shows "safe (start E h) (\<lambda>h'. handler_inv h' \<and> rounds h' = 0)"
proof -
  have h: "m_replyWrapper h = None" "m_enqueuedCalls h = []" "m_loadType h = AsynchronousLoad" "m_method h \<noteq> UnknownOperation"
    using assms(1,2) by (auto simp: handler_inv_def call_ok_def split: option.splits)
  obtain c q k i where c: "sendNetworkRequest E (h_firstRequest h) h = Inr (c, h\<lparr>m_method := k, m_request := q, h_sent := i\<rparr>)" "k \<noteq> UnknownOperation"
    "answer_of E c"
    using sendNetworkRequest_ok [OF h(3,4), of E "h_firstRequest h"] by blast
  have w: "wrapper_ok (new_QNetworkReplyWrapper r b)" "read_part (new_QNetworkReplyWrapper r b) = []" if "c = Some r" for r b
  proof -
    have "reply_ok r" "m_streamPosition (c_initialSnapshot r) = 0" using c(3) that assms(3) unfolding manager_ok_def answer_of_def by (auto split: option.splits)
    then show "wrapper_ok (new_QNetworkReplyWrapper r b)" "read_part (new_QNetworkReplyWrapper r b) = []"
      by (auto simp: slot_defs new_QNetworkReplyWrapper_def)
  qed
  have none: "handler_inv (h\<lparr>m_method := k, m_request := q, h_sent := i\<rparr>)"
    using assms(1) c(2) by (auto simp: handler_inv_def queue_ok_def trace_ok_def last_reply_def Let_def split: option.splits)
  show ?thesis using h c(1,2) none assms(1) sent_inv [OF assms(1,2) _ c(2) w]
    by (auto simp: start_def rounds_def delete_wrapper_def split: option.split)
qed

text \<open>The rounds of the loop.\<close>

lemma run_call_ok:
  assumes "handler_inv h" "m_enqueuedCalls h = call # calls" "manager_ok E"
  shows "safe (run_call E call (h\<lparr>m_enqueuedCalls := calls\<rparr>)) (\<lambda>h'. handler_inv h' \<and> rounds h' < rounds h)"
proof -
  let ?h = "h\<lparr>m_enqueuedCalls := calls\<rparr>"
  note inv = take_call [OF assms(1,2)]
  have after: "safe m (after_call (length (m_enqueuedCalls ?h))) \<Longrightarrow> m_replyWrapper h \<noteq> None \<Longrightarrow> ?thesis" if "run_call E call ?h = m" for m
    using that assms(2) by (auto simp: after_call_def rounds_def elim!: safe_mono)
  have some: "call \<noteq> Q_start \<Longrightarrow> m_replyWrapper h \<noteq> None" using inv(2) by (auto simp: call_ok_def split: option.splits)
  show ?thesis
  proof (cases call)
    case Q_start
    moreover have "0 < rounds h" using assms(2) by (simp add: rounds_def split: option.split)
    ultimately show ?thesis using start_ok [OF inv(1) _ assms(3)] inv(2) by (auto elim!: safe_mono)
  next
    case Q_sendResponseIfNeeded
    with after [OF refl] some sendResponse_ok [OF inv(1)] inv(2) show ?thesis by simp
  next
    case Q_forwardData
    with after [OF refl] some forwardData_ok [OF inv(1)] inv(2) show ?thesis by simp
  next
    case Q_finish
    with after [OF refl] some finish_ok [OF inv(1)] inv(2) show ?thesis by simp
  qed
qed

lemma flush_loop_ok: "manager_ok E \<Longrightarrow> handler_inv h \<Longrightarrow> rounds h < n \<Longrightarrow> safe (flush_loop E n h) handler_inv"
proof (induction n arbitrary: h)
  case (Suc n)
  have "safe (flush_loop E n h') handler_inv" if "handler_inv h'" "rounds h' < rounds h" for h'
    using Suc.IH [OF Suc.prems(1) that(1)] that(2) Suc.prems(3) by simp
  with Suc.prems run_call_ok [OF Suc.prems(2) _ Suc.prems(1)] show ?case
    by (auto elim!: safe_mono split: list.split)
qed simp

lemma flush_ok: "manager_ok E \<Longrightarrow> handler_inv h \<Longrightarrow> safe (flush E n h) handler_inv"
  using flush_loop_ok [of E "h\<lparr>m_flushing := True\<rparr>" "length (m_enqueuedCalls h) + 2 + n"]
  by (auto simp: flush_def rounds_def elim!: safe_mono split: option.splits)

section \<open>Events keep the invariant\<close>

lemma schedule_fields:
  "scheduleNextSnapshotUpdate toText t c = Inr (c', calls) \<Longrightarrow>
     c_snapshotQueue c' = c_snapshotQueue c \<and> c_initialSnapshot c' = c_initialSnapshot c \<and> c_currentSnapshot c' = c_currentSnapshot c"
  by (auto simp: scheduleNextSnapshotUpdate_def Let_def split: if_splits list.splits prod.splits)

lemma schedule_safe: "(\<And>c' calls. scheduleNextSnapshotUpdate toText t c = Inr (c', calls) \<Longrightarrow> P (c', calls)) \<Longrightarrow> safe (scheduleNextSnapshotUpdate toText t c) P"
  by (auto simp: scheduleNextSnapshotUpdate_def Let_def split: list.splits prod.splits)

lemma live_signal_ok:
  assumes "wrapper_ok w" "reply_open w"
  shows "safe (live_signal toText t signal reply (wr_reply w)) (\<lambda>(c, _). wrapper_ok (w\<lparr>wr_reply := c\<rparr>)
     \<and> read_part (w\<lparr>wr_reply := c\<rparr>) = read_part w \<and> fresh (w\<lparr>wr_reply := c\<rparr>) = fresh w)"
  unfolding live_signal_def enqueueSnapshot_def Let_def
proof (rule schedule_safe, clarify)
  let ?S = "fst (takeSnapshot signal reply (reply_base w))"
  fix c calls
  assume "scheduleNextSnapshotUpdate toText t ((wr_reply w)\<lparr>c_initialSnapshot := ?S, c_snapshotQueue := c_snapshotQueue ((wr_reply w)\<lparr>c_initialSnapshot := ?S\<rparr>)
     @ [(signal, snd (last (m_snapshots ?S)))]\<rparr>) = Inr (c, calls)"
  from schedule_fields [OF this]
  have c: "c_snapshotQueue c = c_snapshotQueue (wr_reply w) @ [(signal, snd (last (m_snapshots ?S)))]" "c_initialSnapshot c = ?S" "c_currentSnapshot c = reply_snapshot w"
    by simp_all
  have S: "stream_ok (reply_base w)" "stream_ok ?S" "m_streamPosition ?S = m_streamPosition (reply_base w)" "\<exists>b. m_stream ?S = m_stream (reply_base w) @ b"
    "3 \<le> length (m_attributes (snd (last (m_snapshots ?S))))"
    using assms(1) takeSnapshot_ok
    by (auto simp: wrapper_ok_def reply_ok_def takeSnapshot_def readAll_def Let_def new_QNetworkReplySnapshot_def qlist_insert_def)
  have "nat (m_streamPosition (reply_base w)) \<le> length (m_stream (reply_base w))" using S(1) by (auto simp: stream_ok_def nat_le_iff)
  with assms S c show "wrapper_ok (w\<lparr>wr_reply := c\<rparr>) \<and> read_part (w\<lparr>wr_reply := c\<rparr>) = read_part w \<and> fresh (w\<lparr>wr_reply := c\<rparr>) = fresh w"
    by (auto simp: wrapper_ok_def reply_ok_def fresh_def read_part_def wasRedirected_def reply_open_def)
qed

lemma update_ok:
  assumes "wrapper_ok w"
  shows "safe (updateSnapshot toText t hb (wr_reply w)) (\<lambda>(c, _, _, _, signal). wrapper_ok (w\<lparr>wr_reply := c\<rparr>)
     \<and> read_part (w\<lparr>wr_reply := c\<rparr>) = read_part w \<and> fresh (w\<lparr>wr_reply := c\<rparr>) = fresh w
     \<and> (signal = NetworkSignal.FINISHED \<longrightarrow> \<not> wr_isFinished (w\<lparr>wr_reply := c\<rparr>) \<and> c_snapshotQueue c = []))"
proof -
  have step: "safe (scheduleNextSnapshotUpdate toText t ((wr_reply w)\<lparr>c_lastNetworkEventAction := now, c_snapshotQueue := queue, c_currentSnapshot := snapshot,
       c_timerRunning := False\<rparr>)) (\<lambda>(c, calls). wrapper_ok (w\<lparr>wr_reply := c\<rparr>) \<and> read_part (w\<lparr>wr_reply := c\<rparr>) = read_part w
       \<and> fresh (w\<lparr>wr_reply := c\<rparr>) = fresh w \<and> (signal = NetworkSignal.FINISHED \<longrightarrow> \<not> wr_isFinished w \<and> c_snapshotQueue c = []))"
    if "c_snapshotQueue (wr_reply w) = (signal, snapshot) # queue" for signal snapshot queue now
  proof (rule schedule_safe, clarify)
    fix c calls
    assume "scheduleNextSnapshotUpdate toText t ((wr_reply w)\<lparr>c_lastNetworkEventAction := now, c_snapshotQueue := queue, c_currentSnapshot := snapshot,
      c_timerRunning := False\<rparr>) = Inr (c, calls)"
    from schedule_fields [OF this] assms that
    show "wrapper_ok (w\<lparr>wr_reply := c\<rparr>) \<and> read_part (w\<lparr>wr_reply := c\<rparr>) = read_part w \<and> fresh (w\<lparr>wr_reply := c\<rparr>) = fresh w
      \<and> (signal = NetworkSignal.FINISHED \<longrightarrow> \<not> wr_isFinished w \<and> c_snapshotQueue c = [])"
      by (auto simp: wrapper_ok_def reply_ok_def fresh_def read_part_def wasRedirected_def split: if_splits)
  qed
  have hb: "safe (HBCurrentEventAction hb) (\<lambda>_. True)"
    by (simp add: HBCurrentEventAction_def checkInValidEventAction_def get_currentEventAction_def split: option.split)
  show ?thesis
    by (auto simp: updateSnapshot_def Let_def HBQNetworkRequestGetEventAction_def elim!: safe_mono intro!: safe_mono [OF hb] safe_mono [OF step]
        split: option.split list.split)
qed

lemma deliver_ok:
  assumes "handler_inv h" "m_replyWrapper h = Some w0" "slot_ok w wc" "read_part w = read_part w0" "fresh w = fresh w0" "manager_ok E"
  shows "safe (deliver E n wc h) handler_inv"
proof -
  have inv: "handler_inv (h\<lparr>m_replyWrapper := Some (fst wc), m_locks := i, m_enqueuedCalls := m_enqueuedCalls h @ calls\<rparr>)"
    if "set calls \<subseteq> set (snd wc)" for i calls
    using assms(1-5) that by (auto simp: handler_inv_def queue_ok_def trace_ok_def last_reply_def slot_ok_def Let_def)
  show ?thesis
    using inv [of "[]"] flush_ok [OF assms(6)] inv [of "snd wc"] inv [of "snd wc" "m_locks h"] by (auto simp: deliver_def unlock_def enqueue_def lock_def Let_def)
qed

lemma signal_step_ok: "handler_inv h \<Longrightarrow> safe (handler_step E toText t n (HE_signal signal reply) h) handler_inv"
proof (cases "m_replyWrapper h")
  case (Some w)
  assume inv: "handler_inv h"
  then have w: "wrapper_ok w" using Some by (simp add: handler_inv_def queue_ok_def)
  have "handler_inv (h\<lparr>m_replyWrapper := Some w'\<rparr>)" if "wrapper_ok w'" "read_part w' = read_part w" "fresh w' = fresh w" for w'
    using inv Some that by (auto simp: handler_inv_def queue_ok_def trace_ok_def last_reply_def Let_def)
  then show ?thesis using Some inv by (auto intro!: safe_mono [OF live_signal_ok [OF w]])
qed simp

lemma update_step_ok:
  assumes "handler_inv h" "manager_ok E"
  shows "safe (handler_step E toText t n (HE_update hb) h) handler_inv"
proof (cases "m_replyWrapper h")
  case (Some w)
  then have w: "wrapper_ok w" using assms(1) by (simp add: handler_inv_def queue_ok_def)
  have "safe (emit_signal E signal (w\<lparr>wr_reply := c\<rparr>)) (\<lambda>wc. safe (deliver E n wc h) handler_inv)"
    if "wrapper_ok (w\<lparr>wr_reply := c\<rparr>)" "read_part (w\<lparr>wr_reply := c\<rparr>) = read_part w" "fresh (w\<lparr>wr_reply := c\<rparr>) = fresh w"
      "signal = NetworkSignal.FINISHED \<longrightarrow> \<not> wr_isFinished (w\<lparr>wr_reply := c\<rparr>) \<and> c_snapshotQueue c = []" for c signal
    by (rule safe_mono [OF emit_signal_ok [OF that(1)]]) (use that deliver_ok [OF assms(1) Some _ that(2,3) assms(2)] in auto)
  then show ?thesis using Some update_ok [OF w, of toText t hb] by (auto elim!: safe_mono)
qed (use assms in simp)

lemma handler_step_ok:
  assumes "handler_inv h" "manager_ok E"
  shows "safe (handler_step E toText t n ev h) handler_inv"
proof (cases ev)
  case (HE_signal signal reply)
  then show ?thesis using signal_step_ok [OF assms(1)] by simp
next
  case (HE_update hb)
  then show ?thesis using update_step_ok [OF assms] by simp
next
  case (HE_defer b)
  then show ?thesis using assms flush_ok [OF assms(2)] by (auto simp: setLoadingDeferred_def setDeferSignals_def Let_def)
next
  case HE_flush
  then show ?thesis using assms flush_ok [OF assms(2)] by simp
next
  case HE_abort
  then show ?thesis using assms(1)
    by (auto simp: abort_def handler_release_def delete_wrapper_def handler_inv_def queue_ok_def trace_ok_def last_reply_def Let_def)
next
  case HE_deleted
  then show ?thesis using assms(1)
    by (auto simp: handler_inv_def queue_ok_def trace_ok_def last_reply_def Let_def split: option.splits)
qed

text \<open>Histories of a handler are sequences of steps that keep the invariant and avoid assertions.\<close>

interpretation nh: step_safe "handler_step E toText t n" "\<lambda>h. handler_inv h \<and> manager_ok E" "\<lambda>_. True" unsafe for E :: "('u, 'v) net_env" and toText t n
proof unfold_locales
  fix h h' :: "('u, 'v) QNetworkReplyHandler" and ev :: "('u, 'v) handler_event" and e
  assume h: "handler_inv h \<and> manager_ok E"
  from handler_step_ok [of h E toText t n ev] h
  show "handler_step E toText t n ev h = Inr h' \<Longrightarrow> handler_inv h' \<and> manager_ok E" "handler_step E toText t n ev h = Inl e \<Longrightarrow> \<not> unsafe e"
    by auto
qed

lemma new_handler_ok: "handler_inv (enqueue [Q_start] (new_handler request client context sniffing AsynchronousLoad deferred))"
  by (simp add: handler_inv_def queue_ok_def trace_ok_def last_reply_def enqueue_def new_handler_def operation_of_def ended_def told_data_def redirections_def
      gMaxRedirections_def Let_def)

lemma history_ok:
  assumes "manager_ok E"
  shows "safe (bindR (new_QNetworkReplyHandler E n request client context sniffing AsynchronousLoad deferred) (run_steps (handler_step E toText t n) evs)) handler_inv"
proof -
  have run: "safe (run_steps (handler_step E toText t n) evs h) handler_inv" if "handler_inv h" for h
    using nh.run_keeps [of h E evs toText t n] nh.run_avoids [of h E evs toText t n] that assms by (simp add: safe_def split: sum.split)
  have "safe (new_QNetworkReplyHandler E n request client context sniffing AsynchronousLoad deferred) handler_inv"
    unfolding new_QNetworkReplyHandler_def push_def by (rule flush_ok [OF assms new_handler_ok])
  then show ?thesis by (auto elim!: safe_mono intro: run)
qed

section \<open>The protocol of a load\<close>

text \<open>A handler is created, and then things happen to it.\<close>

definition load_history :: "('u, 'v) net_env \<Rightarrow> ('u \<Rightarrow> string) \<Rightarrow> nat \<Rightarrow> nat \<Rightarrow> 'u ResourceRequest \<Rightarrow> bool \<Rightarrow> bool \<Rightarrow> bool \<Rightarrow> bool \<Rightarrow>
    ('u, 'v) handler_event list \<Rightarrow> ('u, 'v) QNetworkReplyHandler result" where
  "load_history E toText t n request client context sniffing deferred evs =
     bindR (new_QNetworkReplyHandler E n request client context sniffing AsynchronousLoad deferred) (run_steps (handler_step E toText t n) evs)"

section \<open>A load\<close>

text \<open>
  The first request is answered by a redirection to the second, whose reply replays five bytes. Variants are numbers; seven stands for the
  target of the redirection.
\<close>

definition load_snapshot :: "int list \<Rightarrow> int \<Rightarrow> int QNetworkReplySnapshot" where
  "load_snapshot attributes n = \<lparr>m_error = 0, m_errorString = [], m_attributes = attributes, m_streamSize = n\<rparr>"

definition load_reply :: "int list \<Rightarrow> string \<Rightarrow> (string, int) QNetworkReplyControllable" where
  "load_reply attributes bytes =
     \<lparr>c_snapshotQueue = [(NetworkSignal.FINISHED, load_snapshot attributes (int (length bytes)))],
      c_sequenceNumber = 1, c_timerRunning = True,
      c_initialSnapshot = \<lparr>m_headers = [], m_cookies = None, m_sameUrlSequenceNumber = 0, m_url = ''u'', m_streamPosition = 0, m_stream = bytes, m_snapshots = []\<rparr>,
      c_currentSnapshot = load_snapshot attributes 0, c_hasReply = True, c_url = ''u'', c_origin = Some 1, c_sender = Some 1,
      c_lastNetworkEventAction = 0, c_creatingEventAction = 0\<rparr>"

definition load_env :: "(string, int) net_env" where
  "load_env =
     \<lparr>ne_redirection = (\<lambda>v. if v = 7 then Some ''v'' else None), ne_status = id, ne_isNull = (\<lambda>_. False), ne_text = (\<lambda>_. []), ne_resolved = (\<lambda>_ u. u),
      ne_isLocalFile = (\<lambda>_. False), ne_inHTTPFamily = (\<lambda>_. True), ne_isHttps = (\<lambda>_. False), ne_referrerHttps = (\<lambda>_. False), ne_fileOrData = (\<lambda>_. False),
      ne_path = id, ne_lastPathComponent = id, ne_charset = id, ne_mime = id, ne_isImage = (\<lambda>_. False), ne_mimeForPath = id, ne_disposition = id, ne_lower = id,
      ne_toLongLong = (\<lambda>_. 0), ne_sniffSize = (\<lambda>_ _. None), ne_sniff = (\<lambda>_ _ _. None), ne_files = (\<lambda>_. None),
      ne_manager = Some (\<lambda>_ _ _ _ k. Some (if k = 0 then load_reply [302, 0, 7] ''xyz'' else load_reply [200, 0, 0] ''hello'')),
      ne_willSend = id, ne_client = (\<lambda>_ _. [])\<rparr>"

definition load_request :: "string ResourceRequest" where
  "load_request = \<lparr>rq_httpMethod = ''POST'', rq_url = ''u'', rq_httpReferrer = [], rq_httpBody = [], rq_contentType = None, rq_contentLength = None,
     rq_synchronous = False, rq_doNotBuffer = False\<rparr>"

text \<open>The redirection is handled; then loading is deferred while the bytes arrive, and resumed.\<close>

definition some_load :: "(string, int) QNetworkReplyHandler result" where
  "some_load = load_history load_env id 0 0 load_request True True False False
     [HE_update busy, HE_defer True, HE_update busy, HE_defer False, HE_flush, HE_flush]"

lemma load_manager: "manager_ok load_env"
  by (auto simp: manager_ok_def load_env_def load_reply_def load_snapshot_def reply_ok_def stream_ok_def)

lemma load_told:
  "\<exists>h. some_load = Inr h \<and> h_client h \<and> h_handle h \<and> \<not> m_deferSignals h \<and> h_posted h = 0 \<and> told_data (h_events h) = ''hello'' \<and> ended (h_events h)"
proof -
  have "(case some_load of Inl e \<Rightarrow> False | Inr h \<Rightarrow>
     h_client h \<and> h_handle h \<and> \<not> m_deferSignals h \<and> h_posted h = 0 \<and> told_data (h_events h) = ''hello'' \<and> ended (h_events h))"
    by code_simp
  then show ?thesis by (auto split: sum.splits)
qed

text \<open>
  C3: In every history of an asynchronous load, whatever its client does when it is told something, the client is told the end of the load at
  most once, after everything else; it is told at most nine redirections; and as long as it stays, the data it was told is what was read of the last reply.
  After the end, there is no reply and no call waits.
\<close>

theorem load_protocol:
  assumes "manager_ok E" "load_history E toText t n request client context sniffing deferred evs = Inr h"
  shows "list_all (Not \<circ> terminal) (butlast (h_events h)) \<and> redirections (h_events h) \<le> 9
     \<and> (h_client h \<longrightarrow> told_data (h_events h) = last_reply h) \<and> (ended (h_events h) \<longrightarrow> m_replyWrapper h = None \<and> m_enqueuedCalls h = [])"
proof -
  have "handler_inv h" using history_ok [OF assms(1)] assms(2) by (metis load_history_def safe_simps(1))
  then show ?thesis by (simp add: handler_inv_def trace_ok_def Let_def)
qed

theorem load_protocol_witness:
  "\<exists>h. some_load = Inr h \<and> h_client h \<and> told_data (h_events h) = ''hello'' \<and> last_reply h = ''hello'' \<and> m_enqueuedCalls h = []
     \<and> list_all (Not \<circ> terminal) (butlast (h_events h)) \<and> ended (h_events h) \<and> redirections (h_events h) \<le> 9"
proof -
  obtain h where h: "some_load = Inr h" "h_client h" "told_data (h_events h) = ''hello''" "ended (h_events h)" using load_told by blast
  with load_protocol [OF load_manager h(1) [unfolded some_load_def]] show ?thesis by auto
qed

text \<open>
  C5: No history of an asynchronous load fails one of the assertions of the handler, the wrapper or the snapshots, and the loop that runs the
  queue always ends. What remains is a handler that is called after its handle was taken away, an event action that is not running, and a request without annotation.
\<close>

theorem load_never_asserts:
  assumes "manager_ok E" "load_history E toText t n request client context sniffing deferred evs = Inl e"
  shows "e \<noteq> ASSERT_FAILED \<and> e \<noteq> DIVERGES"
  using history_ok [OF assms(1)] assms(2) by (metis load_history_def safe_simps(2) unsafe_simps(1,2))

text \<open>A load that is cancelled before its request is sent.\<close>

lemma cancelled_early:
  "load_history E toText t n request client context sniffing True [HE_defer False, HE_abort, HE_flush] = Inl UNDEFINED"
  by (simp add: load_history_def new_QNetworkReplyHandler_def push_def flush_def new_handler_def enqueue_def setLoadingDeferred_def setDeferSignals_def
      abort_def handler_release_def delete_wrapper_def start_def Let_def)

theorem load_never_asserts_witness:
  "load_history load_env id 0 0 load_request True True False True [HE_defer False, HE_abort, HE_flush] = Inl UNDEFINED
     \<and> UNDEFINED \<noteq> ASSERT_FAILED \<and> UNDEFINED \<noteq> DIVERGES"
  using load_never_asserts [OF load_manager cancelled_early] cancelled_early by blast

end
