(* ===== verification/Load_Progress.thy ===== *)
theory Load_Progress
  imports Load_Protocol
begin

text \<open>
  An asynchronous load does not get stuck: while it is not over, there is a reply whose end has not been handled, and whose signals
  the wrapper still hears, or a call that will run. The locale \<open>step_invariant\<close> carries the invariant to histories.
\<close>

section \<open>Invariant\<close>

text \<open>The wrapper will not hear any more signals.\<close>

definition deaf :: "('u, 'v) QNetworkReplyWrapper \<Rightarrow> bool" where
  "deaf w = (wr_isFinished w \<or> \<not> (wr_metaData w \<or> m_sniffer w \<noteq> None \<or> wr_forward w))"

definition ends_inv :: "('u, 'v) QNetworkReplyHandler \<Rightarrow> bool" where
  "ends_inv h = ((case m_replyWrapper h of Some w \<Rightarrow> deaf w \<longrightarrow> Q_finish \<in> set (m_enqueuedCalls h)
       | None \<Rightarrow> h_handle h \<longrightarrow> h_client h \<longrightarrow> m_enqueuedCalls h = [] \<longrightarrow> ended (h_events h))
     \<and> (h_deleteLater h \<longrightarrow> \<not> h_handle h))"

text \<open>Between events, calls wait only while loading is deferred or a \<open>flush\<close> is to come.\<close>

definition idle :: "('u, 'v) QNetworkReplyHandler \<Rightarrow> bool" where
  "idle h = (m_locks h = 0 \<and> \<not> m_flushing h \<and> (m_deferSignals h \<or> 0 < h_posted h \<or> m_enqueuedCalls h = []))"

definition same_frame :: "('u, 'v) QNetworkReplyHandler \<Rightarrow> ('u, 'v) QNetworkReplyHandler \<Rightarrow> bool" where
  "same_frame h h' = (m_locks h' = m_locks h \<and> m_flushing h' = m_flushing h \<and> h_context h' = h_context h)"

text \<open>The network access manager answers every request with a reply.\<close>

definition answers :: "('u, 'v) net_env \<Rightarrow> bool" where
  "answers E = (\<exists>manager. ne_manager E = Some manager \<and> (\<forall>method verb request body k. manager method verb request body k \<noteq> None))"

section \<open>Calls\<close>

lemma tell_ends:
  assumes "h_handle h" "m_replyWrapper h = Some w" "deaf w \<longrightarrow> Q_finish \<in> set (m_enqueuedCalls h)" "\<not> h_deleteLater h"
  shows "ends_inv (tell E ev h) \<and> same_frame h (tell E ev h)"
  using tell_rel [OF assms(1), of ev E] assms by (auto simp: client_rel_def ends_inv_def same_frame_def split: if_splits option.splits)

lemma tell_end_ends:
  assumes "h_handle h" "m_replyWrapper h = Some w" "terminal ev" "\<not> h_deleteLater h"
  shows "ends_inv (delete_wrapper (tell E ev h)) \<and> same_frame h (delete_wrapper (tell E ev h))"
  using tell_rel [OF assms(1), of ev E] assms
  by (auto simp: client_rel_def ends_inv_def same_frame_def delete_wrapper_def split: if_splits option.splits)

text \<open>The state in which a call runs.\<close>

lemma call_state:
  assumes "handler_inv h" "ends_inv h" "m_enqueuedCalls h = call # calls" "call \<noteq> Q_start"
  obtains w where "m_replyWrapper h = Some w" "h_handle h" "\<not> h_deleteLater h" "call \<noteq> Q_finish \<Longrightarrow> deaf w \<longrightarrow> Q_finish \<in> set calls"
proof -
  obtain w where "m_replyWrapper h = Some w" "h_handle h"
    using call_wrapper [OF take_call [OF assms(1,3)] assms(4)] by auto
  with that show ?thesis using assms(2,3) by (auto simp: ends_inv_def)
qed

lemma finish_ends:
  assumes "handler_inv h" "ends_inv h" "m_enqueuedCalls h = Q_finish # calls" "finish E (h\<lparr>m_enqueuedCalls := calls\<rparr>) = Inr h'"
  shows "ends_inv h' \<and> same_frame h h'"
proof -
  obtain w where w: "m_replyWrapper h = Some w" "h_handle h" "\<not> h_deleteLater h" using call_state [OF assms(1-3)] by auto
  let ?h = "h\<lparr>m_enqueuedCalls := calls\<rparr>"
  have "ends_inv (delete_wrapper (tell E ev ?h)) \<and> same_frame h (delete_wrapper (tell E ev ?h))" if "terminal ev" for ev
    using tell_end_ends [of ?h w ev E] that w by (simp add: same_frame_def)
  then show ?thesis using assms(4) w
    by (auto simp: finish_def split: if_splits) (auto simp: ends_inv_def same_frame_def delete_wrapper_def enqueue_def)
qed

lemma request_fields [simp]: "ends_inv (h\<lparr>m_request := q\<rparr>) = ends_inv h" "same_frame g (h\<lparr>m_request := q\<rparr>) = same_frame g h"
  by (simp_all add: ends_inv_def same_frame_def cong: option.case_cong)

lemma redirect_ends:
  assumes "h_handle h" "m_replyWrapper h = Some w" "deaf w \<longrightarrow> Q_finish \<in> set (m_enqueuedCalls h)" "\<not> h_deleteLater h"
    and "redirect E response url w h = Inr h'"
  shows "ends_inv h' \<and> same_frame h h'"
proof -
  let ?h = "h\<lparr>m_redirectionTries := m_redirectionTries h - 1\<rparr>"
  obtain code where code: "status_code E w = Inr code" using assms(5) by (auto simp: redirect_def Let_def split: if_splits)
  define h2 where "h2 = (if 301 \<le> code \<and> code \<le> 303 \<and> rq_httpMethod (h_firstRequest h) = ''POST'' then ?h\<lparr>m_method := GetOperation\<rparr> else ?h)"
  have "same_frame h2 g = same_frame h g" "same_frame ?h g = same_frame h g" for g :: "('a, 'b) QNetworkReplyHandler" by (simp_all add: h2_def same_frame_def)
  moreover have "ends_inv (tell E ev h2) \<and> same_frame h2 (tell E ev h2)" for ev by (rule tell_ends [of _ w]) (use assms in \<open>simp_all add: h2_def\<close>)
  moreover have "ends_inv (delete_wrapper (tell E (didFail e) ?h)) \<and> same_frame ?h (delete_wrapper (tell E (didFail e) ?h))" for e
    by (rule tell_end_ends [of _ w]) (use assms in simp_all)
  moreover have "(\<exists>e. h' = delete_wrapper (tell E (didFail e) ?h)) \<or> (\<exists>ev q. h' = tell E ev h2 \<or> h' = (tell E ev h2)\<lparr>m_request := q\<rparr>)"
    using assms(5) by (auto simp: redirect_def Let_def code simp flip: h2_def split: if_splits)
  ultimately show ?thesis by auto
qed

lemma sendResponse_ends:
  assumes "handler_inv h" "ends_inv h" "m_enqueuedCalls h = Q_sendResponseIfNeeded # calls" "sendResponseIfNeeded E (h\<lparr>m_enqueuedCalls := calls\<rparr>) = Inr h'"
  shows "ends_inv h' \<and> same_frame h h'"
proof -
  let ?h = "h\<lparr>m_enqueuedCalls := calls\<rparr>"
  obtain w where w: "m_replyWrapper h = Some w" "h_handle h" "\<not> h_deleteLater h" "deaf w \<longrightarrow> Q_finish \<in> set calls" using call_state [OF assms(1-3)] by auto
  have frame: "same_frame ?h g = same_frame h g" for g :: "('a, 'b) QNetworkReplyHandler" by (simp add: same_frame_def)
  have "h' = ?h \<or> (\<exists>ev. h' = tell E ev ?h) \<or> (\<exists>r u. redirect E r u w ?h = Inr h')"
    using assms(4) w(1) by (auto simp: sendResponseIfNeeded_def split: if_splits option.splits)
  moreover have "ends_inv ?h" "same_frame h ?h" using w by (simp_all add: ends_inv_def same_frame_def)
  ultimately show ?thesis using w tell_ends [of ?h w E] redirect_ends [of ?h w E _ _ h'] by (auto simp: frame)
qed

lemma forwardData_ends:
  assumes "handler_inv h" "ends_inv h" "m_enqueuedCalls h = Q_forwardData # calls" "forwardData E (h\<lparr>m_enqueuedCalls := calls\<rparr>) = Inr h'"
  shows "ends_inv h' \<and> same_frame h h'"
proof -
  obtain w where w: "m_replyWrapper h = Some w" "h_handle h" "\<not> h_deleteLater h" "deaf w \<longrightarrow> Q_finish \<in> set calls" using call_state [OF assms(1-3)] by auto
  let ?h = "\<lambda>S. h\<lparr>m_enqueuedCalls := calls, m_replyWrapper := Some (set_base S w)\<rparr>"
  have deaf: "deaf (set_base S w) = deaf w" for S by (simp add: deaf_def set_base_def)
  have frame: "same_frame (?h S) g = same_frame h g" for S and g :: "('a, 'b) QNetworkReplyHandler" by (simp add: same_frame_def)
  obtain S where S: "h' = ?h S \<or> (\<exists>ev. h' = tell E ev (?h S))"
    using assms(4) w(1)
    by (cases "snapshot_read (bytesAvailable (reply_snapshot w) (reply_base w)) (reply_snapshot w) (reply_base w)") (auto simp: forwardData_def Let_def split: if_splits)
  have "ends_inv (?h S)" "same_frame h (?h S)" using w by (simp_all add: ends_inv_def same_frame_def deaf)
  moreover have "ends_inv (tell E ev (?h S)) \<and> same_frame (?h S) (tell E ev (?h S))" for ev
    by (rule tell_ends [of _ "set_base S w"]) (use w in \<open>simp_all add: deaf\<close>)
  ultimately show ?thesis using S by (auto simp: frame)
qed

lemma start_ends:
  assumes "handler_inv h" "ends_inv h" "m_enqueuedCalls h = Q_start # calls" "start E (h\<lparr>m_enqueuedCalls := calls\<rparr>) = Inr h'" "answers E" "h_context h"
  shows "ends_inv h' \<and> same_frame h h'"
proof -
  let ?h = "h\<lparr>m_enqueuedCalls := calls\<rparr>"
  have h: "m_replyWrapper h = None" "m_loadType ?h = AsynchronousLoad" "m_method ?h \<noteq> UnknownOperation"
    using assms(1) take_call(2) [OF assms(1,3)] by (auto simp: handler_inv_def call_ok_def split: option.splits)
  have handle: "h_handle h" using assms(4) by (simp add: start_def split: if_splits)
  obtain c q k i where c: "sendNetworkRequest E (h_firstRequest ?h) ?h = Inr (c, ?h\<lparr>m_method := k, m_request := q, h_sent := i\<rparr>)" "answer_of E c"
    using sendNetworkRequest_ok [OF h(2,3)] by blast
  moreover have "c \<noteq> None" using c(2) assms(5) by (auto simp: answers_def answer_of_def)
  ultimately show ?thesis using assms(2,4,6) h handle
    by (auto simp: start_def delete_wrapper_def new_QNetworkReplyWrapper_def ends_inv_def deaf_def same_frame_def split: option.splits)
qed

lemma run_call_ends:
  assumes "handler_inv h" "ends_inv h" "m_enqueuedCalls h = call # calls" "run_call E call (h\<lparr>m_enqueuedCalls := calls\<rparr>) = Inr h'" "answers E" "h_context h"
  shows "ends_inv h' \<and> same_frame h h'"
  using finish_ends [OF assms(1,2)] sendResponse_ends [OF assms(1,2)] forwardData_ends [OF assms(1,2)] start_ends [OF assms(1,2)] assms(3-6)
  by (cases call) auto

section \<open>Running the queue\<close>

text \<open>The invariant of a load whose requests are answered.\<close>

definition running :: "('u, 'v) net_env \<Rightarrow> ('u, 'v) QNetworkReplyHandler \<Rightarrow> bool" where
  "running E h = (manager_ok E \<and> answers E \<and> h_context h \<and> handler_inv h \<and> ends_inv h)"

lemma flush_loop_ends:
  "running E h \<Longrightarrow> flush_loop E n h = Inr h' \<Longrightarrow> running E h' \<and> same_frame h h' \<and> (m_deferSignals h' \<or> m_locks h' \<noteq> 0 \<or> m_enqueuedCalls h' = [])"
proof (induction n arbitrary: h)
  case (Suc n)
  show ?case
  proof (cases "\<not> m_deferSignals h \<and> m_locks h = 0 \<and> m_enqueuedCalls h \<noteq> []")
    case True
    then obtain call calls where c: "m_enqueuedCalls h = call # calls" by (auto simp: neq_Nil_conv)
    then obtain h1 where h1: "run_call E call (h\<lparr>m_enqueuedCalls := calls\<rparr>) = Inr h1" "flush_loop E n h1 = Inr h'" using Suc.prems(2) True by auto
    have "handler_inv h1" using run_call_ok [OF _ c, of E] Suc.prems(1) h1(1) by (simp add: running_def)
    moreover have "ends_inv h1 \<and> same_frame h h1" using run_call_ends [OF _ _ c h1(1)] Suc.prems(1) by (simp add: running_def)
    ultimately show ?thesis using Suc.IH [OF _ h1(2)] Suc.prems(1) by (auto simp: running_def same_frame_def)
  next
    case False
    then show ?thesis using Suc.prems by (auto simp: same_frame_def split: list.splits)
  qed
qed simp

lemma running_fields [simp]:
  "running E (h\<lparr>m_flushing := b\<rparr>) = running E h" "running E (h\<lparr>m_locks := i\<rparr>) = running E h" "running E (h\<lparr>h_posted := j\<rparr>) = running E h"
  "running E (h\<lparr>m_deferSignals := b\<rparr>) = running E h"
  by (simp_all add: running_def ends_inv_def cong: option.case_cong)

lemma flush_ends:
  assumes "running E h" "m_locks h = 0" "\<not> m_flushing h" "flush E n h = Inr h'"
  shows "running E h' \<and> idle h'"
proof -
  obtain h1 where h1: "flush_loop E (length (m_enqueuedCalls h) + 2 + n) (h\<lparr>m_flushing := True\<rparr>) = Inr h1" "h' = h1\<lparr>m_flushing := False\<rparr>"
    using assms(3,4) by (auto simp only: flush_def bindR_eq_Inr_iff if_False sum.inject)
  from flush_loop_ends [OF _ h1(1)] assms(1,2) show ?thesis by (auto simp: h1(2) idle_def same_frame_def)
qed

section \<open>Events\<close>

text \<open>A wrapper that stops listening has pushed \<open>finish\<close>.\<close>

definition hears :: "('u, 'v) QNetworkReplyWrapper \<Rightarrow> ('u, 'v) QNetworkReplyWrapper \<times> EnqueuedCall list \<Rightarrow> bool" where
  "hears w wc = (deaf (fst wc) \<longrightarrow> deaf w \<or> Q_finish \<in> set (snd wc))"

lemma emitMetaDataChanged_hears: "hears w (emitMetaDataChanged w1)"
  by (simp add: hears_def emitMetaDataChanged_def deaf_def Let_def)

lemma sniff_waits: "sniff E w s = None \<Longrightarrow> \<not> wr_isFinished w"
  by (auto simp: sniff_def Let_def split: if_splits)

lemma receiveMetaData_hears: "receiveMetaData E w1 = Inr wc \<Longrightarrow> hears w wc"
  using emitMetaDataChanged_hears [of w]
  by (auto simp: receiveMetaData_def receiveSniffedMIMEType_def resetConnections_def Let_def dest!: sniff_waits split: if_splits option.splits)
    (simp_all add: hears_def deaf_def)

lemma emit_signal_hears:
  assumes "emit_signal E signal w = Inr wc"
  shows "hears w wc"
proof -
  define w1 where "w1 = (if signal = NetworkSignal.FINISHED then w\<lparr>wr_isFinished := True\<rparr> else w)"
  have "(if signal = NetworkSignal.FINISHED then setFinished w else Inr w) = Inr w1"
    using assms by (cases "wr_isFinished w") (simp_all add: emit_signal_def setFinished_def w1_def split: if_splits)
  then have wc: "(if wr_metaData w1 then receiveMetaData E w1
       else (case m_sniffer w1 of Some s \<Rightarrow> Inr (trySniffing E s w1)
         | None \<Rightarrow> if wr_forward w1 then Inr (if signal = NetworkSignal.FINISHED then didReceiveFinished w1 else didReceiveReadyRead w1) else Inr (w1, []))) = Inr wc"
    using assms by (simp add: emit_signal_def)
  have w1: "w1 = w \<and> signal \<noteq> NetworkSignal.FINISHED \<or> w1 = w\<lparr>wr_isFinished := True\<rparr> \<and> signal = NetworkSignal.FINISHED" by (simp add: w1_def)
  consider "wr_metaData w1" | s where "\<not> wr_metaData w1" "m_sniffer w1 = Some s" | "\<not> wr_metaData w1" "m_sniffer w1 = None" by blast
  then show ?thesis
  proof cases
    case 1
    then show ?thesis using wc receiveMetaData_hears by simp
  next
    case 2
    then show ?thesis using wc w1 sniff_waits [of E w1 s] emitMetaDataChanged_hears [of w]
      by (auto simp: trySniffing_def receiveSniffedMIMEType_def hears_def deaf_def split: option.splits)
  next
    case 3
    then show ?thesis using wc w1
      by (auto simp: didReceiveFinished_def didReceiveReadyRead_def hears_def deaf_def split: if_splits)
  qed
qed

text \<open>The wrapper changes and calls are pushed; a slot that pushes nothing leaves the queue alone.\<close>

lemma wrapper_change_ends:
  assumes "ends_inv h" "m_replyWrapper h = Some w" "hears w wc"
  shows "ends_inv (h\<lparr>m_replyWrapper := Some (fst wc), m_enqueuedCalls := m_enqueuedCalls h @ snd wc, m_locks := i\<rparr>)"
  using assms by (auto simp: ends_inv_def hears_def)

lemma deaf_reply [simp]: "deaf (w\<lparr>wr_reply := c\<rparr>) = deaf w"
  by (simp add: deaf_def)

lemma deliver_ends:
  assumes "running E h" "idle h" "m_replyWrapper h = Some w" "slot_ok w1 wc" "read_part w1 = read_part w" "fresh w1 = fresh w" "hears w wc"
    and "deliver E n wc h = Inr h'"
  shows "running E h' \<and> idle h'"
proof (cases "snd wc = []")
  case True
  then have h': "h' = h\<lparr>m_replyWrapper := Some (fst wc)\<rparr>" using assms(8) by (simp add: deliver_def)
  have "handler_inv h'" using deliver_ok [OF _ assms(3-6), of E n] assms(1,8) by (simp add: running_def)
  with h' wrapper_change_ends [OF _ assms(3,7), of "m_locks h"] True assms(1,2) show ?thesis by (simp add: running_def idle_def)
next
  case False
  let ?h = "h\<lparr>m_replyWrapper := Some (fst wc), m_enqueuedCalls := m_enqueuedCalls h @ snd wc, m_locks := 0\<rparr>"
  have "flush E n ?h = Inr h'" using assms(2,8) False by (simp add: deliver_def unlock_def enqueue_def lock_def idle_def Let_def)
  moreover have "handler_inv ?h"
    using assms(1,3-6) by (auto simp: running_def handler_inv_def queue_ok_def trace_ok_def last_reply_def slot_ok_def Let_def)
  moreover have "ends_inv ?h" using wrapper_change_ends [OF _ assms(3,7)] assms(1) by (simp add: running_def)
  ultimately show ?thesis using flush_ends [of E ?h n h'] assms(1,2) by (simp add: running_def idle_def)
qed

lemma update_step_ends:
  assumes "running E h" "idle h" "handler_step E toText t n (HE_update hb) h = Inr h'"
  shows "running E h' \<and> idle h'"
proof (cases "m_replyWrapper h")
  case (Some w)
  have w: "wrapper_ok w" using assms(1) Some by (simp add: running_def handler_inv_def queue_ok_def)
  obtain c a b d signal wc where c: "updateSnapshot toText t hb (wr_reply w) = Inr (c, a, b, d, signal)"
    "emit_signal E signal (w\<lparr>wr_reply := c\<rparr>) = Inr wc" "deliver E n wc h = Inr h'"
    using assms(3) Some by auto
  have u: "wrapper_ok (w\<lparr>wr_reply := c\<rparr>)" "read_part (w\<lparr>wr_reply := c\<rparr>) = read_part w" "fresh (w\<lparr>wr_reply := c\<rparr>) = fresh w"
    "signal = NetworkSignal.FINISHED \<longrightarrow> \<not> wr_isFinished (w\<lparr>wr_reply := c\<rparr>) \<and> c_snapshotQueue (wr_reply (w\<lparr>wr_reply := c\<rparr>)) = []"
    using update_ok [OF w, of toText t hb] c(1) by simp_all
  have "slot_ok (w\<lparr>wr_reply := c\<rparr>) wc" using emit_signal_ok [OF u(1,4), of E] c(2) by simp
  moreover have "hears w wc" using emit_signal_hears [OF c(2)] by (simp add: hears_def)
  ultimately show ?thesis using deliver_ends [OF assms(1,2) Some _ u(2,3) _ c(3)] by blast
qed (use assms in simp)

lemma handler_step_ends:
  assumes "running E h" "idle h" "handler_step E toText t n ev h = Inr h'"
  shows "running E h' \<and> idle h'"
proof (cases ev)
  case (HE_signal signal reply)
  have "handler_inv h'" using handler_step_ok [of h E toText t n ev] assms(1,3) by (simp add: running_def)
  moreover have "h' = h \<or> (\<exists>w c. m_replyWrapper h = Some w \<and> h' = h\<lparr>m_replyWrapper := Some (w\<lparr>wr_reply := c\<rparr>)\<rparr>)"
    using assms(3) HE_signal by (auto split: option.splits if_splits)
  ultimately show ?thesis using assms(1,2) by (auto simp: running_def idle_def ends_inv_def)
next
  case (HE_update hb)
  then show ?thesis using update_step_ends assms by blast
next
  case (HE_defer b)
  then show ?thesis using assms
    by (auto simp: setLoadingDeferred_def setDeferSignals_def Let_def running_def handler_inv_def idle_def split: if_splits)
      (auto simp: ends_inv_def queue_ok_def trace_ok_def last_reply_def cong: option.case_cong)
next
  case HE_flush
  then show ?thesis using assms flush_ends [of E "h\<lparr>h_posted := h_posted h - 1\<rparr>" n h'] by (auto simp: idle_def split: if_splits)
next
  case HE_abort
  have "handler_inv h'" using handler_step_ok [of h E toText t n ev] assms(1,3) by (simp add: running_def)
  then show ?thesis using HE_abort assms
    by (auto simp: abort_def handler_release_def delete_wrapper_def running_def ends_inv_def idle_def split: if_splits)
next
  case HE_deleted
  have "handler_inv h'" using handler_step_ok [of h E toText t n ev] assms(1,3) by (simp add: running_def)
  then show ?thesis using HE_deleted assms
    by (auto simp: running_def handler_inv_def queue_ok_def ends_inv_def idle_def split: if_splits option.splits)
qed

interpretation nl: step_invariant "handler_step E toText t n" "\<lambda>h. running E h \<and> idle h" "\<lambda>_. True" for E :: "('u, 'v) net_env" and toText t n
  by unfold_locales (use handler_step_ends in blast)

section \<open>A load is never stuck\<close>

text \<open>
  C4: A load never gets stuck. If every request is answered by a reply, then in every history of an asynchronous load that was not cancelled and whose
  client stayed, when loading is not deferred and no \<open>flush\<close> is to come, either the client has been told the end of the load, or there is
  a reply whose end has not been signalled yet and whose signals the wrapper still hears.
\<close>

theorem load_never_stuck:
  assumes "manager_ok E" "answers E" "load_history E toText t n request client True sniffing deferred evs = Inr h"
    and "h_handle h" "h_client h" "\<not> m_deferSignals h" "h_posted h = 0"
  shows "ended (h_events h) \<and> m_replyWrapper h = None \<or> (\<exists>w. m_replyWrapper h = Some w \<and> \<not> ended (h_events h) \<and> \<not> deaf w)"
proof -
  let ?h = "enqueue [Q_start] (new_handler request client True sniffing AsynchronousLoad deferred)"
  obtain h0 where h0: "flush E n ?h = Inr h0" "run_steps (handler_step E toText t n) evs h0 = Inr h"
    using assms(3) by (auto simp: load_history_def new_QNetworkReplyHandler_def push_def)
  have "running E ?h" using assms(1,2) new_handler_ok by (simp add: running_def ends_inv_def enqueue_def new_handler_def)
  then have "running E h0 \<and> idle h0" by (rule flush_ends [OF _ _ _ h0(1)]) (simp_all add: enqueue_def new_handler_def)
  then have "running E h \<and> idle h" using nl.run_keeps [OF _ _ h0(2)] by blast
  with assms(4-7) show ?thesis
    by (auto simp: running_def idle_def ends_inv_def handler_inv_def trace_ok_def Let_def split: option.splits)
qed

theorem load_never_stuck_witness:
  "\<exists>h. some_load = Inr h \<and> h_handle h \<and> h_client h \<and> (ended (h_events h) \<and> m_replyWrapper h = None
     \<or> (\<exists>w. m_replyWrapper h = Some w \<and> \<not> ended (h_events h) \<and> \<not> deaf w))"
proof -
  obtain h where h: "some_load = Inr h" "h_client h" "h_handle h" "\<not> m_deferSignals h" "h_posted h = 0" using load_told by blast
  have "answers load_env" by (simp add: answers_def load_env_def)
  from load_never_stuck [OF load_manager this h(1) [unfolded some_load_def] h(3,2,4,5)] h show ?thesis by blast
qed

end
