(* ===== verification/Progress_Throttle.thy ===== *)
theory Progress_Throttle
  imports Timer_Client
begin

text \<open>
  The events of an XMLHttpRequest (\<open>Source/WebCore/xml/XMLHttpRequestProgressEventThrottle\<close>, as R4 changed it): progress events are dispatched at most every 50
  milliseconds, and while the page is suspended all events are kept back. An operation that dispatches an event takes as parameter what the target of the
  event, the request with its listeners, does to the throttle in turn.
\<close>

section \<open>State\<close>

text \<open>A progress event carries numbers; in other events they are not used. \<open>xt_dispatched\<close> is what reached the target; nothing reads it.\<close>

record xhr_event =
  xe_type :: string
  xe_lengthComputable :: bool
  xe_loaded :: "64 word"
  xe_total :: "64 word"

text \<open>The throttle is a timer, \<open>xt_timer\<close>. \<open>xt_seqNumber\<close> is the static counter of all throttles.\<close>

record XMLHttpRequestProgressEventThrottle =
  xt_timer :: nat
  m_lengthComputable :: bool
  m_loaded :: "64 word"
  m_total :: "64 word"
  m_deferEvents :: bool
  m_deferredProgressEvent :: "xhr_event option"
  m_deferredEvents :: "xhr_event list"
  m_dispatchDeferredEventsTimer :: nat
  xt_seqNumber :: "32 word"
  m_progressEventActionJoin :: MultiJoin
  m_lastFireDispatchEventAction :: int
  m_suspendingEventActionJoin :: MultiJoin
  m_lastFireDeferEventAction :: int
  xt_dispatched :: "xhr_event list"

type_synonym throttle_world = "XMLHttpRequestProgressEventThrottle \<times> thread_world"

type_synonym event_target = "xhr_event \<Rightarrow> throttle_world \<Rightarrow> throttle_world result"

text \<open>\<open>m_lengthComputable\<close> is not initialised: \<open>b\<close> is the value it happens to have.\<close>

definition new_XMLHttpRequestProgressEventThrottle :: "nat \<Rightarrow> nat \<Rightarrow> bool \<Rightarrow> 32 word \<Rightarrow> XMLHttpRequestProgressEventThrottle" where
  "new_XMLHttpRequestProgressEventThrottle t d b n =
     \<lparr>xt_timer = t, m_lengthComputable = b, m_loaded = 0, m_total = 0, m_deferEvents = False, m_deferredProgressEvent = None, m_deferredEvents = [],
      m_dispatchDeferredEventsTimer = d, xt_seqNumber = n, m_progressEventActionJoin = new_MultiJoin, m_lastFireDispatchEventAction = 0,
      m_suspendingEventActionJoin = new_MultiJoin, m_lastFireDeferEventAction = 0, xt_dispatched = []\<rparr>"

definition progress_event :: "bool \<Rightarrow> 64 word \<Rightarrow> 64 word \<Rightarrow> xhr_event" where
  "progress_event lengthComputable loaded whole =
     \<lparr>xe_type = ''progress'', xe_lengthComputable = lengthComputable, xe_loaded = loaded, xe_total = whole\<rparr>"

definition loadend_event :: xhr_event where
  "loadend_event = \<lparr>xe_type = ''loadend'', xe_lengthComputable = False, xe_loaded = 0, xe_total = 0\<rparr>"

section \<open>Operations\<close>

definition hasEventToDispatch :: "throttle_world \<Rightarrow> bool" where
  "hasEventToDispatch Tw = ((m_total (fst Tw) \<noteq> 0 \<or> m_loaded (fst Tw) \<noteq> 0) \<and> timer_active (snd Tw) (xt_timer (fst Tw)))"

definition getSeqNumber :: "XMLHttpRequestProgressEventThrottle \<Rightarrow> 32 word \<times> XMLHttpRequestProgressEventThrottle" where
  "getSeqNumber T = (xt_seqNumber T, T\<lparr>xt_seqNumber := xt_seqNumber T + 1\<rparr>)"

definition throttle_descriptor :: "string \<Rightarrow> 32 word \<Rightarrow> EventActionDescriptor" where
  "throttle_descriptor kind n = mk_descriptor WTF_NETWORK ''XMLHttpRequestProgressEventThrottle'' (kind @ '','' @ nat_dec (unat n))"

definition dispatchEvent :: "event_target \<Rightarrow> xhr_event \<Rightarrow> throttle_world \<Rightarrow> throttle_world result" where
  "dispatchEvent target e Tw =
     (case Tw of (T, w) \<Rightarrow>
      if m_deferEvents T
      then if length (m_deferredEvents T) > 1 \<and> xe_type e = ''readystatechange'' \<and> xe_type e = xe_type (last (m_deferredEvents T)) then Inr (T, w)
           else Inr (T\<lparr>m_deferredEvents := m_deferredEvents T @ [e]\<rparr>, w)
      else target e (T\<lparr>xt_dispatched := xt_dispatched T @ [e]\<rparr>, w))"

text \<open>An arc from the event action in which the timer fired last, if it has.\<close>

definition arc_from_last :: "string_hash \<Rightarrow> int \<Rightarrow> thread_world \<Rightarrow> thread_world result" where
  "arc_from_last H earlier w = (if earlier \<noteq> 0 then arc_to_current H earlier w else Inr w)"

text \<open>Times are in microseconds; the interval is 50 milliseconds.\<close>

definition dispatchProgressEvent :: "string_hash \<Rightarrow> event_target \<Rightarrow> bool \<Rightarrow> 64 word \<Rightarrow> 64 word \<Rightarrow> throttle_world \<Rightarrow> throttle_world result" where
  "dispatchProgressEvent H target lengthComputable loaded whole Tw =
     (case Tw of (T, w) \<Rightarrow>
      if m_deferEvents T then Inr (T\<lparr>m_deferredProgressEvent := Some (progress_event lengthComputable loaded whole)\<rparr>, w)
      else bindR (arc_from_last H (m_lastFireDispatchEventAction T) w) (\<lambda>w1.
        if \<not> timer_active w1 (xt_timer T)
        then if m_loaded T \<noteq> 0 \<or> m_total T \<noteq> 0 then Inl ASSERT_FAILED
             else bindR (dispatchEvent target (progress_event lengthComputable loaded whole) (T, w1)) (\<lambda>(T2, w2).
               case getSeqNumber T2 of (n, T3) \<Rightarrow>
               bindR (timer_do H (TC_setDescriptor (xt_timer T3) (throttle_descriptor ''BASE'' n)) w2) (\<lambda>w3.
               bindR (timer_do H (TC_start (xt_timer T3) 50000 50000) w3) (\<lambda>w4. Inr (T3, w4))))
        else Inr (T\<lparr>m_lengthComputable := lengthComputable, m_loaded := loaded, m_total := whole\<rparr>, w1)))"

definition flushProgressEvent :: "string_hash \<Rightarrow> event_target \<Rightarrow> throttle_world \<Rightarrow> throttle_world result" where
  "flushProgressEvent H target Tw =
     (case Tw of (T, w) \<Rightarrow>
      case (m_deferEvents T, m_deferredProgressEvent T) of
        (True, Some e) \<Rightarrow> Inr (T\<lparr>m_deferredEvents := m_deferredEvents T @ [e], m_deferredProgressEvent := None\<rparr>, w)
      | _ \<Rightarrow>
          if \<not> hasEventToDispatch (T, w) then Inr (T, w)
          else (let e = progress_event (m_lengthComputable T) (m_loaded T) (m_total T) in
            bindR (timer_do H (TC_stop (xt_timer T)) w) (\<lambda>w1. dispatchEvent target e (T\<lparr>m_loaded := 0, m_total := 0\<rparr>, w1))))"

definition dispatchReadyStateChangeEvent :: "string_hash \<Rightarrow> event_target \<Rightarrow> xhr_event \<Rightarrow> bool \<Rightarrow> throttle_world \<Rightarrow> throttle_world result" where
  "dispatchReadyStateChangeEvent H target e flush Tw = bindR (if flush then flushProgressEvent H target Tw else Inr Tw) (dispatchEvent target e)"

definition dispatchEventAndLoadEnd :: "event_target \<Rightarrow> xhr_event \<Rightarrow> throttle_world \<Rightarrow> throttle_world result" where
  "dispatchEventAndLoadEnd target e Tw =
     (if xe_type e \<notin> {''load'', ''abort'', ''error'', ''timeout''} then Inl ASSERT_FAILED
      else bindR (dispatchEvent target e Tw) (dispatchEvent target loadend_event))"

text \<open>The timer of the throttle has expired.\<close>

definition fired :: "string_hash \<Rightarrow> event_target \<Rightarrow> throttle_world \<Rightarrow> throttle_world result" where
  "fired H target Tw =
     (case Tw of (T, w) \<Rightarrow>
      bindR (join_and_clear (m_progressEventActionJoin T) w) (\<lambda>(J, w1).
      bindR (HBCurrentEventAction (w_hb w1)) (\<lambda>now.
        let T1 = T\<lparr>m_progressEventActionJoin := J, m_lastFireDispatchEventAction := now\<rparr> in
        if \<not> timer_active w1 (xt_timer T1) then Inl ASSERT_FAILED
        else if \<not> hasEventToDispatch (T1, w1) then bindR (timer_do H (TC_stop (xt_timer T1)) w1) (\<lambda>w2. Inr (T1, w2))
        else bindR (dispatchEvent target (progress_event (m_lengthComputable T1) (m_loaded T1) (m_total T1)) (T1, w1)) (\<lambda>(T2, w2).
          Inr (T2\<lparr>m_total := 0, m_loaded := 0\<rparr>, w2)))))"

text \<open>The timer for deferred events has expired.\<close>

definition dispatchDeferredEvents :: "string_hash \<Rightarrow> event_target \<Rightarrow> throttle_world \<Rightarrow> throttle_world result" where
  "dispatchDeferredEvents H target Tw =
     (case Tw of (T, w) \<Rightarrow>
      if \<not> m_deferEvents T then Inl ASSERT_FAILED
      else (let events = m_deferredEvents T; progress = m_deferredProgressEvent T in
        bindR (run_steps (dispatchEvent target) events (T\<lparr>m_deferEvents := False, m_deferredEvents := [], m_deferredProgressEvent := None\<rparr>, w)) (\<lambda>Tw1.
        bindR (case progress of None \<Rightarrow> Inr Tw1 | Some e \<Rightarrow> dispatchEvent target e Tw1) (\<lambda>(T2, w2).
        bindR (arc_from_last H (m_lastFireDeferEventAction T2) w2) (\<lambda>w3.
        bindR (HBCurrentEventAction (w_hb w3)) (\<lambda>now. Inr (T2\<lparr>m_lastFireDeferEventAction := now\<rparr>, w3)))))))"

definition suspend :: "string_hash \<Rightarrow> throttle_world \<Rightarrow> throttle_world result" where
  "suspend H Tw =
     (case Tw of (T, w) \<Rightarrow>
      bindR (arc_from_last H (m_lastFireDeferEventAction T) w) (\<lambda>w1.
      bindR (threadEndAction (w_hb w1) (m_suspendingEventActionJoin T)) (\<lambda>J.
        let T1 = T\<lparr>m_suspendingEventActionJoin := J\<rparr> in
        if timer_active w1 (m_dispatchDeferredEventsTimer T1)
        then if \<not> m_deferEvents T1 then Inl ASSERT_FAILED
             else bindR (timer_do H (TC_stop (m_dispatchDeferredEventsTimer T1)) w1) (\<lambda>w2. Inr (T1, w2))
        else if m_deferredProgressEvent T1 \<noteq> None \<or> m_deferredEvents T1 \<noteq> [] \<or> m_deferEvents T1 then Inl ASSERT_FAILED
        else (let T2 = (if hasEventToDispatch (T1, w1)
                then T1\<lparr>m_deferEvents := True, m_deferredProgressEvent := Some (progress_event (m_lengthComputable T1) (m_loaded T1) (m_total T1)),
                        m_total := 0, m_loaded := 0\<rparr>
                else T1\<lparr>m_deferEvents := True\<rparr>) in
              bindR (timer_do H (TC_stop (xt_timer T2)) w1) (\<lambda>w2. Inr (T2, w2))))))"

definition resume :: "string_hash \<Rightarrow> throttle_world \<Rightarrow> throttle_world result" where
  "resume H Tw =
     (case Tw of (T, w) \<Rightarrow>
      if m_loaded T \<noteq> 0 \<or> m_total T \<noteq> 0 then Inl ASSERT_FAILED
      else (case getSeqNumber T of (n, T1) \<Rightarrow>
        bindR (timer_do H (TC_setDescriptor (m_dispatchDeferredEventsTimer T1) (throttle_descriptor ''DEFERRED'' n)) w) (\<lambda>w1.
        bindR (startOneShot H (m_dispatchDeferredEventsTimer T1) w1) (\<lambda>w2.
        bindR (join_and_clear (m_suspendingEventActionJoin T1) w2) (\<lambda>(J, w3). Inr (T1\<lparr>m_suspendingEventActionJoin := J\<rparr>, w3))))))"

section \<open>Calls\<close>

datatype throttle_call = XC_progress bool "64 word" "64 word" | XC_readyState xhr_event bool | XC_event xhr_event | XC_eventAndLoadEnd xhr_event
  | XC_suspend | XC_resume

fun throttle_do :: "string_hash \<Rightarrow> event_target \<Rightarrow> throttle_call \<Rightarrow> throttle_world \<Rightarrow> throttle_world result" where
  "throttle_do H target (XC_progress b loaded whole) Tw = dispatchProgressEvent H target b loaded whole Tw"
| "throttle_do H target (XC_readyState e flush) Tw = dispatchReadyStateChangeEvent H target e flush Tw"
| "throttle_do H target (XC_event e) Tw = dispatchEvent target e Tw"
| "throttle_do H target (XC_eventAndLoadEnd e) Tw = dispatchEventAndLoadEnd target e Tw"
| "throttle_do H target XC_suspend Tw = suspend H Tw"
| "throttle_do H target XC_resume Tw = resume H Tw"

text \<open>A target whose listeners make calls, which are nested at most \<open>n\<close> deep.\<close>

type_synonym xhr_listeners = "xhr_event \<Rightarrow> throttle_world \<Rightarrow> throttle_call list"

fun nested_target :: "string_hash \<Rightarrow> xhr_listeners \<Rightarrow> nat \<Rightarrow> event_target" where
  "nested_target H listeners 0 e Tw = (if listeners e Tw = [] then Inr Tw else Inl DIVERGES)"
| "nested_target H listeners (Suc n) e Tw = run_steps (throttle_do H (nested_target H listeners n)) (listeners e Tw) Tw"

text \<open>What can happen: calls of the request, active timers expire, and event actions begin and end.\<close>

datatype throttle_event = XE_call throttle_call | XE_fired | XE_deferred | XE_hb hb_call

fun throttle_step :: "string_hash \<Rightarrow> event_target \<Rightarrow> throttle_event \<Rightarrow> throttle_world \<Rightarrow> throttle_world result" where
  "throttle_step H target (XE_call c) Tw = throttle_do H target c Tw"
| "throttle_step H target XE_fired (T, w) =
     (if timer_active w (xt_timer T) then bindR (timer_expires H (xt_timer T) w) (\<lambda>w1. fired H target (T, w1)) else Inr (T, w))"
| "throttle_step H target XE_deferred (T, w) =
     (if timer_active w (m_dispatchDeferredEventsTimer T)
      then bindR (timer_expires H (m_dispatchDeferredEventsTimer T) w) (\<lambda>w1. dispatchDeferredEvents H target (T, w1))
      else Inr (T, w))"
| "throttle_step H target (XE_hb c) (T, w) = bindR (hb_do H c w) (\<lambda>w1. Inr (T, w1))"

section \<open>Events of a suspended page\<close>

text \<open>What is dispatched when the page is resumed, and what a call asks to dispatch.\<close>

definition pending :: "XMLHttpRequestProgressEventThrottle \<Rightarrow> xhr_event list" where
  "pending T = m_deferredEvents T @ (case m_deferredProgressEvent T of None \<Rightarrow> [] | Some e \<Rightarrow> [e])"

fun received :: "throttle_call \<Rightarrow> xhr_event list" where
  "received (XC_progress b loaded whole) = [progress_event b loaded whole]"
| "received (XC_readyState e flush) = [e]"
| "received (XC_event e) = [e]"
| "received (XC_eventAndLoadEnd e) = [e, loadend_event]"
| "received _ = []"

definition is_progress :: "xhr_event \<Rightarrow> bool" where
  "is_progress e = (xe_type e = ''progress'')"

text \<open>
  What a page can tell apart: the events that are neither progress nor changes of state, the sequence of types without progress and
  without repetitions, and the latest progress.
\<close>

definition latest :: "xhr_event list \<Rightarrow> xhr_event option" where
  "latest es = (let ps = filter is_progress es in if ps = [] then None else Some (last ps))"

definition type_sequence :: "xhr_event list \<Rightarrow> string list" where
  "type_sequence es = remdups_adj (map xe_type (filter (Not \<circ> is_progress) es))"

definition main_events :: "xhr_event list \<Rightarrow> xhr_event list" where
  "main_events es = filter (\<lambda>e. \<not> is_progress e \<and> xe_type e \<noteq> ''readystatechange'') es"

definition same_view :: "xhr_event list \<Rightarrow> xhr_event list \<Rightarrow> bool" where
  "same_view es es' = (main_events es = main_events es' \<and> type_sequence es = type_sequence es' \<and> latest es = latest es')"

lemma remdups_adj_snoc: "remdups_adj (xs @ [x]) = (if xs \<noteq> [] \<and> last xs = x then remdups_adj xs else remdups_adj xs @ [x])"
  by (induction xs rule: remdups_adj.induct) auto

lemma remdups_adj_snoc_cong: "remdups_adj xs = remdups_adj ys \<Longrightarrow> remdups_adj (xs @ [x]) = remdups_adj (ys @ [x])"
  unfolding remdups_adj_snoc by (metis remdups_adj_Nil_iff last_remdups_adj)

lemma type_sequence_snoc: "type_sequence es = type_sequence es' \<Longrightarrow> type_sequence (es @ [e]) = type_sequence (es' @ [e])"
  by (auto simp: type_sequence_def intro: remdups_adj_snoc_cong)

lemma same_view_snoc: "same_view es es' \<Longrightarrow> same_view (es @ [e]) (es' @ [e])"
  using type_sequence_snoc [of es es' e] by (auto simp: same_view_def main_events_def latest_def Let_def split: if_splits)

lemma same_view_append: "same_view es es' \<Longrightarrow> same_view (es @ xs) (es' @ xs)"
proof (induction xs rule: rev_induct)
  case (snoc x xs)
  then show ?case using same_view_snoc [of "es @ xs" "es' @ xs" x] by simp
qed simp

lemma same_view_trans: "same_view a b \<Longrightarrow> same_view b c \<Longrightarrow> same_view a c"
  by (simp add: same_view_def)

text \<open>A progress event can wait behind later events, and a repeated change of state can be left out.\<close>

lemma progress_waits: "\<not> is_progress e \<Longrightarrow> is_progress p \<Longrightarrow> same_view (es @ [e, p]) (es @ [p, e])"
  by (simp add: same_view_def main_events_def type_sequence_def latest_def)

lemma progress_replaced: "is_progress p \<Longrightarrow> is_progress q \<Longrightarrow> same_view (es @ [q]) (es @ [p, q])"
  by (simp add: same_view_def main_events_def type_sequence_def latest_def Let_def)

lemma change_repeated:
  assumes "es \<noteq> []" "xe_type e = ''readystatechange''" "xe_type (last es) = xe_type e" "\<forall>p \<in> set ps. is_progress p"
  shows "same_view (es @ ps) (es @ ps @ [e])"
proof -
  have ps: "filter (Not \<circ> is_progress) ps = []" "filter (\<lambda>e. \<not> is_progress e \<and> xe_type e \<noteq> ''readystatechange'') ps = []"
    using assms(4) by (auto simp: filter_empty_conv)
  obtain xs l where es: "es = xs @ [l]" using assms(1) by (cases es rule: rev_cases) auto
  have l: "xe_type l = ''readystatechange''" "\<not> is_progress l" "\<not> is_progress e" using assms(2,3) by (simp_all add: es is_progress_def)
  have "type_sequence (es @ ps) = type_sequence (es @ ps @ [e])"
    using ps(1) l remdups_adj_snoc [of "map xe_type (filter (Not \<circ> is_progress) es)" "xe_type e"] assms(2) by (simp add: type_sequence_def es)
  then show ?thesis using ps l assms(2) by (simp add: same_view_def main_events_def latest_def)
qed

text \<open>While events are deferred, every call keeps them back, and the page will see what the call asks for.\<close>

definition suspended :: "XMLHttpRequestProgressEventThrottle \<Rightarrow> bool" where
  "suspended T = (m_deferEvents T \<and> m_loaded T = 0 \<and> m_total T = 0 \<and> (\<forall>e. m_deferredProgressEvent T = Some e \<longrightarrow> is_progress e))"

fun ordinary :: "throttle_call \<Rightarrow> bool" where
  "ordinary (XC_readyState e flush) = (\<not> is_progress e)"
| "ordinary (XC_event e) = (\<not> is_progress e)"
| "ordinary _ = True"

definition kept_back :: "XMLHttpRequestProgressEventThrottle \<Rightarrow> xhr_event list \<Rightarrow> XMLHttpRequestProgressEventThrottle \<Rightarrow> bool" where
  "kept_back T es T' = (suspended T' \<and> xt_dispatched T' = xt_dispatched T \<and> same_view (pending T') (pending T @ es))"

lemma kept_back_trans: "kept_back T1 xs T2 \<Longrightarrow> kept_back T2 ys T3 \<Longrightarrow> kept_back T1 (xs @ ys) T3"
  using same_view_append [of "pending T2" "pending T1 @ xs" ys] by (auto simp: kept_back_def intro: same_view_trans)

lemma dispatchEvent_kept:
  assumes "suspended T" "\<not> is_progress e" "dispatchEvent target e (T, w) = Inr (T', w')"
  shows "kept_back T [e] T'"
proof (cases "length (m_deferredEvents T) > 1 \<and> xe_type e = ''readystatechange'' \<and> xe_type e = xe_type (last (m_deferredEvents T))")
  case True
  then have "T' = T" using assms(1,3) by (auto simp: dispatchEvent_def suspended_def split: if_splits)
  moreover have "same_view (pending T) (pending T @ [e])"
    unfolding pending_def append_assoc by (rule change_repeated) (use True assms(1) in \<open>auto simp: suspended_def split: option.splits\<close>)
  ultimately show ?thesis using assms(1) by (simp add: kept_back_def)
next
  case False
  then have "T' = T\<lparr>m_deferredEvents := m_deferredEvents T @ [e]\<rparr>" using assms(1,3) by (auto simp: dispatchEvent_def suspended_def split: if_splits)
  then show ?thesis using assms(1,2) progress_waits [of e]
    by (auto simp: kept_back_def suspended_def pending_def same_view_def split: option.splits)
qed

lemma flush_kept: "suspended T \<Longrightarrow> flushProgressEvent H target (T, w) = Inr (T', w') \<Longrightarrow> kept_back T [] T'"
  by (auto simp: flushProgressEvent_def hasEventToDispatch_def suspended_def kept_back_def pending_def same_view_def split: option.splits)

lemma throttle_do_kept:
  assumes "suspended T" "ordinary c" "throttle_do H target c (T, w) = Inr (T', w')"
  shows "kept_back T (received c) T'"
proof (cases c)
  case (XC_progress b loaded whole)
  then have "T' = T\<lparr>m_deferredProgressEvent := Some (progress_event b loaded whole)\<rparr>" using assms by (simp add: dispatchProgressEvent_def suspended_def)
  then show ?thesis using XC_progress assms(1) progress_replaced [of _ "progress_event b loaded whole" "m_deferredEvents T"]
    by (auto simp: kept_back_def suspended_def pending_def is_progress_def progress_event_def same_view_def split: option.splits)
next
  case (XC_readyState e flush)
  have "kept_back T [] T" using assms(1) by (simp add: kept_back_def same_view_def)
  then have "\<exists>T1 w1. kept_back T [] T1 \<and> dispatchEvent target e (T1, w1) = Inr (T', w')"
    using assms(3) XC_readyState by (cases flush) (auto simp: dispatchReadyStateChangeEvent_def dest: flush_kept [OF assms(1)])
  then obtain T1 w1 where T1: "kept_back T [] T1" "dispatchEvent target e (T1, w1) = Inr (T', w')" by blast
  then show ?thesis using kept_back_trans [OF T1(1) dispatchEvent_kept [OF _ _ T1(2)]] assms(2) XC_readyState by (simp add: kept_back_def)
next
  case (XC_event e)
  then show ?thesis using dispatchEvent_kept assms by simp
next
  case (XC_eventAndLoadEnd e)
  have "\<not> is_progress e" "\<not> is_progress loadend_event" using assms(3) XC_eventAndLoadEnd
    by (auto simp: dispatchEventAndLoadEnd_def is_progress_def loadend_event_def split: if_splits)
  moreover obtain T1 w1 where "dispatchEvent target e (T, w) = Inr (T1, w1)" "dispatchEvent target loadend_event (T1, w1) = Inr (T', w')"
    using assms(3) XC_eventAndLoadEnd by (auto simp: dispatchEventAndLoadEnd_def split: if_splits)
  ultimately have k: "kept_back T [e] T1" "kept_back T1 [loadend_event] T'"
    using dispatchEvent_kept [OF assms(1), of e target w T1 w1] dispatchEvent_kept [of T1 loadend_event target w1 T' w'] by (simp_all add: kept_back_def)
  show ?thesis using kept_back_trans [OF k] XC_eventAndLoadEnd by simp
next
  case XC_suspend
  then show ?thesis using assms
    by (auto simp: suspend_def Let_def suspended_def kept_back_def pending_def same_view_def split: if_splits)
next
  case XC_resume
  then show ?thesis using assms
    by (auto simp: resume_def getSeqNumber_def suspended_def kept_back_def pending_def same_view_def)
qed

lemma run_kept: "suspended T \<Longrightarrow> list_all ordinary cs \<Longrightarrow> run_steps (throttle_do H target) cs (T, w) = Inr (T', w') \<Longrightarrow>
    kept_back T (concat (map received cs)) T'"
proof (induction cs arbitrary: T w)
  case (Cons c cs)
  then obtain T1 w1 where T1: "throttle_do H target c (T, w) = Inr (T1, w1)" "run_steps (throttle_do H target) cs (T1, w1) = Inr (T', w')" by auto
  then have k: "kept_back T (received c) T1" using throttle_do_kept Cons.prems by auto
  then show ?case using kept_back_trans [OF k Cons.IH [OF _ _ T1(2)]] Cons.prems(2) by (simp add: kept_back_def)
qed (simp add: kept_back_def same_view_def)

lemma passive_events:
  "\<not> m_deferEvents T \<Longrightarrow> run_steps (dispatchEvent (\<lambda>e s. Inr s)) es (T, w) = Inr (T', w') \<Longrightarrow>
     xt_dispatched T' = xt_dispatched T @ es \<and> \<not> m_deferEvents T'"
proof (induction es arbitrary: T)
  case (Cons e es)
  then show ?case using Cons.IH [of "T\<lparr>xt_dispatched := xt_dispatched T @ [e]\<rparr>"] by (simp add: dispatchEvent_def)
qed simp

text \<open>
  C13: A suspended page misses nothing. While it is suspended, whatever calls are made, no event reaches the target; when it is resumed, the target gets a
  sequence of events that shows the same as the events received: all events that are neither progress nor changes of state in their order, the same
  sequence of types up to repeated changes of state, and the latest progress.
\<close>

theorem suspended_page_catches_up:
  assumes "m_deferEvents T" "m_loaded T = 0" "m_total T = 0" "pred_option is_progress (m_deferredProgressEvent T)" "list_all ordinary cs"
    and "run_steps (throttle_do H target) cs (T, w) = Inr (T1, w1)"
    and "dispatchDeferredEvents H (\<lambda>e s. Inr s) (T1, w2) = Inr (T2, w3)"
  shows "xt_dispatched T1 = xt_dispatched T \<and> m_deferEvents T1
     \<and> (\<exists>es. xt_dispatched T2 = xt_dispatched T @ es \<and> same_view es (pending T @ concat (map received cs)))"
proof -
  have "suspended T" using assms(1-4) by (auto simp: suspended_def)
  then have k: "kept_back T (concat (map received cs)) T1" using run_kept assms(5,6) by blast
  obtain T3 w4 where T3: "run_steps (dispatchEvent (\<lambda>e s. Inr s)) (m_deferredEvents T1)
      (T1\<lparr>m_deferEvents := False, m_deferredEvents := [], m_deferredProgressEvent := None\<rparr>, w2) = Inr (T3, w4)"
    "xt_dispatched T2 = xt_dispatched T3 @ (case m_deferredProgressEvent T1 of None \<Rightarrow> [] | Some e \<Rightarrow> [e])"
  proof -
    obtain T3 w4 where T3: "run_steps (dispatchEvent (\<lambda>e s. Inr s)) (m_deferredEvents T1)
      (T1\<lparr>m_deferEvents := False, m_deferredEvents := [], m_deferredProgressEvent := None\<rparr>, w2) = Inr (T3, w4)"
      using assms(7) by (auto simp: dispatchDeferredEvents_def Let_def split: if_splits)
    moreover have "\<not> m_deferEvents T3" using passive_events [OF _ T3] by simp
    ultimately show thesis using assms(7) that
      by (auto simp: dispatchDeferredEvents_def dispatchEvent_def Let_def split: if_splits option.splits)
  qed
  then have "xt_dispatched T2 = xt_dispatched T1 @ pending T1" using passive_events [OF _ T3(1)] by (simp add: pending_def)
  then show ?thesis using k by (auto simp: kept_back_def suspended_def)
qed

definition throttle_sample :: thread_world where
  "throttle_sample = (new_world (new_thread_page (\<lambda>n. 1000 + 1000 * int n)))\<lparr>w_hb := new_hb_state\<lparr>hb_currentEventActionId := 5\<rparr>\<rparr>"

definition state_change :: xhr_event where
  "state_change = \<lparr>xe_type = ''readystatechange'', xe_lengthComputable = False, xe_loaded = 0, xe_total = 0\<rparr>"

definition suspended_sample :: XMLHttpRequestProgressEventThrottle where
  "suspended_sample = (new_XMLHttpRequestProgressEventThrottle 1 2 False 0)\<lparr>m_deferEvents := True\<rparr>"

definition suspended_calls :: "throttle_call list" where
  "suspended_calls = [XC_progress True 3 9, XC_readyState state_change False, XC_progress True 5 9, XC_readyState state_change True, XC_event state_change,
     XC_eventAndLoadEnd (loadend_event\<lparr>xe_type := ''load''\<rparr>)]"

definition suspended_run :: "throttle_world result" where
  "suspended_run = run_steps (throttle_do (\<lambda>_. 0) (\<lambda>e s. Inr s)) suspended_calls (suspended_sample, throttle_sample)"

definition resumed_run :: "throttle_world result" where
  "resumed_run = dispatchDeferredEvents (\<lambda>_. 0) (\<lambda>e s. Inr s) (fst (projr suspended_run), throttle_sample)"

theorem suspended_page_catches_up_witness:
  "xt_dispatched (fst (projr suspended_run)) = [] \<and> map xe_type (xt_dispatched (fst (projr resumed_run))) =
     [''readystatechange'', ''progress'', ''readystatechange'', ''load'', ''loadend'']
     \<and> same_view (xt_dispatched (fst (projr resumed_run))) (concat (map received suspended_calls))"
proof -
  have r: "\<not> isl suspended_run" "\<not> isl resumed_run" "map xe_type (xt_dispatched (fst (projr resumed_run))) =
     [''readystatechange'', ''progress'', ''readystatechange'', ''load'', ''loadend'']" by code_simp+
  have T: "m_deferEvents suspended_sample" "m_loaded suspended_sample = 0" "m_total suspended_sample = 0" "m_deferredProgressEvent suspended_sample = None"
    "xt_dispatched suspended_sample = []" "pending suspended_sample = []"
    by (simp_all add: suspended_sample_def new_XMLHttpRequestProgressEventThrottle_def pending_def)
  have "list_all ordinary suspended_calls" by (simp add: suspended_calls_def is_progress_def state_change_def)
  from suspended_page_catches_up [OF T(1-3) _ this, of "\<lambda>_. 0" "\<lambda>e s. Inr s" throttle_sample "fst (projr suspended_run)" "snd (projr suspended_run)"
      throttle_sample "fst (projr resumed_run)" "snd (projr resumed_run)"]
  show ?thesis using r T unfolding suspended_run_def [symmetric] resumed_run_def [symmetric] by auto
qed

section \<open>The join of throttled progress\<close>

text \<open>No event action is ever added to the join that \<open>fired\<close> makes.\<close>

definition joins_nothing :: "XMLHttpRequestProgressEventThrottle \<Rightarrow> bool" where
  "joins_nothing T = (m_endThreads (m_progressEventActionJoin T) = [])"

definition quiet_target :: "event_target \<Rightarrow> bool" where
  "quiet_target target = (\<forall>e T w T' w'. joins_nothing T \<longrightarrow> target e (T, w) = Inr (T', w') \<longrightarrow> joins_nothing T')"

lemma joins_fields [simp]:
  "joins_nothing (T\<lparr>m_loaded := x\<rparr>) = joins_nothing T" "joins_nothing (T\<lparr>m_total := x\<rparr>) = joins_nothing T"
  "joins_nothing (T\<lparr>m_lengthComputable := b\<rparr>) = joins_nothing T"
  "joins_nothing (T\<lparr>xt_seqNumber := n\<rparr>) = joins_nothing T" "joins_nothing (T\<lparr>m_lastFireDeferEventAction := i\<rparr>) = joins_nothing T"
  "joins_nothing (T\<lparr>m_deferEvents := b\<rparr>) = joins_nothing T" "joins_nothing (T\<lparr>m_deferredEvents := es\<rparr>) = joins_nothing T"
  "joins_nothing (T\<lparr>m_deferredProgressEvent := p\<rparr>) = joins_nothing T" "joins_nothing (T\<lparr>xt_dispatched := es\<rparr>) = joins_nothing T"
  "joins_nothing (T\<lparr>m_suspendingEventActionJoin := J\<rparr>) = joins_nothing T" "joins_nothing (T\<lparr>m_lastFireDispatchEventAction := i\<rparr>) = joins_nothing T"
  by (simp_all add: joins_nothing_def)

lemma dispatchEvent_joins:
  assumes "quiet_target target" "dispatchEvent target e (T, w) = Inr (T', w')" "joins_nothing T"
  shows "joins_nothing T'"
proof (cases "m_deferEvents T")
  case True
  then have "T' = T \<or> T' = T\<lparr>m_deferredEvents := m_deferredEvents T @ [e]\<rparr>" using assms(2) by (auto simp: dispatchEvent_def split: if_splits)
  then show ?thesis using assms(3) by auto
next
  case False
  then have "target e (T\<lparr>xt_dispatched := xt_dispatched T @ [e]\<rparr>, w) = Inr (T', w')" using assms(2) by (simp add: dispatchEvent_def)
  moreover have "joins_nothing (T\<lparr>xt_dispatched := xt_dispatched T @ [e]\<rparr>)" using assms(3) by simp
  ultimately show ?thesis using assms(1) unfolding quiet_target_def by blast
qed

lemma flush_joins:
  assumes "quiet_target target" "flushProgressEvent H target (T, w) = Inr (T', w')" "joins_nothing T"
  shows "joins_nothing T'"
proof -
  have "T' = T \<or> (\<exists>es p. T' = T\<lparr>m_deferredEvents := es, m_deferredProgressEvent := p\<rparr>)
     \<or> (\<exists>e w1. dispatchEvent target e (T\<lparr>m_loaded := 0, m_total := 0\<rparr>, w1) = Inr (T', w'))"
    using assms(2) by (auto simp: flushProgressEvent_def Let_def split: if_splits option.splits bool.splits)
  then show ?thesis using assms(3) dispatchEvent_joins [OF assms(1)] by (elim disjE exE) auto
qed

lemma progress_joins:
  assumes "quiet_target target" "dispatchProgressEvent H target b loaded whole (T, w) = Inr (T', w')" "joins_nothing T"
  shows "joins_nothing T'"
  using assms(2,3)
  by (auto simp: dispatchProgressEvent_def getSeqNumber_def split: if_splits dest: dispatchEvent_joins [OF assms(1)])

lemma throttle_do_joins:
  assumes "quiet_target target" "throttle_do H target c (T, w) = Inr (T', w')" "joins_nothing T"
  shows "joins_nothing T'"
proof (cases c)
  case (XC_progress b loaded whole)
  then show ?thesis using assms progress_joins by simp
next
  case (XC_readyState e flush)
  then have "\<exists>T1 w1. (T1 = T \<or> flushProgressEvent H target (T, w) = Inr (T1, w1)) \<and> dispatchEvent target e (T1, w1) = Inr (T', w')"
    using assms(2) by (cases flush) (auto simp: dispatchReadyStateChangeEvent_def)
  then show ?thesis using flush_joins [OF assms(1)] dispatchEvent_joins [OF assms(1)] assms(3) by blast
next
  case (XC_event e)
  then show ?thesis using assms dispatchEvent_joins by simp
next
  case (XC_eventAndLoadEnd e)
  then obtain T1 w1 where "dispatchEvent target e (T, w) = Inr (T1, w1)" "dispatchEvent target loadend_event (T1, w1) = Inr (T', w')"
    using assms(2) by (auto simp: dispatchEventAndLoadEnd_def split: if_splits)
  then show ?thesis using dispatchEvent_joins [OF assms(1)] assms(3) by blast
next
  case XC_suspend
  then show ?thesis using assms by (auto simp: suspend_def Let_def split: if_splits)
next
  case XC_resume
  then show ?thesis using assms by (auto simp: resume_def getSeqNumber_def split: if_splits)
qed

lemma run_joins:
  "quiet_target target \<Longrightarrow> run_steps (throttle_do H target) cs (T, w) = Inr (T', w') \<Longrightarrow> joins_nothing T \<Longrightarrow> joins_nothing T'"
  by (induction cs arbitrary: T w) (auto dest: throttle_do_joins)

lemma nested_quiet: "quiet_target (nested_target H listeners n)"
proof (induction n)
  case (Suc n)
  show ?case unfolding quiet_target_def [of "nested_target H listeners (Suc n)"] using run_joins [OF Suc] by auto
qed (auto simp: quiet_target_def split: if_splits)

lemma fired_joins:
  assumes "quiet_target target" "fired H target (T, w) = Inr (T', w')" "joins_nothing T"
  shows "joins_nothing T'"
proof -
  have J: "joins_nothing (T\<lparr>m_progressEventActionJoin := J, m_lastFireDispatchEventAction := i\<rparr>)"
    if "join_and_clear (m_progressEventActionJoin T) w = Inr (J, w1)" for J w1 i
    using that by (auto simp: join_and_clear_def join_clear_def joins_nothing_def)
  have "\<exists>J w1 i. join_and_clear (m_progressEventActionJoin T) w = Inr (J, w1) \<and>
     (T' = T\<lparr>m_progressEventActionJoin := J, m_lastFireDispatchEventAction := i\<rparr>
      \<or> (\<exists>e T2 w2. dispatchEvent target e (T\<lparr>m_progressEventActionJoin := J, m_lastFireDispatchEventAction := i\<rparr>, w1) = Inr (T2, w2)
           \<and> joins_nothing T' = joins_nothing T2))"
    using assms(2) by (force simp: fired_def Let_def split: if_splits)
  then show ?thesis using J dispatchEvent_joins [OF assms(1)] by blast
qed

lemma deferred_joins:
  assumes "quiet_target target" "dispatchDeferredEvents H target (T, w) = Inr (T', w')" "joins_nothing T"
  shows "joins_nothing T'"
proof -
  have run: "run_steps (dispatchEvent target) es (A, a) = Inr (B, b) \<Longrightarrow> joins_nothing A \<Longrightarrow> joins_nothing B" for es A a B b
    by (induction es arbitrary: A a) (auto dest: dispatchEvent_joins [OF assms(1)])
  let ?T = "T\<lparr>m_deferEvents := False, m_deferredEvents := [], m_deferredProgressEvent := None\<rparr>"
  obtain T1 w1 T2 w2 where "run_steps (dispatchEvent target) (m_deferredEvents T) (?T, w) = Inr (T1, w1)"
    "(case m_deferredProgressEvent T of None \<Rightarrow> Inr (T1, w1) | Some e \<Rightarrow> dispatchEvent target e (T1, w1)) = Inr (T2, w2)"
    "joins_nothing T' = joins_nothing T2"
    using assms(2) by (auto simp: dispatchDeferredEvents_def Let_def split: if_splits)
  then show ?thesis using run [of "m_deferredEvents T" ?T w T1 w1] assms(3) dispatchEvent_joins [OF assms(1)] by (auto split: option.splits)
qed

interpretation xj: step_invariant "throttle_step H target" "\<lambda>Tw. joins_nothing (fst Tw)" "\<lambda>_. quiet_target target" for H target
proof
  fix Tw c Tw' assume inv: "joins_nothing (fst Tw)" and q: "quiet_target target" and run: "throttle_step H target c Tw = Inr Tw'"
  obtain T w where Tw: "Tw = (T, w)" by (cases Tw)
  obtain T' w' where Tw': "Tw' = (T', w')" by (cases Tw')
  show "joins_nothing (fst Tw')"
  proof (cases c)
    case (XE_call x)
    then show ?thesis using throttle_do_joins [OF q] run inv by (simp add: Tw Tw')
  next
    case XE_fired
    then show ?thesis using fired_joins [OF q] run inv by (auto simp: Tw Tw' split: if_splits)
  next
    case XE_deferred
    then show ?thesis using deferred_joins [OF q] run inv by (auto simp: Tw Tw' split: if_splits)
  qed (use run inv in \<open>auto simp: Tw Tw'\<close>)
qed


definition throttled_calls :: "throttle_event list" where
  "throttled_calls = [XE_call (XC_progress True 1 9), XE_call (XC_progress True 5 9)]"

definition throttled_run :: "throttle_world result" where
  "throttled_run = run_steps (throttle_step (\<lambda>_. 0) (nested_target (\<lambda>_. 0) (\<lambda>e s. []) 0)) throttled_calls
     (new_XMLHttpRequestProgressEventThrottle 1 2 False 0, throttle_sample)"

definition throttled_fired :: "throttle_world result" where
  "throttled_fired = fired (\<lambda>_. 0) (\<lambda>e s. Inr s) (fst (projr throttled_run), snd (projr throttled_run))"


end
