(* ===== verification/Event_Sender.thy ===== *)
theory Event_Sender
  imports Timer_Client
begin

text \<open>
  Events that elements send later (\<open>Source/WebCore/dom/EventSender.h\<close>, as R4 changed it): every event has a timer and an event action of its own. What a sender
  does when its event is dispatched is a parameter of the operations that dispatch.
\<close>

section \<open>State\<close>

text \<open>
  The map from senders to their events is a list sorted by the addresses of the senders; nothing is ever taken out of it, so the events have timers with
  consecutive numbers from \<open>es_firstTimer\<close> on. \<open>es_sent\<close> are the events that were sent, each with the event action that asked for it and the one in which it was sent;
  nothing reads it.
\<close>

record EventSenderEvent =
  se_sender :: nat
  se_timer :: nat
  se_dispatched :: bool
  se_parentEventAction :: int

record EventSender =
  m_eventType :: string
  m_dispatchMap :: "EventSenderEvent list"
  es_firstTimer :: nat
  es_sent :: "(nat \<times> int \<times> int) list"

type_synonym sender_world = "EventSender \<times> thread_world"

type_synonym sender_target = "nat \<Rightarrow> sender_world \<Rightarrow> sender_world result"

definition new_EventSender :: "string \<Rightarrow> nat \<Rightarrow> EventSender" where
  "new_EventSender eventType t = \<lparr>m_eventType = eventType, m_dispatchMap = [], es_firstTimer = t, es_sent = []\<rparr>"

section \<open>Operations\<close>

definition new_EventSenderEvent :: "string_hash \<Rightarrow> nat \<Rightarrow> nat \<Rightarrow> string \<Rightarrow> string \<Rightarrow> string \<Rightarrow> thread_world \<Rightarrow> (EventSenderEvent \<times> thread_world) result" where
  "new_EventSenderEvent H t sender eventType owner identifier w =
     bindR (HBCurrentEventAction (w_hb w)) (\<lambda>now.
       let descriptor = mk_descriptor WTF_OTHER ''EventSender'' (eventType @ '','' @ owner @ '','' @ identifier) in
       bindR (timer_do H (TC_setDescriptor t descriptor) w) (\<lambda>w1.
       bindR (startOneShot H t w1) (\<lambda>w2.
         Inr (\<lparr>se_sender = sender, se_timer = t, se_dispatched = False, se_parentEventAction = now\<rparr>, w2))))"

text \<open>\<open>std::multimap\<close> inserts behind the elements with the same key.\<close>

fun multimap_insert :: "EventSenderEvent \<Rightarrow> EventSenderEvent list \<Rightarrow> EventSenderEvent list" where
  "multimap_insert e [] = [e]"
| "multimap_insert e (x # xs) = (if se_sender e < se_sender x then e # x # xs else x # multimap_insert e xs)"

definition dispatchEventSoon :: "string_hash \<Rightarrow> nat \<Rightarrow> string \<Rightarrow> string \<Rightarrow> sender_world \<Rightarrow> sender_world result" where
  "dispatchEventSoon H sender owner identifier Sw =
     (case Sw of (S, w) \<Rightarrow>
      bindR (new_EventSenderEvent H (es_firstTimer S + length (m_dispatchMap S)) sender (m_eventType S) owner identifier w) (\<lambda>(e, w1).
        Inr (S\<lparr>m_dispatchMap := multimap_insert e (m_dispatchMap S)\<rparr>, w1)))"

definition cancel_if :: "(EventSenderEvent \<Rightarrow> bool) \<Rightarrow> EventSender \<Rightarrow> EventSender" where
  "cancel_if P S = S\<lparr>m_dispatchMap := map (\<lambda>e. if P e then e\<lparr>se_dispatched := True\<rparr> else e) (m_dispatchMap S)\<rparr>"

definition cancelEvent :: "nat \<Rightarrow> EventSender \<Rightarrow> EventSender" where
  "cancelEvent sender S = cancel_if (\<lambda>e. se_sender e = sender) S"

text \<open>\<open>dispatchEvent\<close> of the event with timer \<open>t\<close>; the scope of the log ends last.\<close>

definition dispatchEvent :: "string_hash \<Rightarrow> sender_target \<Rightarrow> nat \<Rightarrow> sender_world \<Rightarrow> sender_world result" where
  "dispatchEvent H target t Sw =
     (case Sw of (S, w) \<Rightarrow>
      case find (\<lambda>e. se_timer e = t) (m_dispatchMap S) of None \<Rightarrow> Inl UNDEFINED
      | Some e \<Rightarrow>
          if se_dispatched e then Inr (S, w)
          else bindR (hb_do H (HB_log (R_ScopeStart ''dispatch-event'')) w) (\<lambda>w1.
               bindR (target (se_sender e) (cancel_if (\<lambda>x. se_timer x = t) S, w1)) (\<lambda>(S2, w2).
               bindR (HBCurrentEventAction (w_hb w2)) (\<lambda>now.
               bindR (arc_to_current H (se_parentEventAction e) w2) (\<lambda>w3.
               bindR (hb_do H (HB_log R_ScopeEnd) w3) (\<lambda>w4.
                 Inr (S2\<lparr>es_sent := es_sent S2 @ [(t, se_parentEventAction e, now)]\<rparr>, w4)))))))"

text \<open>The loop over the map, with a bound on its rounds: events that are added behind the iterator are visited too.\<close>

fun next_event :: "nat \<Rightarrow> EventSenderEvent list \<Rightarrow> nat option" where
  "next_event t [] = None"
| "next_event t (x # xs) = (if se_timer x = t then (case xs of [] \<Rightarrow> None | y # _ \<Rightarrow> Some (se_timer y)) else next_event t xs)"

fun pending_loop :: "string_hash \<Rightarrow> sender_target \<Rightarrow> nat \<Rightarrow> nat \<Rightarrow> sender_world \<Rightarrow> sender_world result" where
  "pending_loop H target 0 t Sw = Inl DIVERGES"
| "pending_loop H target (Suc n) t Sw =
     bindR (dispatchEvent H target t Sw) (\<lambda>Sw1.
       case next_event t (m_dispatchMap (fst Sw1)) of None \<Rightarrow> Inr Sw1 | Some u \<Rightarrow> pending_loop H target n u Sw1)"

definition dispatchPendingEvents :: "string_hash \<Rightarrow> sender_target \<Rightarrow> nat \<Rightarrow> sender_world \<Rightarrow> sender_world result" where
  "dispatchPendingEvents H target n Sw =
     (case m_dispatchMap (fst Sw) of [] \<Rightarrow> Inr Sw | e # _ \<Rightarrow> pending_loop H target n (se_timer e) Sw)"

definition hasPendingEvents :: "nat \<Rightarrow> EventSender \<Rightarrow> bool" where
  "hasPendingEvents sender S = list_ex (\<lambda>e. se_sender e = sender \<and> \<not> se_dispatched e) (m_dispatchMap S)"

section \<open>Calls\<close>

datatype sender_call = SC_soon nat string string | SC_cancel nat | SC_pending nat

fun sender_do :: "string_hash \<Rightarrow> sender_target \<Rightarrow> sender_call \<Rightarrow> sender_world \<Rightarrow> sender_world result" where
  "sender_do H target (SC_soon sender owner identifier) Sw = dispatchEventSoon H sender owner identifier Sw"
| "sender_do H target (SC_cancel sender) (S, w) = Inr (cancelEvent sender S, w)"
| "sender_do H target (SC_pending n) Sw = dispatchPendingEvents H target n Sw"

text \<open>A sender whose listeners make calls, which are nested at most \<open>n\<close> deep.\<close>

fun nested_sender :: "string_hash \<Rightarrow> (nat \<Rightarrow> sender_world \<Rightarrow> sender_call list) \<Rightarrow> nat \<Rightarrow> sender_target" where
  "nested_sender H listeners 0 sender Sw = (if listeners sender Sw = [] then Inr Sw else Inl DIVERGES)"
| "nested_sender H listeners (Suc n) sender Sw = run_steps (sender_do H (nested_sender H listeners n)) (listeners sender Sw) Sw"

text \<open>What can happen: calls, active timers of events expire, and event actions begin and end.\<close>

datatype sender_event = SE_call sender_call | SE_expires nat | SE_hb hb_call

fun sender_step :: "string_hash \<Rightarrow> sender_target \<Rightarrow> sender_event \<Rightarrow> sender_world \<Rightarrow> sender_world result" where
  "sender_step H target (SE_call c) Sw = sender_do H target c Sw"
| "sender_step H target (SE_expires t) (S, w) =
     (if t \<in> se_timer ` set (m_dispatchMap S) \<and> timer_active w t
      then bindR (timer_expires H t w) (\<lambda>w1. dispatchEvent H target t (S, w1))
      else Inr (S, w))"
| "sender_step H target (SE_hb c) (S, w) = bindR (hb_do H c w) (\<lambda>w1. Inr (S, w1))"

section \<open>Every event is sent at most once\<close>

definition done_timers :: "EventSender \<Rightarrow> nat set" where
  "done_timers S = {t. \<exists>e \<in> set (m_dispatchMap S). se_timer e = t \<and> se_dispatched e}"

definition map_ok :: "EventSender \<Rightarrow> bool" where
  "map_ok S = (distinct (map se_timer (m_dispatchMap S)) \<and> list_all (\<lambda>t. t < es_firstTimer S + length (m_dispatchMap S)) (map se_timer (m_dispatchMap S)))"

text \<open>
  What steps do: an event that is marked stays marked and is not sent again, an event that is sent is marked and is recorded after the event action that
  asked for it.
\<close>

definition sender_rel :: "sender_world \<Rightarrow> sender_world \<Rightarrow> bool" where
  "sender_rel Sw Sw' = (map_ok (fst Sw) \<longrightarrow> hb_strict_inv (w_hb (snd Sw)) \<longrightarrow>
     map_ok (fst Sw') \<and> arcs_grow (w_hb (snd Sw)) (w_hb (snd Sw')) \<and> done_timers (fst Sw) \<subseteq> done_timers (fst Sw')
     \<and> (\<exists>new. es_sent (fst Sw') = es_sent (fst Sw) @ new \<and> distinct (map fst new)
          \<and> fst ` set new \<subseteq> done_timers (fst Sw') - done_timers (fst Sw)
          \<and> (\<forall>(t, parent, now) \<in> set new. after (w_hb (snd Sw')) parent now)))"

lemma sender_rel_refl: "sender_rel Sw Sw"
  by (simp add: sender_rel_def)

lemma sender_rel_trans:
  assumes "sender_rel a b" "sender_rel b c"
  shows "sender_rel a c"
  unfolding sender_rel_def
proof (intro impI)
  assume a: "map_ok (fst a)" "hb_strict_inv (w_hb (snd a))"
  then obtain n1 where b: "map_ok (fst b)" "arcs_grow (w_hb (snd a)) (w_hb (snd b))" "done_timers (fst a) \<subseteq> done_timers (fst b)"
    "es_sent (fst b) = es_sent (fst a) @ n1" "distinct (map fst n1)" "fst ` set n1 \<subseteq> done_timers (fst b) - done_timers (fst a)"
    "\<forall>(t, parent, now) \<in> set n1. after (w_hb (snd b)) parent now" using assms(1) unfolding sender_rel_def by blast
  have sb: "hb_strict_inv (w_hb (snd b))" using a(2) b(2) by (simp add: arcs_grow_def)
  then obtain n2 where c: "map_ok (fst c)" "arcs_grow (w_hb (snd b)) (w_hb (snd c))" "done_timers (fst b) \<subseteq> done_timers (fst c)"
    "es_sent (fst c) = es_sent (fst b) @ n2" "distinct (map fst n2)" "fst ` set n2 \<subseteq> done_timers (fst c) - done_timers (fst b)"
    "\<forall>(t, parent, now) \<in> set n2. after (w_hb (snd c)) parent now" using assms(2) b(1) unfolding sender_rel_def by blast
  have "\<forall>(t, parent, now) \<in> set (n1 @ n2). after (w_hb (snd c)) parent now"
    using b(7) c(7) after_grows [OF c(2) sb] by auto
  moreover have "distinct (map fst (n1 @ n2))" using b(5,6) c(5,6) by (simp add: distinct_append) blast
  moreover have "fst ` set (n1 @ n2) \<subseteq> done_timers (fst c) - done_timers (fst a)" using b(3,6) c(3,6) unfolding set_append image_Un by blast
  ultimately show "map_ok (fst c) \<and> arcs_grow (w_hb (snd a)) (w_hb (snd c)) \<and> done_timers (fst a) \<subseteq> done_timers (fst c)
     \<and> (\<exists>new. es_sent (fst c) = es_sent (fst a) @ new \<and> distinct (map fst new)
          \<and> fst ` set new \<subseteq> done_timers (fst c) - done_timers (fst a) \<and> (\<forall>(t, parent, now) \<in> set new. after (w_hb (snd c)) parent now))"
    using b(2,3,4) c(1-4) arcs_grow_trans by (intro conjI exI [of _ "n1 @ n2"]) auto
qed

text \<open>Steps that send nothing.\<close>

lemma silent_rel:
  "es_sent S' = es_sent S \<Longrightarrow> (map_ok S \<Longrightarrow> map_ok S' \<and> done_timers S \<subseteq> done_timers S') \<Longrightarrow> arcs_grow (w_hb w) (w_hb w') \<Longrightarrow> sender_rel (S, w) (S', w')"
  by (simp add: sender_rel_def)

lemma cancel_if_fields [simp]:
  "es_sent (cancel_if P S) = es_sent S" "es_firstTimer (cancel_if P S) = es_firstTimer S" "length (m_dispatchMap (cancel_if P S)) = length (m_dispatchMap S)"
  "map se_timer (m_dispatchMap (cancel_if P S)) = map se_timer (m_dispatchMap S)"
  by (simp_all add: cancel_if_def)

lemma done_timers_cancel: "done_timers (cancel_if P S) = {t. \<exists>e \<in> set (m_dispatchMap S). se_timer e = t \<and> (se_dispatched e \<or> P e)}"
proof -
  have "(\<exists>x \<in> (\<lambda>e. if P e then e\<lparr>se_dispatched := True\<rparr> else e) ` set M. se_timer x = t \<and> se_dispatched x)
     = (\<exists>e \<in> set M. se_timer e = t \<and> (se_dispatched e \<or> P e))" for M t
    unfolding bex_simps by (intro bex_cong refl) auto
  moreover have "set (m_dispatchMap (cancel_if P S)) = (\<lambda>e. if P e then e\<lparr>se_dispatched := True\<rparr> else e) ` set (m_dispatchMap S)"
    by (simp add: cancel_if_def)
  ultimately show ?thesis by (simp only: done_timers_def)
qed

lemma cancel_if_ok: "map_ok (cancel_if P S) = map_ok S" "done_timers S \<subseteq> done_timers (cancel_if P S)"
proof -
  show "map_ok (cancel_if P S) = map_ok S" by (simp only: map_ok_def cancel_if_fields)
  show "done_timers S \<subseteq> done_timers (cancel_if P S)" by (auto simp: done_timers_cancel) (auto simp: done_timers_def)
qed

lemma cancel_if_done: "e \<in> set (m_dispatchMap S) \<Longrightarrow> P e \<Longrightarrow> se_timer e \<in> done_timers (cancel_if P S)"
  by (auto simp: done_timers_cancel)

lemma insert_ok:
  assumes "map_ok S" "se_timer e = es_firstTimer S + length (m_dispatchMap S)"
  shows "map_ok (S\<lparr>m_dispatchMap := multimap_insert e (m_dispatchMap S)\<rparr>)" "done_timers S \<subseteq> done_timers (S\<lparr>m_dispatchMap := multimap_insert e (m_dispatchMap S)\<rparr>)"
proof -
  have s: "set (multimap_insert e xs) = insert e (set xs)" "length (multimap_insert e xs) = Suc (length xs)" for xs by (induction xs) auto
  have d: "distinct (map se_timer (multimap_insert e xs)) = (distinct (map se_timer xs) \<and> se_timer e \<notin> se_timer ` set xs)" for xs
    by (induction xs) (auto simp: s)
  show "map_ok (S\<lparr>m_dispatchMap := multimap_insert e (m_dispatchMap S)\<rparr>)" using assms by (auto simp: map_ok_def s d list_all_iff)
  show "done_timers S \<subseteq> done_timers (S\<lparr>m_dispatchMap := multimap_insert e (m_dispatchMap S)\<rparr>)" by (auto simp: done_timers_def s)
qed

lemma soon_rel:
  assumes "dispatchEventSoon H sender owner identifier (S, w) = Inr (S', w')"
  shows "sender_rel (S, w) (S', w')"
proof -
  let ?t = "es_firstTimer S + length (m_dispatchMap S)"
  obtain e where e: "S' = S\<lparr>m_dispatchMap := multimap_insert e (m_dispatchMap S)\<rparr>"
    "new_EventSenderEvent H ?t sender (m_eventType S) owner identifier w = Inr (e, w')"
    using assms by (auto simp: dispatchEventSoon_def)
  have t: "se_timer e = ?t" using e(2) by (auto simp: new_EventSenderEvent_def Let_def)
  have "arcs_grow (w_hb w) (w_hb w')"
    using e(2) by (auto simp: new_EventSenderEvent_def Let_def dest!: timer_do_grows startOneShot_grows elim: arcs_grow_trans)
  then show ?thesis by (intro silent_rel) (use insert_ok [OF _ t] e in auto)
qed

text \<open>Dispatching, when the sender keeps the relation.\<close>

definition good_sender :: "sender_target \<Rightarrow> bool" where
  "good_sender target = (\<forall>sender Sw Sw'. target sender Sw = Inr Sw' \<longrightarrow> sender_rel Sw Sw')"

lemma sent_rel:
  assumes "map_ok S" "hb_strict_inv (w_hb w)" "e \<in> set (m_dispatchMap S)" "se_timer e = t" "t \<notin> done_timers S"
    and "sender_rel (cancel_if (\<lambda>x. se_timer x = t) S, w1) (S2, w2)" "arcs_grow (w_hb w) (w_hb w1)"
    and "arcs_grow (w_hb w2) (w_hb w4)" "after (w_hb w4) p now"
  shows "sender_rel (S, w) (S2\<lparr>es_sent := es_sent S2 @ [(t, p, now)]\<rparr>, w4)"
proof -
  let ?S = "cancel_if (\<lambda>x. se_timer x = t) S" and ?S2 = "S2\<lparr>es_sent := es_sent S2 @ [(t, p, now)]\<rparr>"
  have s1: "hb_strict_inv (w_hb w1)" using assms(2,7) by (simp add: arcs_grow_def)
  have t: "t \<in> done_timers ?S" using cancel_if_done [OF assms(3), of "\<lambda>x. se_timer x = t"] assms(4) by simp
  obtain new where new: "map_ok S2" "arcs_grow (w_hb w1) (w_hb w2)" "done_timers ?S \<subseteq> done_timers S2" "es_sent S2 = es_sent S @ new" "distinct (map fst new)"
    "fst ` set new \<subseteq> done_timers S2 - done_timers ?S" "\<forall>(t, parent, now) \<in> set new. after (w_hb w2) parent now"
    using assms(1,6) s1 cancel_if_ok(1) unfolding sender_rel_def by auto
  have s2: "hb_strict_inv (w_hb w2)" using s1 new(2) by (simp add: arcs_grow_def)
  have S2: "map_ok ?S2" "done_timers ?S2 = done_timers S2" using new(1) by (simp_all add: map_ok_def done_timers_def)
  have "\<forall>(t, parent, now) \<in> set (new @ [(t, p, now)]). after (w_hb w4) parent now" using new(7) after_grows [OF assms(8) s2] assms(9) by auto
  moreover have "distinct (map fst (new @ [(t, p, now)]))" "fst ` set (new @ [(t, p, now)]) \<subseteq> done_timers ?S2 - done_timers S"
    using new(3,5,6) t assms(5) cancel_if_ok(2) [of S "\<lambda>x. se_timer x = t"] S2(2) by auto
  moreover have "arcs_grow (w_hb w) (w_hb w4)" using assms(7,8) new(2) arcs_grow_trans by blast
  moreover have "done_timers S \<subseteq> done_timers ?S2" using new(3) cancel_if_ok(2) [of S] S2(2) by auto
  ultimately show ?thesis using S2(1) new(4) by (auto simp: sender_rel_def intro!: exI [of _ "new @ [(t, p, now)]"])
qed

lemma dispatchEvent_rel:
  assumes "good_sender target" "dispatchEvent H target t (S, w) = Inr (S', w')"
  shows "sender_rel (S, w) (S', w')"
proof (cases "map_ok S \<and> hb_strict_inv (w_hb w)")
  case True
  obtain e where e: "find (\<lambda>e. se_timer e = t) (m_dispatchMap S) = Some e" using assms(2) by (auto simp: dispatchEvent_def split: option.splits)
  then have mem: "e \<in> set (m_dispatchMap S)" "se_timer e = t" by (auto simp: find_Some_iff)
  show ?thesis
  proof (cases "se_dispatched e")
    case False
    have t: "t \<notin> done_timers S" using True mem False by (force simp: done_timers_def map_ok_def distinct_map inj_on_def)
    obtain w1 S2 w2 now w3 where s: "hb_do H (HB_log (R_ScopeStart ''dispatch-event'')) w = Inr w1"
      "target (se_sender e) (cancel_if (\<lambda>x. se_timer x = t) S, w1) = Inr (S2, w2)" "HBCurrentEventAction (w_hb w2) = Inr now"
      "arc_to_current H (se_parentEventAction e) w2 = Inr w3" "hb_do H (HB_log R_ScopeEnd) w3 = Inr w'"
      "S' = S2\<lparr>es_sent := es_sent S2 @ [(t, se_parentEventAction e, now)]\<rparr>"
      using assms(2) e False by (auto simp: dispatchEvent_def)
    have rel: "sender_rel (cancel_if (\<lambda>x. se_timer x = t) S, w1) (S2, w2)" using assms(1) s(2) unfolding good_sender_def by blast
    have g1: "arcs_grow (w_hb w) (w_hb w1)" by (rule hb_do_grows [OF s(1)]) simp
    have g3: "arcs_grow (w_hb w3) (w_hb w')" by (rule hb_do_grows [OF s(5)]) simp
    have "arcs_grow (w_hb w2) (w_hb w')" using arc_to_current_records(1) [OF s(4)] g3 arcs_grow_trans by blast
    moreover have "hb_strict_inv (w_hb w2)" using rel True g1 cancel_if_ok(1) by (auto simp: sender_rel_def arcs_grow_def)
    then have "after (w_hb w3) (se_parentEventAction e) now" "hb_strict_inv (w_hb w3)"
      using arc_to_current_records(1,3) [OF s(4)] s(3) by (auto simp: after_def arcs_grow_def)
    then have "after (w_hb w') (se_parentEventAction e) now" using after_grows [OF g3] by blast
    ultimately show ?thesis using sent_rel [OF _ _ mem t rel g1] True s(6) by blast
  qed (use assms(2) e sender_rel_refl in \<open>simp add: dispatchEvent_def\<close>)
qed (auto simp: sender_rel_def)

lemma pending_rel:
  assumes "good_sender target"
  shows "pending_loop H target n t Sw = Inr Sw' \<Longrightarrow> sender_rel Sw Sw'"
proof (induction n arbitrary: t Sw)
  case (Suc n)
  obtain S w where Sw: "Sw = (S, w)" by (cases Sw)
  obtain S1 w1 where d: "dispatchEvent H target t (S, w) = Inr (S1, w1)"
    "(case next_event t (m_dispatchMap S1) of None \<Rightarrow> Inr (S1, w1) | Some u \<Rightarrow> pending_loop H target n u (S1, w1)) = Inr Sw'"
    using Suc.prems by (auto simp: Sw)
  from dispatchEvent_rel [OF assms d(1)] d(2) Suc.IH sender_rel_trans show ?case by (auto simp: Sw split: option.splits)
qed simp

lemma sender_do_rel:
  assumes "good_sender target" "sender_do H target c Sw = Inr Sw'"
  shows "sender_rel Sw Sw'"
proof -
  obtain S w where Sw: "Sw = (S, w)" by (cases Sw)
  obtain S' w' where Sw': "Sw' = (S', w')" by (cases Sw')
  show ?thesis
  proof (cases c)
    case (SC_soon sender owner name)
    then show ?thesis using soon_rel assms(2) by (simp add: Sw Sw')
  next
    case (SC_cancel sender)
    have "sender_rel (S, w) (cancel_if P S, w)" for P by (rule silent_rel) (simp_all add: cancel_if_ok)
    then show ?thesis using SC_cancel assms(2) by (auto simp: Sw Sw' cancelEvent_def)
  next
    case (SC_pending n)
    then show ?thesis using pending_rel [OF assms(1)] assms(2) sender_rel_refl by (auto simp: dispatchPendingEvents_def split: list.splits)
  qed
qed

lemma run_rel: "good_sender target \<Longrightarrow> run_steps (sender_do H target) cs Sw = Inr Sw' \<Longrightarrow> sender_rel Sw Sw'"
  by (induction cs arbitrary: Sw) (auto simp: sender_rel_refl dest: sender_do_rel intro: sender_rel_trans)

lemma nested_good: "good_sender (nested_sender H listeners n)"
proof (induction n)
  case (Suc n)
  show ?case unfolding good_sender_def [of "nested_sender H listeners (Suc n)"] using run_rel [OF Suc] by auto
qed (auto simp: good_sender_def sender_rel_refl split: if_splits)

text \<open>Event actions may only begin and end through the recorder, which stays in strict mode.\<close>

fun strict_sender_event :: "sender_event \<Rightarrow> bool" where
  "strict_sender_event (SE_hb c) = is_strict_call c"
| "strict_sender_event _ = True"

lemma sender_step_rel:
  assumes "good_sender target" "strict_sender_event ev" "sender_step H target ev Sw = Inr Sw'"
  shows "sender_rel Sw Sw'"
proof -
  obtain S w where Sw: "Sw = (S, w)" by (cases Sw)
  obtain S' w' where Sw': "Sw' = (S', w')" by (cases Sw')
  show ?thesis
  proof (cases ev)
    case (SE_call c)
    then show ?thesis using sender_do_rel assms by simp
  next
    case (SE_expires t)
    then have "Sw' = Sw \<or> (\<exists>w1. timer_expires H t w = Inr w1 \<and> dispatchEvent H target t (S, w1) = Inr Sw')"
      using assms(3) by (auto simp: Sw split: if_splits)
    moreover have "sender_rel (S, w) (S, w1)" if "timer_expires H t w = Inr w1" for w1
      by (rule silent_rel) (use timer_expires_grows [OF that] in simp_all)
    ultimately show ?thesis using sender_rel_refl dispatchEvent_rel [OF assms(1)] sender_rel_trans unfolding Sw Sw' by blast
  next
    case (SE_hb c)
    then show ?thesis using assms(2,3) by (auto simp: Sw intro!: silent_rel dest: hb_do_grows)
  qed
qed

lemma steps_rel:
  "good_sender target \<Longrightarrow> list_all strict_sender_event evs \<Longrightarrow> run_steps (sender_step H target) evs Sw = Inr Sw' \<Longrightarrow> sender_rel Sw Sw'"
  by (induction evs arbitrary: Sw) (auto simp: sender_rel_refl dest: sender_step_rel intro: sender_rel_trans)

text \<open>
  C14: Every event is sent at most once, in an event action that is recorded after the one that asked for it, and an event whose sender was cancelled is never sent afterwards.
  This holds for every history in which the recorder stays in strict mode, whatever the listeners of the events ask for.
\<close>

theorem events_sent_once:
  assumes "run_steps (sender_step H (nested_sender H listeners n)) evs1 (new_EventSender ty t, w0) = Inr (S1, w1)"
    and "run_steps (sender_step H (nested_sender H listeners n)) (SE_call (SC_cancel x) # evs2) (S1, w1) = Inr (S, w)"
    and "hb_strict_inv (w_hb w0)" "list_all strict_sender_event evs1" "list_all strict_sender_event evs2"
    and "e \<in> set (m_dispatchMap S1)" "se_sender e = x"
  shows "distinct (map fst (es_sent S)) \<and> list_all (\<lambda>(t, parent, now). after (w_hb w) parent now) (es_sent S)
     \<and> filter (\<lambda>s. fst s = se_timer e) (es_sent S) = filter (\<lambda>s. fst s = se_timer e) (es_sent S1)"
proof -
  let ?Sc = "cancelEvent x S1"
  note good = nested_good [of H listeners n]
  have run2: "run_steps (sender_step H (nested_sender H listeners n)) evs2 (?Sc, w1) = Inr (S, w)" using assms(2) by simp
  have rel1: "sender_rel (new_EventSender ty t, w0) (S1, w1)" by (rule steps_rel [OF good assms(4,1)])
  have relc: "sender_rel (S1, w1) (?Sc, w1)" using sender_do_rel [OF good, of H "SC_cancel x" "(S1, w1)"] by simp
  have rel2: "sender_rel (?Sc, w1) (S, w)" by (rule steps_rel [OF good assms(5) run2])
  have new: "map_ok (new_EventSender ty t)" by (simp add: map_ok_def new_EventSender_def)
  then have c: "map_ok ?Sc" "hb_strict_inv (w_hb w1)"
    using sender_rel_trans [OF rel1 relc] assms(3) by (auto simp: sender_rel_def arcs_grow_def)
  from rel2 c obtain sent where sent: "es_sent S = es_sent ?Sc @ sent" "fst ` set sent \<subseteq> done_timers S - done_timers ?Sc" unfolding sender_rel_def by auto
  have "se_timer e \<in> done_timers ?Sc" unfolding cancelEvent_def by (rule cancel_if_done) (use assms(6,7) in simp_all)
  then have "filter (\<lambda>s. fst s = se_timer e) sent = []" using sent(2) by (auto simp: filter_empty_conv)
  moreover have "es_sent ?Sc = es_sent S1" by (simp add: cancelEvent_def)
  ultimately show ?thesis
    using sender_rel_trans [OF sender_rel_trans [OF rel1 relc] rel2] new assms(3) sent(1) by (auto simp: sender_rel_def new_EventSender_def list_all_iff)
qed

definition sender_sample :: thread_world where
  "sender_sample = (new_world (new_thread_page (\<lambda>n. 1000 + 1000 * int n)))"

text \<open>An event is asked for and sent; then its sender is cancelled and pending events are dispatched.\<close>

definition sender_start :: "sender_event list" where
  "sender_start = [SE_hb HB_allocate, SE_hb HB_allocate, SE_hb (HB_enter 1 EA_UNKNOWN), SE_call (SC_soon 20 ''img'' ''a''),
     SE_hb (HB_exit True), SE_hb (HB_enter 2 EA_UNKNOWN), SE_expires 1]"

definition sender_first :: "sender_world result" where
  "sender_first = run_steps (sender_step (\<lambda>_. 0) (nested_sender (\<lambda>_. 0) (\<lambda>s Sw. []) 0)) sender_start (new_EventSender ''load'' 1, sender_sample)"

definition sender_second :: "sender_world result" where
  "sender_second = bindR sender_first (run_steps (sender_step (\<lambda>_. 0) (nested_sender (\<lambda>_. 0) (\<lambda>s Sw. []) 0)) (SE_call (SC_cancel 20) # [SE_call (SC_pending 3)]))"

lemma sender_facts:
  "case sender_first of Inl e \<Rightarrow> False
   | Inr (S, w) \<Rightarrow> es_sent S = [(1, 1, 2)] \<and> map se_sender (m_dispatchMap S) = [20] \<and> map se_timer (m_dispatchMap S) = [1]"
  "case sender_second of Inl e \<Rightarrow> False | Inr (S, w) \<Rightarrow> es_sent S = [(1, 1, 2)]"
  by code_simp+

theorem events_sent_once_witness:
  "es_sent (fst (projr sender_second)) = [(1, 1, 2)] \<and> after (w_hb (snd (projr sender_second))) 1 2
     \<and> filter (\<lambda>s. fst s = 1) (es_sent (fst (projr sender_second))) = [(1, 1, 2)]"
proof -
  obtain S1 w1 where f: "sender_first = Inr (S1, w1)" "es_sent S1 = [(1, 1, 2)]" "map se_sender (m_dispatchMap S1) = [20]" "map se_timer (m_dispatchMap S1) = [1]"
    using sender_facts(1) by (auto split: sum.splits)
  obtain S w where g: "sender_second = Inr (S, w)" "es_sent S = [(1, 1, 2)]" using sender_facts(2) by (auto split: sum.splits)
  obtain e es where e: "m_dispatchMap S1 = e # es" "se_sender e = 20" "se_timer e = 1" using f(3,4) by (cases "m_dispatchMap S1") auto
  have s: "hb_strict_inv (w_hb sender_sample)" using hb_inv_new(2) by (simp add: sender_sample_def new_world_def)
  have l: "list_all strict_sender_event sender_start" "list_all strict_sender_event [SE_call (SC_pending 3)]" by (simp_all add: sender_start_def)
  have run: "run_steps (sender_step (\<lambda>_. 0) (nested_sender (\<lambda>_. 0) (\<lambda>s Sw. []) 0)) (SE_call (SC_cancel 20) # [SE_call (SC_pending 3)]) (S1, w1) = Inr (S, w)"
    using g(1) unfolding sender_second_def f(1) bindR.simps .
  have "e \<in> set (m_dispatchMap S1)" using e(1) by simp
  from events_sent_once [OF f(1) [unfolded sender_first_def] run s l this e(2)] g(2) f(2) e(3) show ?thesis by (simp add: g(1))
qed

end
