(* ===== verification/Parser_Scheduler.thy ===== *)
theory Parser_Scheduler
  imports Timer_Client
begin

text \<open>
  When the parser of a document pauses and goes on (\<open>Source/WebCore/html/parser/HTMLParserScheduler\<close>): after some tokens it looks at the
  clock and yields when it has run for too long; it continues in an event action of its own.
\<close>

section \<open>State\<close>

text \<open>Times are in microseconds. The settings of a page can replace the time limit and the number of tokens between two looks at the clock.\<close>

record PumpSession =
  processedTokens :: int
  startTime :: int
  needsYield :: bool

record HTMLParserScheduler =
  m_parserTimeLimit :: int
  m_parserChunkSize :: int
  m_continueNextChunkTimer :: nat
  m_isSuspendedWithActiveTimer :: bool

record page_settings =
  customHTMLTokenizerTimeDelay :: "int option"
  customHTMLTokenizerChunkSize :: "int option"

type_synonym parser_world = "HTMLParserScheduler \<times> thread_world"

definition parserTimeLimit :: "page_settings option \<Rightarrow> int" where
  "parserTimeLimit page = (case page of None \<Rightarrow> 500000 | Some p \<Rightarrow> (case customHTMLTokenizerTimeDelay p of None \<Rightarrow> 500000 | Some d \<Rightarrow> d))"

definition parserChunkSize :: "page_settings option \<Rightarrow> int" where
  "parserChunkSize page = (case page of None \<Rightarrow> 4096 | Some p \<Rightarrow> (case customHTMLTokenizerChunkSize p of None \<Rightarrow> 4096 | Some n \<Rightarrow> n))"

definition INT_MAX :: int where
  "INT_MAX = 2 ^ 31 - 1"

definition new_PumpSession :: PumpSession where
  "new_PumpSession = \<lparr>processedTokens = INT_MAX, startTime = 0, needsYield = False\<rparr>"

definition new_HTMLParserScheduler :: "string_hash \<Rightarrow> page_settings option \<Rightarrow> nat \<Rightarrow> thread_world \<Rightarrow> parser_world result" where
  "new_HTMLParserScheduler H page t w =
     bindR (timer_do H (TC_ignoreFireInterval t) w) (\<lambda>w1.
       Inr (\<lparr>m_parserTimeLimit = parserTimeLimit page, m_parserChunkSize = parserChunkSize page, m_continueNextChunkTimer = t,
             m_isSuspendedWithActiveTimer = False\<rparr>, w1))"

definition delete_HTMLParserScheduler :: "string_hash \<Rightarrow> parser_world \<Rightarrow> thread_world result" where
  "delete_HTMLParserScheduler H Pw = timer_do H (TC_stop (m_continueNextChunkTimer (fst Pw))) (snd Pw)"

section \<open>Yielding\<close>

text \<open>\<open>clock i\<close> is the \<open>i\<close>-th reading of \<open>currentTime\<close>; the second component counts the readings. Incrementing \<open>INT_MAX\<close> is undefined.\<close>

definition checkForYieldBeforeToken :: "(nat \<Rightarrow> int) \<Rightarrow> HTMLParserScheduler \<Rightarrow> PumpSession \<times> nat \<Rightarrow> (PumpSession \<times> nat) result" where
  "checkForYieldBeforeToken clock P sk =
     (case sk of (session, k) \<Rightarrow>
      let (session1, k1) =
        (if processedTokens session > m_parserChunkSize P
         then (let (begun, k0) = (if startTime session = 0 then (clock k, k + 1) else (startTime session, k)); elapsedTime = clock k0 - begun in
               (session\<lparr>startTime := begun, processedTokens := 0, needsYield := (needsYield session \<or> elapsedTime > m_parserTimeLimit P)\<rparr>, k0 + 1))
         else (session, k)) in
      if processedTokens session1 = INT_MAX then Inl UNDEFINED
      else Inr (session1\<lparr>processedTokens := processedTokens session1 + 1\<rparr>, k1))"

definition checkForYieldBeforeScript :: "bool \<Rightarrow> bool \<Rightarrow> PumpSession \<Rightarrow> PumpSession" where
  "checkForYieldBeforeScript needsFirstPaint layoutTimerActive session =
     (if needsFirstPaint \<and> layoutTimerActive then session\<lparr>needsYield := True\<rparr> else session)"

section \<open>Continuing\<close>

text \<open>\<open>resume_parser\<close> is \<open>resumeParsingAfterYield\<close> of the parser.\<close>

definition continueNextChunkTimerFired :: "(parser_world \<Rightarrow> parser_world result) \<Rightarrow> parser_world \<Rightarrow> parser_world result" where
  "continueNextChunkTimerFired resume_parser Pw = resume_parser Pw"

definition scheduleForResume :: "string_hash \<Rightarrow> string \<Rightarrow> 64 word \<Rightarrow> parser_world \<Rightarrow> parser_world result" where
  "scheduleForResume H url tokensSeen Pw =
     (case Pw of (P, w) \<Rightarrow>
      let descriptor = mk_descriptor WTF_PARSING ''HTMLDocumentParser'' (escapeParam url @ '','' @ nat_dec (unat tokensSeen)) in
      bindR (timer_do H (TC_setDescriptor (m_continueNextChunkTimer P) descriptor) w) (\<lambda>w1.
      bindR (startOneShot H (m_continueNextChunkTimer P) w1) (\<lambda>w2. Inr (P, w2))))"

definition isScheduledForResume :: "parser_world \<Rightarrow> bool" where
  "isScheduledForResume Pw = (m_isSuspendedWithActiveTimer (fst Pw) \<or> timer_active (snd Pw) (m_continueNextChunkTimer (fst Pw)))"

definition parser_suspend :: "string_hash \<Rightarrow> parser_world \<Rightarrow> parser_world result" where
  "parser_suspend H Pw =
     (case Pw of (P, w) \<Rightarrow>
      if \<not> timer_active w (m_continueNextChunkTimer P) then Inr (P, w)
      else bindR (timer_do H (TC_stop (m_continueNextChunkTimer P)) w) (\<lambda>w1. Inr (P\<lparr>m_isSuspendedWithActiveTimer := True\<rparr>, w1)))"

definition parser_resume :: "string_hash \<Rightarrow> parser_world \<Rightarrow> parser_world result" where
  "parser_resume H Pw =
     (case Pw of (P, w) \<Rightarrow>
      if \<not> m_isSuspendedWithActiveTimer P then Inr (P, w)
      else bindR (startOneShot H (m_continueNextChunkTimer P) w) (\<lambda>w1. Inr (P\<lparr>m_isSuspendedWithActiveTimer := False\<rparr>, w1)))"

section \<open>A parser that is suspended goes on\<close>

lemma suspend_keeps_schedule: "parser_suspend H Pw = Inr Pw' \<Longrightarrow> isScheduledForResume Pw' = isScheduledForResume Pw"
  by (cases Pw) (auto simp: parser_suspend_def isScheduledForResume_def split: if_splits)

lemma resume_keeps_schedule:
  assumes "parser_resume H (P, w) = Inr Pw'" "page_ok (w_page w)" "tp_changes (w_page w) + 1 < 2 ^ 31 - 1" "tp_clock (w_page w) (tp_reads (w_page w)) \<noteq> 0"
  shows "isScheduledForResume Pw' = isScheduledForResume (P, w)" "\<not> m_isSuspendedWithActiveTimer (fst Pw')"
  using assms startOneShot_active [OF _ assms(2-4)] by (auto simp: parser_resume_def isScheduledForResume_def split: if_splits)

section \<open>When the parser yields\<close>

fun parse_tokens :: "(nat \<Rightarrow> int) \<Rightarrow> HTMLParserScheduler \<Rightarrow> nat \<Rightarrow> PumpSession \<times> nat \<Rightarrow> (PumpSession \<times> nat) result" where
  "parse_tokens clock P 0 sk = Inr sk"
| "parse_tokens clock P (Suc n) sk = bindR (parse_tokens clock P n sk) (checkForYieldBeforeToken clock P)"

text \<open>The state after \<open>m + 1\<close> tokens.\<close>

definition session_after :: "(nat \<Rightarrow> int) \<Rightarrow> int \<Rightarrow> nat \<Rightarrow> nat \<Rightarrow> PumpSession" where
  "session_after clock limit c m = \<lparr>processedTokens = int (m mod (c + 1)) + 1, startTime = clock 0,
     needsYield = list_ex (\<lambda>i. clock i - clock 0 > limit) [1..<m div (c + 1) + 2]\<rparr>"

lemma first_token:
  assumes "m_parserChunkSize P = int c" "int c < INT_MAX" "clock 0 \<noteq> 0"
  shows "checkForYieldBeforeToken clock P (new_PumpSession, 0) = Inr (session_after clock (m_parserTimeLimit P) c 0, 2)"
  using assms by (simp add: checkForYieldBeforeToken_def new_PumpSession_def session_after_def INT_MAX_def)

lemma next_token:
  assumes "m_parserChunkSize P = int c" "int c < INT_MAX" "clock 0 \<noteq> 0"
  shows "checkForYieldBeforeToken clock P (session_after clock (m_parserTimeLimit P) c m, m div (c + 1) + 2)
     = Inr (session_after clock (m_parserTimeLimit P) c (Suc m), Suc m div (c + 1) + 2)"
proof (cases "Suc m mod (c + 1) = 0")
  case True
  then have "m mod (c + 1) = c" "Suc m div (c + 1) = Suc (m div (c + 1))" by (simp_all add: mod_Suc div_Suc split: if_splits)
  with True assms show ?thesis by (simp add: checkForYieldBeforeToken_def session_after_def INT_MAX_def)
next
  case False
  then have s: "m mod (c + 1) < c" "Suc m mod (c + 1) = Suc (m mod (c + 1))" "Suc m div (c + 1) = m div (c + 1)"
    using mod_less_divisor [of "c + 1" m] by (auto simp: mod_Suc div_Suc simp del: mod_less_divisor split: if_splits)
  with assms show ?thesis by (simp add: checkForYieldBeforeToken_def session_after_def INT_MAX_def)
qed



end
