(* ===== verification/Spec2Isabelle.thy ===== *)
theory Spec2Isabelle
  imports Warning_Collector Action_Log_Report Data_Log Fuzzy_Url Timer_Firing Network_Replay Dom_Timer Clients Document_Event_Queue Script_Runner
    Load_Progress Progress_Throttle Event_Sender Parser_Scheduler
begin

text \<open>
  A verification development of R4, a record and replay system that finds concurrency errors in web pages. R4 is a
  WebKit in which every piece of work of a page (a timer, a network message, a parser step, a user action) is an
  \<^emph>\<open>event action\<close> with a name. While recording, event actions run as they come, and R4 writes down the schedule, the
  accesses to memory with a happens-before relation, the time and random values and the network messages. A
  replay executes a schedule, possibly one that a model checker has permuted, and answers time, randomness and the network from
  the logs.

  \<^bold>\<open>How the parts work together.\<close> A timer that is due is taken out of the heap (\<open>ThreadTimers\<close>), put into the
  \<open>EventActionRegister\<close> under its descriptor and announced to the installed \<open>Scheduler\<close>. The scheduler decides when it
  runs, through \<open>EventActionRegister::runEventAction\<close>, which allocates an id, enters the event action in the
  happens-before recorder and the action log, calls the handler and leaves again. A handler starts and stops timers,
  registers and removes handlers and reports to the log. Network replies, JavaScript timers, the queue of a document, the script
  runner, the events of requests and elements and the parser are clients of the timers. The recording client installs all this and writes the files from which the replay client starts.

  \<^bold>\<open>Theories.\<close>
  \<^item> \<open>Prelude\<close>: results with failures (\<open>failure + 'a\<close>), decimal texts, character searches, line and binary
    input; the collections \<open>r4_inv\<close> and others.
  \<^item> \<open>Std_Containers\<close>: \<open>std::map\<close>, \<open>std::set\<close> and \<open>QHash\<close> as sorted lists behind the locale
    \<open>dictionary\<close>; the locale \<open>sequence_counter\<close> for numbers per key.
  \<^item> \<open>Descriptor\<close> (\<open>Source/WTF/wtf/EventActionDescriptor\<close>, \<open>EventActionSchedule\<close>): names, parameters, patching and schedule files.
  \<^item> \<open>Action_Log\<close>, \<open>String_Set\<close>, \<open>Action_Log_Report\<close>, \<open>Warning_Collector\<close> (\<open>Source/WTF/wtf\<close>): the log of memory accesses, its
    tables of strings, the global reporting functions with their strict mode, and the warnings.
  \<^item> \<open>Happens_Before\<close> (\<open>Source/WebCore/platform/EventActionHappensBefore\<close> and its report functions): ids and arcs.
  \<^item> \<open>Event_Register\<close> (\<open>Source/WebCore/platform/schedule/EventActionRegister\<close>): handlers, providers, dispatch. A handler
    function is a parameter that tells the calls it makes; the rest of the page is a type parameter.
  \<^item> \<open>Data_Log\<close>, \<open>Fuzzy_Url\<close>, \<open>Replay_Scheduler\<close> (\<open>R4/clients/Replay\<close>), \<open>Spec_Scheduler\<close> (\<open>R4/clients/Record\<close> and
    \<open>DefaultScheduler\<close>): the replay of time and random values, the similarity of URLs, and the three schedulers.
  \<^item> \<open>Scheduler_Contract\<close>: what all schedulers guarantee, as locales over relations between worlds.
  \<^item> \<open>Std_Heap\<close>, \<open>Timer_Heap\<close>, \<open>Thread_Timers\<close>, \<open>Timer_Firing\<close> (\<open>Source/WebCore/platform/Timer\<close>, \<open>ThreadTimers\<close>): the
    heap algorithms of the C++ library over an abstract comparison, the heap of timers with its wrapping counter, and the life of
    a thread with any scheduler (locale \<open>thread_scheduler\<close>, interpreted on all three).
  \<^item> \<open>Dom_Timer\<close> (\<open>Source/WebCore/page/DOMTimer\<close>, \<open>SuspendableTimer\<close>): the timers of JavaScript and their names.
  \<^item> \<open>Network_Snapshot\<close>, \<open>Network_Reply\<close>, \<open>Network_Replay\<close> (\<open>Source/WebCore/platform/network/qt/QNetworkReplyHandler\<close>,
    \<open>R4/clients/Replay/network\<close>): recorded replies, the network log, controllable replies and the replaying factory.
  \<^item> \<open>Form_Data\<close>, \<open>Network_Handler\<close>, \<open>Load_Protocol\<close>, \<open>Load_Progress\<close> (the same file, with \<open>QtMIMETypeSniffer\<close>): the device that uploads a form, cookies, the
    wrapper of a reply, the queue of calls and the handler of a load with its redirections; what the client of an asynchronous load is told, and that a load does not get stuck.
  \<^item> \<open>Timer_Client\<close>: sequences of steps (locales \<open>step_invariant\<close>, \<open>step_safe\<close> and \<open>step_relation\<close>) and the calls of an event source to its timers.
    \<open>Document_Event_Queue\<close> and \<open>Script_Runner\<close> (\<open>Source/WebCore/dom\<close>) are such sources: queued events, and asynchronous and deferred
    scripts with the delay of the load event. So are \<open>Progress_Throttle\<close> (\<open>Source/WebCore/xml/XMLHttpRequestProgressEventThrottle\<close>), \<open>Event_Sender\<close>
    (\<open>Source/WebCore/dom/EventSender.h\<close>) and \<open>Parser_Scheduler\<close> (\<open>Source/WebCore/html/parser/HTMLParserScheduler\<close>).
  \<^item> \<open>Auto_Explorer\<close>, \<open>Clients\<close> (\<open>R4/clients/Record\<close>, \<open>R4/clients/Replay\<close>): the automatic exploration of a page, the command lines of
    the two clients, the files one writes and the other reads, and the wiring of all parts.

  \<^bold>\<open>State and operations.\<close> A class is a record with its fields, an operation a function that returns the new state; an operation
  that can fail returns \<open>Inl\<close> of a failure: \<open>CRASH\<close>, \<open>EXIT\<close> with a status, \<open>ASSERT_FAILED\<close> (both \<open>ASSERT\<close> and
  \<open>assert\<close> are checked, as in a debug build), \<open>OUT_OF_RANGE\<close>, \<open>UNDEFINED\<close> behaviour of C++, or \<open>DIVERGES\<close> for a loop
  that does not end. Effects on other components are returned as calls (\<open>hb_call\<close>, \<open>timer_call\<close>, \<open>report_call\<close>).

  \<^bold>\<open>What is shown.\<close> Files and logs are read back as they were written (schedules, action log, string sets, warnings, time
  values, network). The register, the log and the recorder keep their invariants under any sequence of calls; the
  happens-before relation has no cycles, orders user actions and puts a timer after its start. The replay scheduler executes the schedule in
  order, also when everything goes through the files of the recording client; the specification scheduler loses nothing. Deferred scripts
  run in their order, one after the other in the happens-before relation, and the load event waits for all scripts. The exploration ends. The heap of timers stays in order under every scheduler,
  its operations never fail an assertion, the firing loop ends and a tick always sets the next one. Names of
  JavaScript timers are distinct, and a replayed reply announces the events and hands out the bytes of its recording. The client of a load is told the end once and last and the bytes that were
  read, no assertion of the network code fails, and a load that is not over has a reply that it still listens to. An upload sends the bytes of its form. A suspended page gets the events of its requests
  when it is resumed, events of elements are sent once, and the parser looks at the clock once per chunk.
  Some theorems show defects of the code: they are listed as findings.

  \<^bold>\<open>Numbers and bounds.\<close> Indices of the string table, the score of a URL, insertion orders and sequence numbers are words of
  their width. Event action ids and counters that only count up are unbounded integers. Times are
  integers in microseconds. The order of the timer heap is guaranteed for fewer than \<open>2 ^ 31 - 1\<close> changes of
  fire times, because the comparison of the wrapping counters is no order beyond that. Loops whose end depends on data
  have a bound on the rounds as an argument: the theorems show which bound is enough (the size of the hash table, the
  length of a file, the number of clock readings up to the time limit).

  \<^bold>\<open>Parameters.\<close> Code that is not part of the repository is a parameter: the hash function of strings, \<open>QUrl\<close>
  (record \<open>qurl\<close>), Qt's reply (record \<open>QNetworkReply\<close>), Qt's network access manager with MIME types, the contents of files and the client of a load (record \<open>net_env\<close>), the iteration order of \<open>QHash\<close>, the clock, the
  encoding of \<open>QDataStream\<close> (a stream is the list of values written to it), and the handler functions and scripts of the page.

  \<^bold>\<open>Not modelled.\<close> The windows of the clients (Qt user interface); the resource loader above the client of a load; nested event
  loops that fire timers inside a timer; the shell and Python drivers; and the browser engine itself, of which R4 only
  instruments the places listed above.
\<close>

end
